(* ===== verification/Prelude.thy ===== *)
theory Prelude
  imports Main "HOL-Library.Word" "HOL-Library.Monad_Syntax"
begin

text \<open>
  Shared vocabulary of the development: the machine integers of the C sources, the return codes,
  the way a C call that does not return normally is written, and generic facts on lists and on
  64-bit words.

  A C function is modelled by a HOL function. Where an execution can dereference a null pointer,
  fail an \<^verbatim>\<open>assert\<close> or run forever, the function has an option result and
  \<^term>\<open>None\<close> is that abnormal outcome. A theorem that gives \<^term>\<open>Some r\<close> therefore says that
  the call returns.
\<close>

section \<open>Types\<close>

type_synonym u64 = "64 word" \<comment> \<open>\<^verbatim>\<open>unsigned long\<close>, \<^verbatim>\<open>size_t\<close>, \<^verbatim>\<open>uint64_t\<close>\<close>
type_synonym u32 = "32 word"
type_synonym u8 = "8 word"

text \<open>Return codes: the enumeration of \<^verbatim>\<open>unifyfs_rc.h\<close> and the errno values the code uses.\<close>

datatype unifyfs_rc =
    UNIFYFS_SUCCESS | UNIFYFS_FAILURE | UNIFYFS_ERROR_SHMEM | UNIFYFS_ERROR_BADCONFIG
  | UNIFYFS_ERROR_MARGO | UNIFYFS_ERROR_NYI | UNIFYFS_ERROR_TIMEOUT
  | EINVAL | ENOMEM | ENOENT | EEXIST | ENOSPC | EIO | EROFS | EISDIR | ENOTDIR | EMFILE
  | ENAMETOOLONG | ENODATA | EINPROGRESS | ETIMEDOUT

text \<open>
  Signed 32-bit arithmetic: a result outside of the range of \<^verbatim>\<open>int\<close> is undefined in C and is
  \<^term>\<open>None\<close> here.
\<close>

definition c_int :: "int \<Rightarrow> int option" where
  "c_int x = (if - (2 ^ 31) \<le> x \<and> x < 2 ^ 31 then Some x else None)"

named_theorems unifyfs_defs \<open>definitions unfolded by the component proofs\<close>

lemma c_int_Some: "c_int x = Some y \<longleftrightarrow> y = x \<and> - (2 ^ 31) \<le> x \<and> x < 2 ^ 31"
  by (auto simp: c_int_def)

section \<open>Lists\<close>

definition hd_opt :: "'a list \<Rightarrow> 'a option" where
  "hd_opt xs = (case xs of [] \<Rightarrow> None | x # _ \<Rightarrow> Some x)"

definition last_opt :: "'a list \<Rightarrow> 'a option" where
  "last_opt xs = (if xs = [] then None else Some (last xs))"

lemma hd_opt_simps [simp]: "hd_opt [] = None" "hd_opt (x # xs) = Some x"
  "hd_opt (xs @ ys) = (if xs = [] then hd_opt ys else hd_opt xs)"
  by (auto simp: hd_opt_def split: list.splits)

lemma last_opt_simps [simp]: "last_opt [] = None" "last_opt (xs @ [x]) = Some x"
  "last_opt (xs @ ys) = (if ys = [] then last_opt xs else last_opt ys)"
  "last_opt (x # xs) = (if xs = [] then Some x else last_opt xs)"
  by (auto simp: last_opt_def)

lemma hd_opt_eq_Some: "hd_opt xs = Some x \<longleftrightarrow> (\<exists>ys. xs = x # ys)"
  by (cases xs) auto

lemma last_opt_eq_Some: "last_opt xs = Some x \<longleftrightarrow> (\<exists>ys. xs = ys @ [x])"
  by (cases xs rule: rev_cases) auto

lemma find_append:
  "List.find P (xs @ ys) = (case List.find P xs of None \<Rightarrow> List.find P ys | Some x \<Rightarrow> Some x)"
  by (induction xs) auto

lemma option_case_id [simp]: "(case x of None \<Rightarrow> None | Some y \<Rightarrow> Some y) = x"
  by (cases x) auto

section \<open>Offsets\<close>

lemma u64_of_nat: "n < 2 ^ 64 \<Longrightarrow> unat (of_nat n :: u64) = n"
  by (simp add: unat_of_nat take_bit_nat_eq_self)

lemma u64_le_pred: "(a::u64) < b \<Longrightarrow> c \<le> b - 1 \<longleftrightarrow> c < b"
  by unat_arith

lemma u64_succ_le: "(e::u64) < h \<Longrightarrow> e + 1 \<le> b \<longleftrightarrow> e < b"
  by unat_arith

lemma u64_pred_less: "(a::u64) < b \<Longrightarrow> b - 1 < b"
  by unat_arith

lemma u64_less_succ: "(e::u64) < h \<Longrightarrow> e < e + 1"
  by unat_arith

end
