(* ===== verification/Rb_Tree.thy ===== *)
theory Rb_Tree
  imports Prelude
begin

text \<open>
  The red-black trees of \<^verbatim>\<open>common/src/tree.h\<close> (macros \<^verbatim>\<open>RB_INSERT\<close>, \<^verbatim>\<open>RB_REMOVE\<close>,
  \<^verbatim>\<open>RB_FIND\<close>, \<^verbatim>\<open>RB_NFIND\<close>, \<^verbatim>\<open>RB_NEXT\<close>, \<^verbatim>\<open>RB_PREV\<close>, \<^verbatim>\<open>RB_MINMAX\<close>) on which the segment tree, the
  extent tree and the inode tree are built.

  The C nodes carry a parent pointer. A node together with the chain of its parents is modelled
  as a zipper: the subtree at the node and the list of frames above it, the nearest parent first.
  Rotations act on the subtree they rotate and the loops of the rebalancing routines walk the
  frame list upwards. A dereference of a null parent, grandparent or sibling is \<^term>\<open>None\<close>; the
  balance invariant \<open>rb_ok\<close> rules it out. A node is identified by its contents, which is what
  the address of the node stands for in trees whose elements are pairwise different.
\<close>

section \<open>Nodes, parent chains and rotations\<close>


datatype color = RB_BLACK | RB_RED

datatype 'a rbt =
    Null
  | Node (rbe_color: color) (rbe_left: "'a rbt") (rbe_elm: 'a) (rbe_right: "'a rbt")

datatype 'a frame =
    InLeft color 'a "'a rbt"
  | InRight color "'a rbt" 'a

fun frame_color :: "'a frame \<Rightarrow> color" where
  "frame_color (InLeft c x r) = c"
| "frame_color (InRight c l x) = c"

fun rb_plug1 :: "'a rbt \<Rightarrow> 'a frame \<Rightarrow> 'a rbt" where
  "rb_plug1 t (InLeft c x r) = Node c t x r"
| "rb_plug1 t (InRight c l x) = Node c l x t"

fun rb_plug :: "'a rbt \<Rightarrow> 'a frame list \<Rightarrow> 'a rbt" where
  "rb_plug t [] = t"
| "rb_plug t (f # p) = rb_plug (rb_plug1 t f) p"

fun rb_paint :: "color \<Rightarrow> 'a rbt \<Rightarrow> 'a rbt" where
  "rb_paint c Null = Null"
| "rb_paint c (Node _ l x r) = Node c l x r"

fun rb_is_red :: "'a rbt \<Rightarrow> bool" where
  "rb_is_red Null = False"
| "rb_is_red (Node c l x r) = (c = RB_RED)"

text \<open>
  \<^verbatim>\<open>RB_ROTATE_LEFT\<close> and \<^verbatim>\<open>RB_ROTATE_RIGHT\<close>, on the subtree rooted at the rotated element.
  The child that moves up must not be null. Colours stay with their elements.
\<close>

fun RB_ROTATE_LEFT :: "'a rbt \<Rightarrow> 'a rbt option" where
  "RB_ROTATE_LEFT (Node c a x (Node d b y e)) = Some (Node d (Node c a x b) y e)"
| "RB_ROTATE_LEFT _ = None"

fun RB_ROTATE_RIGHT :: "'a rbt \<Rightarrow> 'a rbt option" where
  "RB_ROTATE_RIGHT (Node c (Node d a x b) y e) = Some (Node d a x (Node c b y e))"
| "RB_ROTATE_RIGHT _ = None"

text \<open>
  \<^verbatim>\<open>RB_INSERT_COLOR\<close>: \<open>t\<close> is the subtree at \<^verbatim>\<open>elm\<close>, the frames are its parents. The loop runs while
  the parent is red; a red parent without a grandparent would be a null dereference. With a red
  uncle the grandparent is recoloured and becomes \<^verbatim>\<open>elm\<close>; otherwise one or two rotations end the
  loop, because the node above \<^verbatim>\<open>elm\<close> is then black.
\<close>

fun RB_INSERT_COLOR :: "'a rbt \<Rightarrow> 'a frame list \<Rightarrow> 'a rbt option" where
  "RB_INSERT_COLOR t [] = Some (rb_paint RB_BLACK t)"
| "RB_INSERT_COLOR t [f] =
     (if frame_color f = RB_BLACK then Some (rb_paint RB_BLACK (rb_plug t [f])) else None)"
| "RB_INSERT_COLOR t (f # g # p) =
     (if frame_color f = RB_BLACK then Some (rb_paint RB_BLACK (rb_plug t (f # g # p)))
      else (case g of
        InLeft cg xg u \<Rightarrow>
          if rb_is_red u
          then RB_INSERT_COLOR (Node RB_RED (rb_paint RB_BLACK (rb_plug1 t f)) xg (rb_paint RB_BLACK u)) p
          else do {
            parent \<leftarrow> (case f of InRight _ _ _ \<Rightarrow> RB_ROTATE_LEFT (rb_plug1 t f)
                              | InLeft _ _ _ \<Rightarrow> Some (rb_plug1 t f));
            s \<leftarrow> RB_ROTATE_RIGHT (Node RB_RED (rb_paint RB_BLACK parent) xg u);
            Some (rb_paint RB_BLACK (rb_plug s p))
          }
      | InRight cg u xg \<Rightarrow>
          if rb_is_red u
          then RB_INSERT_COLOR (Node RB_RED (rb_paint RB_BLACK u) xg (rb_paint RB_BLACK (rb_plug1 t f))) p
          else do {
            parent \<leftarrow> (case f of InLeft _ _ _ \<Rightarrow> RB_ROTATE_RIGHT (rb_plug1 t f)
                              | InRight _ _ _ \<Rightarrow> Some (rb_plug1 t f));
            s \<leftarrow> RB_ROTATE_LEFT (Node RB_RED u xg (rb_paint RB_BLACK parent));
            Some (rb_paint RB_BLACK (rb_plug s p))
          }))"

text \<open>
  \<^verbatim>\<open>RB_REMOVE_COLOR\<close>. The two halves of the C loop are mirror images; which one runs is decided by
  the frame. \<open>rb_red_sibling\<close> is the first \<^verbatim>\<open>if\<close> (the sibling \<^verbatim>\<open>tmp\<close> is red: recolour and
  rotate, which puts the old sibling above the parent) and gives the new parent frame and the frame
  of the old sibling. \<open>rb_remove_step\<close> is the rest of the iteration: the flag says whether the
  loop goes on with \<^verbatim>\<open>elm = parent\<close> or is left by \<^verbatim>\<open>break\<close>.
\<close>

fun frame_sibling :: "'a frame \<Rightarrow> 'a rbt" where
  "frame_sibling (InLeft c x r) = r"
| "frame_sibling (InRight c l x) = l"

fun rb_red_sibling :: "'a frame \<Rightarrow> ('a frame \<times> 'a frame) option" where
  "rb_red_sibling (InLeft c x (Node _ a y b)) = Some (InLeft RB_RED x a, InLeft RB_BLACK y b)"
| "rb_red_sibling (InRight c (Node _ a y b) x) = Some (InRight RB_RED b x, InRight RB_BLACK a y)"
| "rb_red_sibling _ = None"

fun rb_remove_step :: "'a rbt \<Rightarrow> 'a frame \<Rightarrow> ('a rbt \<times> bool) option" where
  "rb_remove_step elm (InLeft c x (Node ct a y b)) =
     (if \<not> rb_is_red a \<and> \<not> rb_is_red b
      then Some (Node c elm x (Node RB_RED a y b), True)
      else do {
        tmp \<leftarrow> (if \<not> rb_is_red b
                then RB_ROTATE_RIGHT (Node RB_RED (rb_paint RB_BLACK a) y b)
                else Some (Node ct a y b));
        s \<leftarrow> RB_ROTATE_LEFT (Node RB_BLACK elm x
               (Node c (rbe_left tmp) (rbe_elm tmp) (rb_paint RB_BLACK (rbe_right tmp))));
        Some (s, False)
      })"
| "rb_remove_step elm (InRight c (Node ct a y b) x) =
     (if \<not> rb_is_red a \<and> \<not> rb_is_red b
      then Some (Node c (Node RB_RED a y b) x elm, True)
      else do {
        tmp \<leftarrow> (if \<not> rb_is_red a
                then RB_ROTATE_LEFT (Node RB_RED a y (rb_paint RB_BLACK b))
                else Some (Node ct a y b));
        s \<leftarrow> RB_ROTATE_RIGHT (Node RB_BLACK
               (Node c (rb_paint RB_BLACK (rbe_left tmp)) (rbe_elm tmp) (rbe_right tmp)) x elm);
        Some (s, False)
      })"
| "rb_remove_step elm _ = None"

lemma rb_remove_step_continue:
  "rb_remove_step elm f = Some (u, True) \<Longrightarrow> rb_is_red u \<longleftrightarrow> frame_color f = RB_RED"
  by (cases "(elm, f)" rule: rb_remove_step.cases) (auto split: if_splits bind_splits)

lemma rb_red_sibling_color:
  "rb_red_sibling f = Some (f', g) \<Longrightarrow> frame_color f' = RB_RED \<and> frame_color g = RB_BLACK"
  by (cases f rule: rb_red_sibling.cases) auto

function (sequential) RB_REMOVE_COLOR :: "'a rbt \<Rightarrow> 'a frame list \<Rightarrow> 'a rbt option" where
  "RB_REMOVE_COLOR elm [] = Some (rb_paint RB_BLACK elm)"
| "RB_REMOVE_COLOR elm (f # p) =
     (if rb_is_red elm then Some (rb_plug (rb_paint RB_BLACK elm) (f # p))
      else do {
        (f', p') \<leftarrow> (if rb_is_red (frame_sibling f)
                     then map_option (\<lambda>(f', g). (f', g # p)) (rb_red_sibling f)
                     else Some (f, p));
        (u, more) \<leftarrow> rb_remove_step elm f';
        if more then RB_REMOVE_COLOR u p' else Some (rb_paint RB_BLACK (rb_plug u p'))
      })"
  by pat_completeness auto
termination
  by (relation "measure (\<lambda>(elm, p). 2 * length p + (if rb_is_red elm then 0 else 1))")
    (auto split: if_splits dest!: rb_remove_step_continue rb_red_sibling_color)

declare RB_REMOVE_COLOR.simps [simp del]

text \<open>
  \<^verbatim>\<open>RB_REMOVE\<close> is given a node of the tree. \<open>rb_locate\<close> finds its subtree and its parents, with no
  use of the comparison function. A node with two children is replaced by the leftmost node of its
  right subtree, which takes over the colour and both subtrees of the old node.
\<close>

fun rb_locate :: "'a \<Rightarrow> 'a rbt \<Rightarrow> 'a frame list \<Rightarrow> ('a rbt \<times> 'a frame list) option" where
  "rb_locate x Null p = None"
| "rb_locate x (Node c l y r) p =
     (if x = y then Some (Node c l y r, p)
      else (case rb_locate x l (InLeft c y r # p) of
              Some z \<Rightarrow> Some z
            | None \<Rightarrow> rb_locate x r (InRight c l y # p)))"

fun rb_leftmost :: "color \<Rightarrow> 'a rbt \<Rightarrow> 'a \<Rightarrow> 'a rbt \<Rightarrow> 'a frame list \<Rightarrow> color \<times> 'a \<times> 'a rbt \<times> 'a frame list" where
  "rb_leftmost c Null x r p = (c, x, r, p)"
| "rb_leftmost c (Node cl ll xl rl) x r p = rb_leftmost cl ll xl rl (InLeft c x r # p)"

definition rb_unlink :: "color \<Rightarrow> 'a rbt \<Rightarrow> 'a frame list \<Rightarrow> 'a rbt option" where
  "rb_unlink c child p =
     (if c = RB_BLACK then RB_REMOVE_COLOR child p else Some (rb_plug child p))"

definition RB_REMOVE :: "'a rbt \<Rightarrow> 'a \<Rightarrow> 'a rbt option" where
  "RB_REMOVE t elm =
     (case rb_locate elm t [] of
        Some (Node c l x r, p) \<Rightarrow>
          (case (l, r) of
             (Null, _) \<Rightarrow> rb_unlink c r p
           | (_, Null) \<Rightarrow> rb_unlink c l p
           | (_, Node cr lr xr rr) \<Rightarrow>
               (case rb_leftmost cr lr xr rr [] of
                  (color, y, child, q) \<Rightarrow> rb_unlink color child (q @ InRight c l y # p)))
      | _ \<Rightarrow> None)"

text \<open>
  \<^verbatim>\<open>RB_INSERT\<close>: descend by the comparison function; an element that compares equal is returned and
  the tree stays as it is, otherwise the new red leaf is linked below the last node and
  \<^verbatim>\<open>RB_INSERT_COLOR\<close> runs.
\<close>

fun rb_descend :: "('a \<Rightarrow> 'a \<Rightarrow> int) \<Rightarrow> 'a \<Rightarrow> 'a rbt \<Rightarrow> 'a frame list \<Rightarrow> 'a + 'a frame list" where
  "rb_descend cmp elm Null p = Inr p"
| "rb_descend cmp elm (Node c l y r) p =
     (if cmp elm y < 0 then rb_descend cmp elm l (InLeft c y r # p)
      else if cmp elm y > 0 then rb_descend cmp elm r (InRight c l y # p)
      else Inl y)"

definition RB_INSERT :: "('a \<Rightarrow> 'a \<Rightarrow> int) \<Rightarrow> 'a rbt \<Rightarrow> 'a \<Rightarrow> ('a rbt \<times> 'a option) option" where
  "RB_INSERT cmp t elm =
     (case rb_descend cmp elm t [] of
        Inl tmp \<Rightarrow> Some (t, Some tmp)
      | Inr p \<Rightarrow> do {
          t' \<leftarrow> RB_INSERT_COLOR (Node RB_RED Null elm Null) p;
          Some (t', None)
        })"

fun RB_FIND :: "('a \<Rightarrow> 'a \<Rightarrow> int) \<Rightarrow> 'a rbt \<Rightarrow> 'a \<Rightarrow> 'a option" where
  "RB_FIND cmp Null elm = None"
| "RB_FIND cmp (Node c l y r) elm =
     (if cmp elm y < 0 then RB_FIND cmp l elm
      else if cmp elm y > 0 then RB_FIND cmp r elm
      else Some y)"

fun rb_nfind :: "('a \<Rightarrow> 'a \<Rightarrow> int) \<Rightarrow> 'a rbt \<Rightarrow> 'a \<Rightarrow> 'a option \<Rightarrow> 'a option" where
  "rb_nfind cmp Null elm res = res"
| "rb_nfind cmp (Node c l y r) elm res =
     (if cmp elm y < 0 then rb_nfind cmp l elm (Some y)
      else if cmp elm y > 0 then rb_nfind cmp r elm res
      else Some y)"

definition RB_NFIND :: "('a \<Rightarrow> 'a \<Rightarrow> int) \<Rightarrow> 'a rbt \<Rightarrow> 'a \<Rightarrow> 'a option" where
  "RB_NFIND cmp t elm = rb_nfind cmp t elm None"

fun RB_MIN :: "'a rbt \<Rightarrow> 'a option" where
  "RB_MIN Null = None"
| "RB_MIN (Node c Null x r) = Some x"
| "RB_MIN (Node c l x r) = RB_MIN l"

fun RB_MAX :: "'a rbt \<Rightarrow> 'a option" where
  "RB_MAX Null = None"
| "RB_MAX (Node c l x Null) = Some x"
| "RB_MAX (Node c l x r) = RB_MAX r"

fun rb_up_next :: "'a frame list \<Rightarrow> 'a option" where
  "rb_up_next [] = None"
| "rb_up_next (InLeft c x r # p) = Some x"
| "rb_up_next (InRight c l x # p) = rb_up_next p"

fun rb_up_prev :: "'a frame list \<Rightarrow> 'a option" where
  "rb_up_prev [] = None"
| "rb_up_prev (InRight c l x # p) = Some x"
| "rb_up_prev (InLeft c x r # p) = rb_up_prev p"

definition RB_NEXT :: "'a rbt \<Rightarrow> 'a \<Rightarrow> 'a option option" where
  "RB_NEXT t elm =
     (case rb_locate elm t [] of
        Some (Node c l x r, p) \<Rightarrow> Some (if r \<noteq> Null then RB_MIN r else rb_up_next p)
      | _ \<Rightarrow> None)"

definition RB_PREV :: "'a rbt \<Rightarrow> 'a \<Rightarrow> 'a option option" where
  "RB_PREV t elm =
     (case rb_locate elm t [] of
        Some (Node c l x r, p) \<Rightarrow> Some (if l \<noteq> Null then RB_MAX l else rb_up_prev p)
      | _ \<Rightarrow> None)"

text \<open>
  An assignment to the fields of a node that stays linked in the tree: the shape and the colours
  are untouched.
\<close>

definition rb_assign :: "'a rbt \<Rightarrow> 'a \<Rightarrow> 'a \<Rightarrow> 'a rbt" where
  "rb_assign t old new = map_rbt (\<lambda>x. if x = old then new else x) t"

section \<open>In-order contents\<close>

fun rb_inorder :: "'a rbt \<Rightarrow> 'a list" where
  "rb_inorder Null = []"
| "rb_inorder (Node c l x r) = rb_inorder l @ x # rb_inorder r"

fun path_left :: "'a frame list \<Rightarrow> 'a list" where
  "path_left [] = []"
| "path_left (InLeft c x r # p) = path_left p"
| "path_left (InRight c l x # p) = path_left p @ rb_inorder l @ [x]"

fun path_right :: "'a frame list \<Rightarrow> 'a list" where
  "path_right [] = []"
| "path_right (InLeft c x r # p) = x # rb_inorder r @ path_right p"
| "path_right (InRight c l x # p) = path_right p"

lemma inorder_plug [simp]:
  "rb_inorder (rb_plug t p) = path_left p @ rb_inorder t @ path_right p"
proof (induction p arbitrary: t)
  case (Cons f p) then show ?case by (cases f) simp_all
qed simp

lemma inorder_paint [simp]: "rb_inorder (rb_paint c t) = rb_inorder t"
  by (cases t) auto

lemma inorder_plug1 [simp]:
  "rb_inorder (rb_plug1 t f) = path_left [f] @ rb_inorder t @ path_right [f]"
  by (cases f) auto

lemma rotate_left_inorder: "RB_ROTATE_LEFT t = Some u \<Longrightarrow> rb_inorder u = rb_inorder t"
  by (cases t rule: RB_ROTATE_LEFT.cases) auto

lemma rotate_right_inorder: "RB_ROTATE_RIGHT t = Some u \<Longrightarrow> rb_inorder u = rb_inorder t"
  by (cases t rule: RB_ROTATE_RIGHT.cases) auto

lemma insert_color_inorder:
  "RB_INSERT_COLOR t p = Some u \<Longrightarrow> rb_inorder u = rb_inorder (rb_plug t p)"
proof (induction t p rule: RB_INSERT_COLOR.induct)
  case (3 t f g p)
  show ?case
  proof (cases g)
    case (InLeft cg xg v)
    show ?thesis using 3 InLeft
      by (cases f) (auto split: if_splits bind_splits dest!: rotate_left_inorder rotate_right_inorder)
  next
    case (InRight cg v xg)
    show ?thesis using 3 InRight
      by (cases f) (auto split: if_splits bind_splits dest!: rotate_left_inorder rotate_right_inorder)
  qed
qed (auto split: if_splits)

lemma rotate_right_SomeD: "RB_ROTATE_RIGHT t = Some u \<Longrightarrow> \<exists>c l x r. u = Node c l x r"
  by (cases t rule: RB_ROTATE_RIGHT.cases) auto

lemma rotate_left_SomeD: "RB_ROTATE_LEFT t = Some u \<Longrightarrow> \<exists>c l x r. u = Node c l x r"
  by (cases t rule: RB_ROTATE_LEFT.cases) auto

lemma remove_step_inorder:
  "rb_remove_step elm f = Some (u, more) \<Longrightarrow> rb_inorder u = rb_inorder (rb_plug1 elm f)"
  by (cases f; cases "frame_sibling f"; cases "rbe_left (frame_sibling f)";
      cases "rbe_right (frame_sibling f)") (auto split: if_splits)

lemma red_sibling_inorder:
  "rb_red_sibling f = Some (f', g) \<Longrightarrow>
   rb_inorder (rb_plug1 (rb_plug1 elm f') g) = rb_inorder (rb_plug1 elm f)"
  by (cases f rule: rb_red_sibling.cases) auto

lemma remove_color_inorder:
  "RB_REMOVE_COLOR elm p = Some u \<Longrightarrow> rb_inorder u = rb_inorder (rb_plug elm p)"
proof (induction elm p rule: RB_REMOVE_COLOR.induct)
  case (1 elm)
  then show ?case by (auto simp: RB_REMOVE_COLOR.simps)
next
  case (2 elm f p)
  have step: "rb_inorder (rb_plug v p') = rb_inorder (rb_plug elm (f' # p'))"
    if "rb_remove_step elm f' = Some (v, more)" for f' p' v more
    using remove_step_inorder [OF that] by simp
  have red: "rb_inorder (rb_plug elm (f' # g # p)) = rb_inorder (rb_plug elm (f # p))"
    if "rb_red_sibling f = Some (f', g)" for f' g
    using red_sibling_inorder [OF that, of elm] by simp
  show ?case
  proof (cases "rb_is_red elm")
    case True
    with "2.prems" show ?thesis by (auto simp: RB_REMOVE_COLOR.simps(2))
  next
    case black: False
    obtain f' p' v more where
      fp: "(if rb_is_red (frame_sibling f)
            then map_option (\<lambda>(f', g). (f', g # p)) (rb_red_sibling f) else Some (f, p)) = Some (f', p')"
      and st: "rb_remove_step elm f' = Some (v, more)"
      and res: "(if more then RB_REMOVE_COLOR v p' else Some (rb_paint RB_BLACK (rb_plug v p'))) = Some u"
      using "2.prems" black by (auto simp: RB_REMOVE_COLOR.simps(2) split: bind_splits)
    have "rb_inorder u = rb_inorder (rb_plug v p')"
      using "2.IH" [OF black fp refl st refl] res by (cases more) auto
    also have "\<dots> = rb_inorder (rb_plug elm (f' # p'))" by (rule step [OF st])
    also have "\<dots> = rb_inorder (rb_plug elm (f # p))"
      using fp red by (auto split: if_splits simp del: inorder_plug rb_plug.simps)
    finally show ?thesis .
  qed
qed

lemma rb_is_redE: "rb_is_red t \<Longrightarrow> (\<And>l x r. t = Node RB_RED l x r \<Longrightarrow> P) \<Longrightarrow> P"
  by (cases t) auto

section \<open>Balance\<close>

text \<open>
  The red-black invariant: no red node has a red child, every path carries the same number of black
  nodes, the root is black. \<open>path_ok\<close> is the same invariant of the frames around a hole of a
  given black height.
\<close>

fun rb_bh :: "'a rbt \<Rightarrow> nat" where
  "rb_bh Null = 0"
| "rb_bh (Node c l x r) = rb_bh l + (if c = RB_BLACK then 1 else 0)"

fun rb_invh :: "'a rbt \<Rightarrow> bool" where
  "rb_invh Null = True"
| "rb_invh (Node c l x r) = (rb_invh l \<and> rb_invh r \<and> rb_bh l = rb_bh r)"

fun rb_invc :: "'a rbt \<Rightarrow> bool" where
  "rb_invc Null = True"
| "rb_invc (Node c l x r) =
     (rb_invc l \<and> rb_invc r \<and> (c = RB_RED \<longrightarrow> \<not> rb_is_red l \<and> \<not> rb_is_red r))"

definition rb_ok :: "'a rbt \<Rightarrow> bool" where
  "rb_ok t = (rb_invc t \<and> rb_invh t \<and> \<not> rb_is_red t)"

fun path_ok :: "'a frame list \<Rightarrow> nat \<Rightarrow> bool" where
  "path_ok [] h = True"
| "path_ok (f # p) h =
     (rb_invc (frame_sibling f) \<and> rb_invh (frame_sibling f) \<and> rb_bh (frame_sibling f) = h \<and>
      (frame_color f = RB_RED \<longrightarrow>
         \<not> rb_is_red (frame_sibling f) \<and> p \<noteq> [] \<and> frame_color (hd p) = RB_BLACK) \<and>
      path_ok p (if frame_color f = RB_BLACK then Suc h else h))"

definition hole_black :: "'a frame list \<Rightarrow> bool" where
  "hole_black p = (p \<noteq> [] \<and> frame_color (hd p) = RB_BLACK)"

lemma color_neq [simp]: "c \<noteq> RB_BLACK \<longleftrightarrow> c = RB_RED" "c \<noteq> RB_RED \<longleftrightarrow> c = RB_BLACK"
  by (cases c; simp)+

lemma plug_ok_iff:
  "rb_ok (rb_plug t p) \<longleftrightarrow>
   rb_invc t \<and> rb_invh t \<and> (rb_is_red t \<longrightarrow> hole_black p) \<and> path_ok p (rb_bh t)"
proof (induction p arbitrary: t)
  case Nil
  then show ?case by (auto simp: rb_ok_def hole_black_def)
next
  case (Cons f p)
  show ?case
    by (cases f; cases "frame_color f") (auto simp: Cons.IH hole_black_def)
qed

lemma rb_ok_paint [simp]: "rb_ok t \<Longrightarrow> rb_paint RB_BLACK t = t"
  by (cases t) (auto simp: rb_ok_def)

lemma paint_simps [simp]:
  "rb_is_red (rb_paint c t) \<longleftrightarrow> c = RB_RED \<and> t \<noteq> Null"
  "rb_invh (rb_paint c t) = rb_invh t"
  by (cases t; auto)+


lemma insert_color_ok:
  assumes "rb_is_red t" "rb_invc t" "rb_invh t" "path_ok p (rb_bh t)"
  shows "\<exists>u. RB_INSERT_COLOR t p = Some u \<and> rb_ok u"
  using assms
proof (induction t p rule: RB_INSERT_COLOR.induct)
  case (1 t)
  then show ?case by (cases t) (auto simp: rb_ok_def)
next
  case (2 t f)
  then have "rb_ok (rb_plug t [f])" "frame_color f = RB_BLACK"
    by (auto simp: plug_ok_iff hole_black_def simp del: rb_plug.simps)
  then show ?case by simp
next
  case (3 t f g p)
  obtain l x r where t: "t = Node RB_RED l x r" using 3(3) by (auto elim: rb_is_redE)
  show ?case
  proof (cases "frame_color f = RB_BLACK")
    case True
    with 3(3-) have "rb_ok (rb_plug t (f # g # p))"
      by (auto simp: plug_ok_iff hole_black_def simp del: rb_plug.simps)
    with True show ?thesis by simp
  next
    case red: False
    show ?thesis
    proof (cases "rb_is_red (frame_sibling g)")
      case True
      show ?thesis using 3 red True t
        by (cases g; cases f) (auto elim!: rb_is_redE)
    next
      case False
      then show ?thesis using 3(3-) red t
        by (cases g; cases f) (auto simp: plug_ok_iff)
    qed
  qed
qed

definition rb_invc2 :: "'a rbt \<Rightarrow> bool" where
  "rb_invc2 t = rb_invc (rb_paint RB_BLACK t)"

lemma invc_imp_invc2 [simp]: "rb_invc t \<Longrightarrow> rb_invc2 t"
  by (cases t) (auto simp: rb_invc2_def)

lemma invc2_black [simp]: "\<not> rb_is_red t \<Longrightarrow> rb_invc2 t = rb_invc t"
  by (cases t) (auto simp: rb_invc2_def)

definition color_height :: "color \<Rightarrow> nat" where
  "color_height c = (if c = RB_BLACK then 1 else 0)"

lemma remove_step_ok:
  assumes "rb_invc elm" "rb_invh elm" "\<not> rb_is_red elm"
    and "rb_invc (frame_sibling f)" "rb_invh (frame_sibling f)" "\<not> rb_is_red (frame_sibling f)"
    and "rb_bh (frame_sibling f) = Suc (rb_bh elm)"
  shows "\<exists>u more. rb_remove_step elm f = Some (u, more) \<and> rb_invh u \<and>
     (more \<longrightarrow> rb_invc2 u \<and> rb_bh u = rb_bh elm + color_height (frame_color f)) \<and>
     (\<not> more \<longrightarrow> rb_invc u \<and> rb_bh u = Suc (rb_bh elm) + color_height (frame_color f) \<and>
        (rb_is_red u \<longrightarrow> frame_color f = RB_RED))"
  using assms
  by (cases f; cases "frame_sibling f"; cases "rbe_left (frame_sibling f)";
      cases "rbe_right (frame_sibling f)")
    (auto simp: rb_invc2_def color_height_def split: if_splits)

lemma red_sibling_ok:
  assumes "rb_is_red (frame_sibling f)" "path_ok (f # p) (Suc h)"
  obtains f' g where "rb_red_sibling f = Some (f', g)" "path_ok (f' # g # p) (Suc h)"
    "\<not> rb_is_red (frame_sibling f')"
proof -
  have "path_ok (f' # g # p) (Suc h) \<and> \<not> rb_is_red (frame_sibling f')"
    if "rb_red_sibling f = Some (f', g)" for f' g
    using assms that by (cases f rule: rb_red_sibling.cases) auto
  moreover have "rb_red_sibling f \<noteq> None"
    using assms by (cases f rule: rb_red_sibling.cases) auto
  ultimately show ?thesis using that by auto
qed

lemma remove_color_ok:
  assumes "rb_invc2 elm" "rb_invh elm" "path_ok p (Suc (rb_bh elm))"
  shows "\<exists>u. RB_REMOVE_COLOR elm p = Some u \<and> rb_ok u"
  using assms
proof (induction elm p rule: RB_REMOVE_COLOR.induct)
  case (1 elm)
  then show ?case
    by (cases elm) (auto simp: RB_REMOVE_COLOR.simps rb_ok_def rb_invc2_def)
next
  case (2 elm f p)
  show ?case
  proof (cases "rb_is_red elm")
    case True
    then have "rb_ok (rb_plug (rb_paint RB_BLACK elm) (f # p))"
      using "2.prems" by (auto simp: plug_ok_iff rb_invc2_def simp del: rb_plug.simps elim!: rb_is_redE)
    with True show ?thesis by (auto simp: RB_REMOVE_COLOR.simps)
  next
    case black: False
    define fp where "fp = (if rb_is_red (frame_sibling f)
                     then map_option (\<lambda>(f', g). (f', g # p)) (rb_red_sibling f)
                     else Some (f, p))"
    obtain f' p' where fp: "fp = Some (f', p')" "path_ok (f' # p') (Suc (rb_bh elm))"
      "\<not> rb_is_red (frame_sibling f')"
    proof (cases "rb_is_red (frame_sibling f)")
      case True
      then show ?thesis
        using red_sibling_ok [OF True "2.prems"(3)] that by (auto simp: fp_def simp del: path_ok.simps)
    next
      case False
      then show ?thesis using "2.prems"(3) that by (auto simp: fp_def simp del: path_ok.simps)
    qed
    obtain u more where u: "rb_remove_step elm f' = Some (u, more)" "rb_invh u"
      "more \<longrightarrow> rb_invc2 u \<and> rb_bh u = rb_bh elm + color_height (frame_color f')"
      "\<not> more \<longrightarrow> rb_invc u \<and> rb_bh u = Suc (rb_bh elm) + color_height (frame_color f') \<and>
        (rb_is_red u \<longrightarrow> frame_color f' = RB_RED)"
      using remove_step_ok [of elm f'] "2.prems" black fp by auto
    have eq: "RB_REMOVE_COLOR elm (f # p) =
      (if more then RB_REMOVE_COLOR u p' else Some (rb_paint RB_BLACK (rb_plug u p')))"
      using black fp(1) u(1) by (simp add: RB_REMOVE_COLOR.simps(2) fp_def [symmetric])
    show ?thesis
    proof (cases more)
      case True
      have "\<exists>w. RB_REMOVE_COLOR u p' = Some w \<and> rb_ok w"
        using "2.IH" [OF black fp(1) [unfolded fp_def] refl u(1) refl True] True u fp(2)
        by (auto simp: color_height_def split: if_splits)
      with True eq show ?thesis by simp
    next
      case False
      with fp u have "rb_ok (rb_plug u p')"
        by (auto simp: plug_ok_iff hole_black_def color_height_def split: if_splits)
      with False eq show ?thesis by simp
    qed
  qed
qed


section \<open>Contracts of the operations\<close>

lemma inorder_eq_Nil [simp]: "rb_inorder t = [] \<longleftrightarrow> t = Null"
  by (cases t) auto

lemma RB_MIN_inorder: "RB_MIN t = hd_opt (rb_inorder t)"
  by (induction t rule: RB_MIN.induct) auto

lemma RB_MAX_inorder: "RB_MAX t = last_opt (rb_inorder t)"
  by (induction t rule: RB_MAX.induct) auto

lemma up_next_path: "rb_up_next p = hd_opt (path_right p)"
  by (induction p rule: rb_up_next.induct) auto

lemma up_prev_path: "rb_up_prev p = last_opt (path_left p)"
  by (induction p rule: rb_up_prev.induct) auto

lemma locate_plug:
  "rb_locate x t p = Some (s, q) \<Longrightarrow> rb_plug s q = rb_plug t p \<and> (\<exists>c l r. s = Node c l x r)"
  by (induction x t p rule: rb_locate.induct) (auto split: if_splits option.splits)

lemma locate_exists: "x \<in> set (rb_inorder t) \<Longrightarrow> \<exists>s q. rb_locate x t p = Some (s, q)"
  by (induction x t p rule: rb_locate.induct) (auto split: option.splits)

lemma locate_split:
  assumes "x \<in> set (rb_inorder t)"
  obtains c l r q where "rb_locate x t [] = Some (Node c l x r, q)" "t = rb_plug (Node c l x r) q"
proof -
  obtain s q where "rb_locate x t [] = Some (s, q)" using locate_exists [OF assms] by blast
  with locate_plug [OF this] that show ?thesis by auto
qed

lemma locate_inorder:
  assumes "distinct (rb_inorder t)" "rb_inorder t = as @ x # bs"
  obtains c l r q where "rb_locate x t [] = Some (Node c l x r, q)" "t = rb_plug (Node c l x r) q"
    "as = path_left q @ rb_inorder l" "bs = rb_inorder r @ path_right q"
proof -
  obtain c l r q where loc: "rb_locate x t [] = Some (Node c l x r, q)" "t = rb_plug (Node c l x r) q"
    by (rule locate_split [of x t]) (simp_all add: assms(2))
  have nin: "x \<notin> set as" "x \<notin> set bs" using assms(1) unfolding assms(2) by auto
  have "as @ x # bs = (path_left q @ rb_inorder l) @ x # (rb_inorder r @ path_right q)"
    using loc(2) assms(2) by simp
  then have "as = path_left q @ rb_inorder l \<and> bs = rb_inorder r @ path_right q"
    by (rule append_Cons_eq_iff [OF nin, THEN iffD1])
  with that [OF loc] show ?thesis by simp
qed

lemma RB_NEXT_inorder:
  assumes "distinct (rb_inorder t)" "rb_inorder t = as @ x # bs"
  shows "RB_NEXT t x = Some (hd_opt bs)"
proof -
  obtain c l r q where "rb_locate x t [] = Some (Node c l x r, q)" "bs = rb_inorder r @ path_right q"
    by (rule locate_inorder [OF assms])
  then show ?thesis by (auto simp: RB_NEXT_def RB_MIN_inorder up_next_path)
qed

lemma RB_PREV_inorder:
  assumes "distinct (rb_inorder t)" "rb_inorder t = as @ x # bs"
  shows "RB_PREV t x = Some (last_opt as)"
proof -
  obtain c l r q where "rb_locate x t [] = Some (Node c l x r, q)" "as = path_left q @ rb_inorder l"
    by (rule locate_inorder [OF assms])
  then show ?thesis by (auto simp: RB_PREV_def RB_MAX_inorder up_prev_path)
qed

lemma path_left_append: "path_left (p @ q) = path_left q @ path_left p"
  by (induction p rule: path_left.induct) auto

lemma path_right_append: "path_right (p @ q) = path_right p @ path_right q"
  by (induction p rule: path_right.induct) auto

lemma leftmost_plug:
  "rb_leftmost c l x r p = (c', y, child, q) \<Longrightarrow>
   rb_plug (Node c' Null y child) q = rb_plug (Node c l x r) p"
  by (induction c l x r p arbitrary: c' y child q rule: rb_leftmost.induct) auto

lemma leftmost_path:
  "rb_leftmost c l x r p = (c', y, child, q) \<Longrightarrow> path_left q = path_left p"
  by (induction c l x r p arbitrary: c' y child q rule: rb_leftmost.induct) auto

lemma leftmost_append:
  "rb_leftmost c l x r (p @ s) = (case rb_leftmost c l x r p of (c', y, ch, q) \<Rightarrow> (c', y, ch, q @ s))"
  by (induction c l x r p rule: rb_leftmost.induct) auto

lemma path_ok_elem:
  "path_ok (q @ InRight c l y # p) h = path_ok (q @ InRight c l x # p) h"
proof (induction q arbitrary: h)
  case (Cons f q) then show ?case by (cases q) auto
qed auto

lemma hole_black_elem [simp]:
  "hole_black (q @ InRight c l y # p) = hole_black (q @ InRight c l x # p)"
  by (cases q) (auto simp: hole_black_def)

lemma unlink_ok:
  assumes "path_ok p (rb_bh child + color_height c)" "rb_invc child" "rb_invh child"
    "c = RB_RED \<longrightarrow> \<not> rb_is_red child"
  shows "\<exists>u. rb_unlink c child p = Some u \<and> rb_ok u"
  using assms remove_color_ok [of child p]
  by (cases c) (auto simp: rb_unlink_def color_height_def plug_ok_iff)

lemma unlink_inorder:
  "rb_unlink c child p = Some u \<Longrightarrow> rb_inorder u = path_left p @ rb_inorder child @ path_right p"
  by (auto simp: rb_unlink_def split: if_splits dest: remove_color_inorder)


lemma remove_two_children:
  assumes ok: "rb_ok (rb_plug (Node c l x (Node cr lr xr rr)) p)"
    and lm: "rb_leftmost cr lr xr rr [] = (color, y, child, q)"
  shows "\<exists>u. rb_unlink color child (q @ InRight c l y # p) = Some u \<and> rb_ok u \<and>
     rb_inorder u = path_left p @ rb_inorder l @ rb_inorder (Node cr lr xr rr) @ path_right p"
proof -
  have lm': "rb_leftmost cr lr xr rr (InRight c l x # p) = (color, y, child, q @ InRight c l x # p)"
    using leftmost_append [of cr lr xr rr "[]" "InRight c l x # p"] lm by simp
  have "rb_ok (rb_plug (Node color Null y child) (q @ InRight c l x # p))"
    using leftmost_plug [OF lm'] ok by simp
  then have "path_ok (q @ InRight c l y # p) (rb_bh child + color_height color)"
    "rb_invc child" "rb_invh child" "color = RB_RED \<longrightarrow> \<not> rb_is_red child"
    by (auto simp: plug_ok_iff path_ok_elem [of q c l y p _ x] color_height_def split: if_splits)
  then obtain u where u: "rb_unlink color child (q @ InRight c l y # p) = Some u" "rb_ok u"
    using unlink_ok by blast
  have "path_left q = []" using leftmost_path [OF lm] by simp
  moreover have "rb_inorder (Node cr lr xr rr) = path_left q @ y # rb_inorder child @ path_right q"
    using arg_cong [OF leftmost_plug [OF lm], of rb_inorder] by simp
  ultimately show ?thesis
    using u unlink_inorder [OF u(1)] by (auto simp: path_left_append path_right_append)
qed

lemma RB_REMOVE_spec:
  assumes ok: "rb_ok t" and inord: "rb_inorder t = as @ x # bs" and dist: "distinct (rb_inorder t)"
  shows "\<exists>t'. RB_REMOVE t x = Some t' \<and> rb_ok t' \<and> rb_inorder t' = as @ bs"
proof -
  obtain c l r q where loc: "rb_locate x t [] = Some (Node c l x r, q)" "t = rb_plug (Node c l x r) q"
    and eq: "as = path_left q @ rb_inorder l" "bs = rb_inorder r @ path_right q"
    by (rule locate_inorder [OF dist inord])
  have node: "rb_invc (Node c l x r)" "rb_invh (Node c l x r)" "path_ok q (rb_bh (Node c l x r))"
    using ok loc(2) by (auto simp: plug_ok_iff simp del: rb_invc.simps rb_invh.simps rb_bh.simps)
  consider (one) child where "RB_REMOVE t x = rb_unlink c child q"
      "l = Null \<and> child = r \<or> r = Null \<and> child = l"
    | (two) cr lr xr rr where "r = Node cr lr xr rr"
      "RB_REMOVE t x = (case rb_leftmost cr lr xr rr [] of
         (color, y, child, q') \<Rightarrow> rb_unlink color child (q' @ InRight c l y # q))"
    using loc(1) by (cases l; cases r) (auto simp: RB_REMOVE_def)
  then show ?thesis
  proof cases
    case one
    have "\<exists>u. rb_unlink c child q = Some u \<and> rb_ok u"
      using one(2) node by (intro unlink_ok) (auto simp: color_height_def split: if_splits)
    with one eq show ?thesis by (auto dest: unlink_inorder)
  next
    case two
    obtain color y child q' where "rb_leftmost cr lr xr rr [] = (color, y, child, q')"
      by (rule prod_cases4)
    with two remove_two_children [of c l x cr lr xr rr q color y child q'] ok loc(2) eq
    show ?thesis by auto
  qed
qed

section \<open>Searching under a comparison function\<close>

definition cmp_sorted :: "('a \<Rightarrow> 'a \<Rightarrow> int) \<Rightarrow> ('a \<Rightarrow> bool) \<Rightarrow> 'a list \<Rightarrow> bool" where
  "cmp_sorted cmp valid xs = (sorted_wrt (\<lambda>x y. cmp x y < 0) xs \<and> (\<forall>x \<in> set xs. valid x))"

lemma descend_plug:
  "rb_descend cmp x t p = Inr q \<Longrightarrow> rb_plug Null q = rb_plug t p"
  by (induction cmp x t p rule: rb_descend.induct) (auto split: if_splits)

lemma descend_conflict:
  "rb_descend cmp x t p = Inl y \<Longrightarrow> y \<in> set (rb_inorder t) \<and> cmp x y = 0"
  by (induction cmp x t p rule: rb_descend.induct) (auto split: if_splits)

lemma RB_INSERT_total:
  assumes "rb_ok t"
  shows "(\<exists>y. RB_INSERT cmp t x = Some (t, Some y) \<and> y \<in> set (rb_inorder t) \<and> cmp x y = 0) \<or>
    (\<exists>t' p. RB_INSERT cmp t x = Some (t', None) \<and> rb_ok t' \<and> rb_descend cmp x t [] = Inr p \<and>
       rb_inorder t = path_left p @ path_right p \<and> rb_inorder t' = path_left p @ x # path_right p)"
proof (cases "rb_descend cmp x t []")
  case (Inl y)
  then show ?thesis by (auto simp: RB_INSERT_def dest: descend_conflict)
next
  case (Inr p)
  then have eq: "rb_plug Null p = t" using descend_plug [of cmp x t "[]" p] by simp
  then have "path_ok p 0" using assms by (auto simp: plug_ok_iff [of Null, symmetric] plug_ok_iff)
  then obtain u where u: "RB_INSERT_COLOR (Node RB_RED Null x Null) p = Some u" "rb_ok u"
    using insert_color_ok [of "Node RB_RED Null x Null" p] by auto
  have "rb_inorder t = path_left p @ path_right p" using arg_cong [OF eq, of rb_inorder] by simp
  with u Inr insert_color_inorder [OF u(1)] show ?thesis by (auto simp: RB_INSERT_def)
qed

text \<open>
  What a tree needs of its comparison function: it is antisymmetric, and transitive through valid
  elements. Elements that compare equal need not be equal: for the interval trees every overlap
  compares equal, and transitivity needs intervals that are not empty.
\<close>

locale rb_compare =
  fixes cmp :: "'a \<Rightarrow> 'a \<Rightarrow> int" and valid :: "'a \<Rightarrow> bool"
  assumes cmp_anti: "valid x \<Longrightarrow> valid y \<Longrightarrow> cmp x y < 0 \<longleftrightarrow> cmp y x > 0"
    and cmp_trans: "valid x \<Longrightarrow> valid y \<Longrightarrow> valid z \<Longrightarrow> cmp x y < 0 \<Longrightarrow> cmp y z < 0 \<Longrightarrow> cmp x z < 0"
begin

lemma cmp_irrefl: "valid x \<Longrightarrow> cmp x x = 0"
  using cmp_anti [of x x] by linarith

lemma sorted_distinct: "cmp_sorted cmp valid xs \<Longrightarrow> distinct xs"
proof (induction xs)
  case (Cons x xs)
  then have "valid x" "\<forall>y \<in> set xs. cmp x y < 0" "distinct xs" by (auto simp: cmp_sorted_def)
  then show ?case using cmp_irrefl [of x] by auto
qed simp

lemma sorted_Node:
  assumes "cmp_sorted cmp valid (rb_inorder (Node c l y r))"
  shows "cmp_sorted cmp valid (rb_inorder l)" "cmp_sorted cmp valid (rb_inorder r)" "valid y"
    "\<forall>a \<in> set (rb_inorder l). valid a \<and> cmp a y < 0" "\<forall>b \<in> set (rb_inorder r). valid b \<and> cmp y b < 0"
  using assms by (auto simp: cmp_sorted_def sorted_wrt_append)

lemma descend_order:
  assumes "rb_descend cmp x t p = Inr q" "cmp_sorted cmp valid (rb_inorder t)" "valid x"
    "\<forall>a \<in> set (path_left p). cmp a x < 0" "\<forall>b \<in> set (path_right p). cmp x b < 0"
  shows "(\<forall>a \<in> set (path_left q). cmp a x < 0) \<and> (\<forall>b \<in> set (path_right q). cmp x b < 0)"
  using assms
proof (induction t arbitrary: p)
  case (Node c l y r)
  note srt = sorted_Node [OF Node.prems(2)]
  show ?case
  proof (cases "cmp x y < 0")
    case True
    have "\<forall>b \<in> set (path_right (InLeft c y r # p)). cmp x b < 0"
      using True srt Node.prems(3,5) by (auto intro: cmp_trans [of _ y])
    then show ?thesis
      using Node.IH(1) [of "InLeft c y r # p"] Node.prems True srt by simp
  next
    case False
    with Node.prems(1) have pos: "cmp x y > 0" by (auto split: if_splits)
    then have gt: "cmp y x < 0" using cmp_anti srt(3) Node.prems(3) by simp
    have "\<forall>a \<in> set (path_left (InRight c l y # p)). cmp a x < 0"
      using gt srt Node.prems(3,4) by (auto intro: cmp_trans [of _ y])
    then show ?thesis
      using Node.IH(2) [of "InRight c l y # p"] Node.prems pos False srt by simp
  qed
qed auto

lemma insert_cases:
  assumes "rb_ok t" "cmp_sorted cmp valid (rb_inorder t)" "valid x"
  obtains (conflict) y where "RB_INSERT cmp t x = Some (t, Some y)" "y \<in> set (rb_inorder t)" "cmp x y = 0"
  | (inserted) t' as bs where "RB_INSERT cmp t x = Some (t', None)" "rb_ok t'"
      "rb_inorder t = as @ bs" "rb_inorder t' = as @ x # bs"
      "\<forall>a \<in> set as. cmp a x < 0" "\<forall>b \<in> set bs. cmp x b < 0"
  using RB_INSERT_total [OF assms(1), of cmp x]
proof (elim disjE exE conjE)
  fix t' p
  assume ins: "RB_INSERT cmp t x = Some (t', None)" "rb_ok t'"
    "rb_inorder t = path_left p @ path_right p" "rb_inorder t' = path_left p @ x # path_right p"
    and "rb_descend cmp x t [] = Inr p"
  then show thesis using descend_order [OF _ assms(2,3), of "[]" p] inserted [OF ins] by simp
qed (rule conflict)

lemma FIND_Some: "RB_FIND cmp t x = Some y \<Longrightarrow> y \<in> set (rb_inorder t) \<and> cmp x y = 0"
  by (induction cmp t x rule: RB_FIND.induct) (auto split: if_splits)

lemma FIND_None:
  assumes "RB_FIND cmp t x = None" "cmp_sorted cmp valid (rb_inorder t)" "valid x"
    "y \<in> set (rb_inorder t)"
  shows "cmp x y \<noteq> 0"
  using assms
proof (induction t)
  case (Node c l z r)
  note srt = sorted_Node [OF Node.prems(2)]
  show ?case
  proof (cases "cmp x z < 0")
    case True
    then have "\<forall>b \<in> set (rb_inorder r). cmp x b < 0" using srt Node.prems(3) by (auto intro: cmp_trans [of _ z])
    with True show ?thesis using Node srt by auto
  next
    case False
    with Node.prems(1) have pos: "cmp x z > 0" by (auto split: if_splits)
    then have "cmp z x < 0" using cmp_anti srt(3) Node.prems(3) by simp
    then have "\<forall>a \<in> set (rb_inorder l). cmp x a > 0"
      using srt Node.prems(3) by (auto simp: cmp_anti [symmetric] intro: cmp_trans [of _ z])
    with pos show ?thesis using Node srt by auto
  qed
qed auto

lemma sorted_unique:
  assumes "cmp_sorted cmp valid xs" "x \<in> set xs" "y \<in> set xs" "cmp x y = 0"
  shows "x = y"
  using assms by (induction xs) (auto simp: cmp_sorted_def cmp_anti [of y x])

lemma FIND_self:
  assumes "cmp_sorted cmp valid (rb_inorder t)" "x \<in> set (rb_inorder t)"
  shows "RB_FIND cmp t x = Some x"
proof (cases "RB_FIND cmp t x")
  case None
  moreover have "valid x" using assms by (simp add: cmp_sorted_def)
  ultimately show ?thesis using FIND_None [OF None assms(1) _ assms(2)] cmp_irrefl by simp
next
  case (Some y)
  then show ?thesis using FIND_Some [OF Some] sorted_unique [OF assms, of y] by simp
qed

lemma nfind_find:
  assumes "cmp_sorted cmp valid (rb_inorder t)" "valid x"
    "\<forall>y \<in> set (rb_inorder t). \<forall>z \<in> set (rb_inorder t). cmp x y = 0 \<longrightarrow> cmp x z = 0 \<longrightarrow> y = z"
  shows "rb_nfind cmp t x res =
    (case List.find (\<lambda>y. cmp x y \<le> 0) (rb_inorder t) of None \<Rightarrow> res | Some y \<Rightarrow> Some y)"
  using assms
proof (induction t arbitrary: res)
  case (Node c l z r)
  note srt = sorted_Node [OF Node.prems(1)]
  show ?case
  proof (cases "cmp x z < 0")
    case True
    then show ?thesis using Node srt by (simp add: find_append split: option.split)
  next
    case ge: False
    have "cmp x a > 0" if a: "a \<in> set (rb_inorder l)" for a
    proof (cases "cmp x z = 0")
      case True
      have "valid a" "cmp a z < 0" "a \<noteq> z" using a srt cmp_irrefl by force+
      moreover have "cmp x a \<noteq> 0" using Node.prems(3) a True \<open>a \<noteq> z\<close> by auto
      ultimately show ?thesis using cmp_trans [of x a z] srt(3) Node.prems(2) True by linarith
    next
      case False
      then have "cmp z x < 0" using ge cmp_anti [of z x] srt(3) Node.prems(2) by linarith
      then have "cmp a x < 0" using cmp_trans [of a z x] a srt Node.prems(2) by blast
      then show ?thesis using cmp_anti a srt Node.prems(2) by blast
    qed
    then have "List.find (\<lambda>y. cmp x y \<le> 0) (rb_inorder l) = None"
      by (auto simp: find_None_iff not_le)
    with ge Node srt show ?thesis by (auto simp: find_append)
  qed
qed auto

end

text \<open>
  Walking through a tree: \<open>iter\<close> gives the first node or the successor of a given one, as the
  \<^verbatim>\<open>_iter\<close> functions of the trees do, and \<open>collect\<close> is the loop that calls it until there is no
  further node.
\<close>

locale rb_iter = rb_compare cmp valid
  for cmp :: "'a \<Rightarrow> 'a \<Rightarrow> int" and valid :: "'a \<Rightarrow> bool" +
  fixes iter :: "'a rbt \<Rightarrow> 'a option \<Rightarrow> 'a option option"
    and collect :: "'a rbt \<Rightarrow> 'a option \<Rightarrow> 'a list option"
  assumes rb_iter_eq: "iter t start = (case start of
        None \<Rightarrow> Some (RB_MIN t)
      | Some x \<Rightarrow> (case RB_FIND cmp t x of None \<Rightarrow> Some None | Some _ \<Rightarrow> RB_NEXT t x))"
    and rb_collect_eq: "collect t node = do {
        node \<leftarrow> iter t node;
        case node of
          None \<Rightarrow> Some []
        | Some n \<Rightarrow> do { ns \<leftarrow> collect t (Some n); Some (n # ns) }
      }"
begin

lemma iter_first: "iter t None = Some (hd_opt (rb_inorder t))"
  by (simp add: rb_iter_eq RB_MIN_inorder)

lemma sorted_iter_next:
  assumes "cmp_sorted cmp valid (rb_inorder t)" "rb_inorder t = as @ x # bs"
  shows "iter t (Some x) = Some (hd_opt bs)"
  using FIND_self [OF assms(1), of x] RB_NEXT_inorder [OF sorted_distinct [OF assms(1)] assms(2)] assms(2)
  by (simp add: rb_iter_eq)

lemma sorted_collect_from:
  assumes "cmp_sorted cmp valid (rb_inorder t)" "rb_inorder t = as @ x # bs"
  shows "collect t (Some x) = Some bs"
  using assms(2)
proof (induction bs arbitrary: as x)
  case Nil
  then show ?case using sorted_iter_next [OF assms(1) Nil] by (subst rb_collect_eq) simp
next
  case (Cons b bs)
  then show ?case using sorted_iter_next [OF assms(1) Cons.prems] Cons.IH [of "as @ [x]" b]
    by (subst rb_collect_eq) simp
qed

lemma sorted_collect_all:
  assumes "cmp_sorted cmp valid (rb_inorder t)"
  shows "collect t None = Some (rb_inorder t)"
proof (cases "rb_inorder t")
  case Nil
  then show ?thesis using iter_first [of t] by (subst rb_collect_eq) simp
next
  case (Cons x xs)
  then show ?thesis using iter_first [of t] sorted_collect_from [OF assms, of "[]" x xs]
    by (subst rb_collect_eq) simp
qed

end

lemma inorder_map [simp]: "rb_inorder (map_rbt f t) = map f (rb_inorder t)"
  by (induction t) auto

lemma map_rbt_simps [simp]:
  "rb_is_red (map_rbt f t) = rb_is_red t" "rb_bh (map_rbt f t) = rb_bh t"
  by (cases t; simp) (induction t; simp)

lemma rb_ok_map [simp]: "rb_ok (map_rbt f t) = rb_ok t"
proof -
  have "rb_invc (map_rbt f t) = rb_invc t" "rb_invh (map_rbt f t) = rb_invh t"
    by (induction t) auto
  then show ?thesis by (simp add: rb_ok_def)
qed

lemma rb_ok_assign [simp]: "rb_ok (rb_assign t old new) = rb_ok t"
  by (simp add: rb_assign_def)

lemma inorder_assign:
  assumes "rb_inorder t = as @ old # bs" "distinct (rb_inorder t)"
  shows "rb_inorder (rb_assign t old new) = as @ new # bs"
  using assms by (auto simp: rb_assign_def intro!: map_idI)

text \<open>
  A tree that is ordered by a key represents a finite map from keys to elements.
\<close>

locale rb_key_map =
  fixes key :: "'a \<Rightarrow> 'k :: linorder" and cmp :: "'a \<Rightarrow> 'a \<Rightarrow> int"
  assumes cmp_key: "cmp x y = (if key x > key y then 1 else if key x < key y then - 1 else 0)"
begin

sublocale rb_compare cmp "\<lambda>_. True"
  by unfold_locales (auto simp: cmp_key split: if_splits)

definition map_ok :: "'a rbt \<Rightarrow> bool" where
  "map_ok t \<longleftrightarrow> rb_ok t \<and> sorted_wrt (<) (map key (rb_inorder t))"

definition key_map :: "'a rbt \<Rightarrow> 'k \<Rightarrow> 'a option" where
  "key_map t = map_of (map (\<lambda>x. (key x, x)) (rb_inorder t))"

lemma cmp_sorted_key: "cmp_sorted cmp (\<lambda>_. True) xs \<longleftrightarrow> sorted_wrt (<) (map key xs)"
proof -
  have "(\<lambda>x y. cmp x y < 0) = (\<lambda>x y. key x < key y)" by (auto simp: cmp_key fun_eq_iff)
  then show ?thesis by (simp add: cmp_sorted_def sorted_wrt_map)
qed

lemma map_okD:
  assumes "map_ok t"
  shows "rb_ok t" "cmp_sorted cmp (\<lambda>_. True) (rb_inorder t)" "distinct (map key (rb_inorder t))"
    "distinct (rb_inorder t)"
  using assms by (auto simp: map_ok_def cmp_sorted_key strict_sorted_iff distinct_map)

lemma key_map_Some:
  assumes "map_ok t"
  shows "key_map t k = Some x \<longleftrightarrow> x \<in> set (rb_inorder t) \<and> key x = k"
  using map_okD(3) [OF assms] by (auto simp: key_map_def map_of_eq_Some_iff comp_def)

lemma key_map_None: "key_map t k = None \<longleftrightarrow> (\<forall>x \<in> set (rb_inorder t). key x \<noteq> k)"
  by (auto simp: key_map_def map_of_eq_None_iff image_iff)

lemma map_ok_Null [simp]: "map_ok Null" "key_map Null = Map.empty"
  by (simp_all add: map_ok_def key_map_def rb_ok_def)

lemma find_key:
  assumes "map_ok t"
  shows "RB_FIND cmp t x = key_map t (key x)"
proof (cases "RB_FIND cmp t x")
  case None
  then show ?thesis using FIND_None [OF None map_okD(2) [OF assms]]
    by (force simp: key_map_None cmp_key eq_commute [of None])
next
  case (Some y)
  then show ?thesis using FIND_Some [OF Some] key_map_Some [OF assms, of "key x" y] by (auto simp: cmp_key split: if_splits)
qed

lemma insert_key:
  assumes "map_ok t" "key_map t (key x) = None"
  obtains t' where "RB_INSERT cmp t x = Some (t', None)" "map_ok t'" "key_map t' = (key_map t)(key x \<mapsto> x)"
proof (rule insert_cases [OF map_okD(1,2) [OF assms(1)], of x])
  fix y assume "y \<in> set (rb_inorder t)" "cmp x y = 0"
  then show thesis using assms(2) by (auto simp: cmp_key key_map_None split: if_splits)
next
  fix t' as bs
  assume inserted: "RB_INSERT cmp t x = Some (t', None)" "rb_ok t'" "rb_inorder t = as @ bs" "rb_inorder t' = as @ x # bs"
    and less: "\<forall>a \<in> set as. cmp a x < 0" "\<forall>b \<in> set bs. cmp x b < 0"
  have as: "\<forall>a \<in> set as. key a < key x" "\<forall>b \<in> set bs. key x < key b"
    using less by (auto simp: cmp_key split: if_splits)
  have "map_ok t'" using assms(1) inserted(2-4) as by (auto simp: map_ok_def sorted_wrt_append)
  moreover have "key_map t' = (key_map t)(key x \<mapsto> x)"
  proof
    fix k
    have "key_map t' k = Some y \<longleftrightarrow> ((key_map t)(key x \<mapsto> x)) k = Some y" for y
      using key_map_Some [OF \<open>map_ok t'\<close>, of k y] key_map_Some [OF assms(1), of k y] inserted(3,4) as by auto
    then show "key_map t' k = ((key_map t)(key x \<mapsto> x)) k" by (metis option.exhaust)
  qed
  ultimately show thesis using that inserted(1) by blast
qed simp

lemma remove_key:
  assumes "map_ok t" "key_map t k = Some x"
  obtains t' where "RB_REMOVE t x = Some t'" "map_ok t'" "key_map t' = (key_map t)(k := None)"
proof -
  have x: "x \<in> set (rb_inorder t)" "key x = k" using assms key_map_Some by auto
  then obtain as bs where inord: "rb_inorder t = as @ x # bs" by (auto simp: in_set_conv_decomp)
  obtain t' where t': "RB_REMOVE t x = Some t'" "rb_ok t'" "rb_inorder t' = as @ bs"
    using RB_REMOVE_spec [OF map_okD(1) [OF assms(1)] inord map_okD(4) [OF assms(1)]] by blast
  have ok: "map_ok t'" using assms(1) t' inord by (auto simp: map_ok_def sorted_wrt_append)
  have d: "\<forall>y \<in> set as \<union> set bs. key y \<noteq> k" using map_okD(3) [OF assms(1)] inord x(2) by (fastforce simp: image_iff)
  have "key_map t' = (key_map t)(k := None)"
  proof
    fix k'
    have "key_map t' k' = Some y \<longleftrightarrow> ((key_map t)(k := None)) k' = Some y" for y
      using key_map_Some [OF ok, of k' y] key_map_Some [OF assms(1), of k' y] t'(3) inord d x(2) by auto
    then show "key_map t' k' = ((key_map t)(k := None)) k'" by (metis option.exhaust)
  qed
  with ok t'(1) that show thesis by blast
qed

lemma assign_key:
  assumes "map_ok t" "key_map t k = Some x" "key y = k"
  shows "map_ok (rb_assign t x y)" "key_map (rb_assign t x y) = (key_map t)(k \<mapsto> y)"
proof -
  have x: "x \<in> set (rb_inorder t)" "key x = k" using assms key_map_Some by auto
  then obtain as bs where inord: "rb_inorder t = as @ x # bs" by (auto simp: in_set_conv_decomp)
  have inord': "rb_inorder (rb_assign t x y) = as @ y # bs" by (rule inorder_assign [OF inord map_okD(4) [OF assms(1)]])
  show ok: "map_ok (rb_assign t x y)" using assms(1,3) x(2) inord by (simp add: map_ok_def inord' sorted_wrt_append)
  have d: "\<forall>y \<in> set as \<union> set bs. key y \<noteq> k" using map_okD(3) [OF assms(1)] inord x(2) by (fastforce simp: image_iff)
  show "key_map (rb_assign t x y) = (key_map t)(k \<mapsto> y)"
  proof
    fix k'
    have "key_map (rb_assign t x y) k' = Some z \<longleftrightarrow> ((key_map t)(k \<mapsto> y)) k' = Some z" for z
      using key_map_Some [OF ok, of k' z] key_map_Some [OF assms(1), of k' z] inord inord' d x(2) assms(3) by auto
    then show "key_map (rb_assign t x y) k' = ((key_map t)(k \<mapsto> y)) k'" by (metis option.exhaust)
  qed
qed

end

text \<open>
  (C29) Inserting into a balanced tree always returns, whatever the comparison function is: no
  null parent, grandparent or child is dereferenced during the rebalancing, and the resulting tree
  is balanced again. Either an element that compares equal was found and the tree is unchanged, or
  the new element was linked at one position of the in-order sequence and nothing else moved.
\<close>

theorem RB_INSERT_balanced:
  assumes "rb_ok t"
  shows "\<exists>t' conflict. RB_INSERT cmp t x = Some (t', conflict) \<and> rb_ok t' \<and>
     (case conflict of
        Some y \<Rightarrow> t' = t \<and> y \<in> set (rb_inorder t) \<and> cmp x y = 0
      | None \<Rightarrow> \<exists>as bs. rb_inorder t = as @ bs \<and> rb_inorder t' = as @ x # bs)"
  using RB_INSERT_total [OF assms, of cmp x] assms by (auto, blast)

theorem RB_INSERT_balanced_witness:
  "rb_ok (Node RB_BLACK (Node RB_RED Null 1 Null) (2::int) Null) \<and>
   (\<exists>t' conflict. RB_INSERT (-) (Node RB_BLACK (Node RB_RED Null 1 Null) (2::int) Null) 0 =
        Some (t', conflict) \<and> rb_ok t')"
proof -
  have ok: "rb_ok (Node RB_BLACK (Node RB_RED Null 1 Null) (2::int) Null)"
    by (simp add: rb_ok_def)
  show ?thesis using ok RB_INSERT_balanced [OF ok, of "(-)" 0] by blast
qed

text \<open>
  (C30) Removing a node of a balanced tree always returns, no null sibling is dereferenced during
  the rebalancing, the resulting tree is balanced again, and its in-order sequence is the old one
  without that node.
\<close>

theorem RB_REMOVE_balanced:
  assumes "rb_ok t" and "distinct (rb_inorder t)" and "x \<in> set (rb_inorder t)"
  shows "\<exists>t'. RB_REMOVE t x = Some t' \<and> rb_ok t' \<and> rb_inorder t' = remove1 x (rb_inorder t)"
proof -
  obtain as bs where split: "rb_inorder t = as @ x # bs" using assms(3) split_list by metis
  then have "remove1 x (rb_inorder t) = as @ bs"
    using assms(2) by (simp add: remove1_append)
  with RB_REMOVE_spec [OF assms(1) split assms(2)] show ?thesis by simp
qed

theorem RB_REMOVE_balanced_witness:
  "\<exists>t'. RB_REMOVE (Node RB_BLACK (Node RB_BLACK Null 1 Null) (2::int) (Node RB_BLACK Null 3 Null)) 1 =
      Some t' \<and> rb_ok t' \<and> rb_inorder t' = [2, 3]"
proof -
  let ?t = "Node RB_BLACK (Node RB_BLACK Null 1 Null) (2::int) (Node RB_BLACK Null 3 Null)"
  have "rb_ok ?t" "distinct (rb_inorder ?t)" "1 \<in> set (rb_inorder ?t)"
    by (simp_all add: rb_ok_def)
  from RB_REMOVE_balanced [OF this] show ?thesis by simp
qed

end
