(* ===== verification/Intervals.thy ===== *)
theory Intervals
  imports Rb_Tree
begin

text \<open>
  Sorted sequences of disjoint closed intervals of 64-bit offsets, the contents of a segment tree
  and of an extent tree. \<open>lo\<close> and \<open>hi\<close> are the first and the last offset of a node, \<open>val n b\<close> is
  what the node \<open>n\<close> says about the byte at offset \<open>b\<close>.
\<close>

section \<open>Sequences of disjoint intervals\<close>

definition ivl_ok :: "('n \<Rightarrow> u64) \<Rightarrow> ('n \<Rightarrow> u64) \<Rightarrow> 'n list \<Rightarrow> bool" where
  "ivl_ok lo hi xs = (sorted_wrt (\<lambda>x y. hi x < lo y) xs \<and> (\<forall>x \<in> set xs. lo x \<le> hi x))"

definition ivl_lookup ::
  "('n \<Rightarrow> u64) \<Rightarrow> ('n \<Rightarrow> u64) \<Rightarrow> ('n \<Rightarrow> u64 \<Rightarrow> 'v) \<Rightarrow> 'n list \<Rightarrow> u64 \<Rightarrow> 'v option" where
  "ivl_lookup lo hi val xs b =
     map_option (\<lambda>n. val n b) (List.find (\<lambda>n. lo n \<le> b \<and> b \<le> hi n) xs)"

text \<open>What is left of the overlap with \<open>[s, e]\<close>; it decreases while overlapping nodes are split.\<close>

definition ivl_overlaps :: "('n \<Rightarrow> u64) \<Rightarrow> ('n \<Rightarrow> u64) \<Rightarrow> u64 \<Rightarrow> u64 \<Rightarrow> 'n \<Rightarrow> bool" where
  "ivl_overlaps lo hi s e n = (lo n \<le> e \<and> s \<le> hi n)"

definition ivl_measure :: "('n \<Rightarrow> u64) \<Rightarrow> ('n \<Rightarrow> u64) \<Rightarrow> u64 \<Rightarrow> u64 \<Rightarrow> 'n list \<Rightarrow> nat" where
  "ivl_measure lo hi s e xs =
     sum_list (map (\<lambda>n. if ivl_overlaps lo hi s e n then (if lo n < s then 2 else 1) else 0) xs)"

text \<open>
  \<open>ps\<close> are the pieces that may replace the node \<open>c\<close> when \<open>[s, e]\<close> is overwritten: they lie inside
  \<open>c\<close>, they say the same about every byte of \<open>c\<close> outside \<open>[s, e]\<close>, they say nothing new, and
  less of them overlaps \<open>[s, e]\<close>.
\<close>

definition split_ok ::
  "('n \<Rightarrow> u64) \<Rightarrow> ('n \<Rightarrow> u64) \<Rightarrow> ('n \<Rightarrow> u64 \<Rightarrow> 'v) \<Rightarrow> u64 \<Rightarrow> u64 \<Rightarrow> 'n \<Rightarrow> 'n list \<Rightarrow> bool" where
  "split_ok lo hi val s e c ps =
     (ivl_ok lo hi ps \<and> (\<forall>p \<in> set ps. lo c \<le> lo p \<and> hi p \<le> hi c) \<and>
      (\<forall>b. lo c \<le> b \<and> b \<le> hi c \<longrightarrow> \<not> (s \<le> b \<and> b \<le> e) \<longrightarrow>
         ivl_lookup lo hi val ps b = Some (val c b)) \<and>
      (\<forall>b. ivl_lookup lo hi val ps b \<in> {None, Some (val c b)}) \<and>
      ivl_measure lo hi s e ps < ivl_measure lo hi s e [c])"

lemma ivl_ok_append:
  "ivl_ok lo hi (as @ bs) \<longleftrightarrow>
   ivl_ok lo hi as \<and> ivl_ok lo hi bs \<and> (\<forall>a \<in> set as. \<forall>b \<in> set bs. hi a < lo b)"
  by (auto simp: ivl_ok_def sorted_wrt_append)

lemma ivl_ok_Cons:
  "ivl_ok lo hi (x # xs) \<longleftrightarrow> ivl_ok lo hi xs \<and> lo x \<le> hi x \<and> (\<forall>b \<in> set xs. hi x < lo b)"
  by (auto simp: ivl_ok_def)

lemma ivl_ok_Nil [simp]: "ivl_ok lo hi []"
  by (simp add: ivl_ok_def)

lemmas ivl_ok_simps = ivl_ok_append ivl_ok_Cons

lemma ivl_ok_distinct: "ivl_ok lo hi xs \<Longrightarrow> distinct xs"
  by (induction xs) (auto simp: ivl_ok_Cons)

lemma ivl_ok_nonempty: "ivl_ok lo hi xs \<Longrightarrow> x \<in> set xs \<Longrightarrow> lo x \<le> hi x"
  by (auto simp: ivl_ok_def)

lemma ivl_ok_unique:
  assumes "ivl_ok lo hi xs" "ivl_ok lo hi ys" "set xs = set ys"
  shows "xs = ys"
  using assms
proof (induction xs arbitrary: ys)
  case (Cons x xs)
  then obtain y ys' where ys: "ys = y # ys'" by (cases ys) auto
  have "x = y"
  proof (rule ccontr)
    assume "x \<noteq> y"
    then have "x \<in> set ys'" "y \<in> set xs" using Cons.prems(3) ys by auto
    then have "hi y < lo x" "hi x < lo y" "lo x \<le> hi x" "lo y \<le> hi y"
      using Cons.prems(1,2) ys by (auto simp: ivl_ok_Cons)
    then show False by order
  qed
  then have "set xs = set ys'"
    using Cons.prems ys ivl_ok_distinct [OF Cons.prems(1)] ivl_ok_distinct [OF Cons.prems(2)] by auto
  with Cons ys \<open>x = y\<close> show ?case by (auto simp: ivl_ok_Cons)
qed auto

lemma ivl_ok_point_unique:
  assumes "ivl_ok lo hi xs" "y \<in> set xs" "z \<in> set xs"
    "lo y \<le> b" "b \<le> hi y" "lo z \<le> b" "b \<le> hi z"
  shows "y = z"
  using assms by (induction xs) (auto simp: ivl_ok_Cons dest: order.strict_trans1 order.strict_trans2)

lemma ivl_lookup_simps [simp]:
  "ivl_lookup lo hi val [] b = None"
  "ivl_lookup lo hi val (x # xs) b =
     (if lo x \<le> b \<and> b \<le> hi x then Some (val x b) else ivl_lookup lo hi val xs b)"
  by (auto simp: ivl_lookup_def)

lemma ivl_lookup_append:
  "ivl_lookup lo hi val (as @ bs) b =
     (case ivl_lookup lo hi val as b of None \<Rightarrow> ivl_lookup lo hi val bs b | Some v \<Rightarrow> Some v)"
  by (induction as) auto

lemma ivl_lookup_None:
  "ivl_lookup lo hi val xs b = None \<longleftrightarrow> (\<forall>n \<in> set xs. \<not> (lo n \<le> b \<and> b \<le> hi n))"
  by (induction xs) auto

lemma ivl_lookup_SomeD:
  "ivl_lookup lo hi val xs b = Some v \<Longrightarrow> \<exists>n \<in> set xs. lo n \<le> b \<and> b \<le> hi n \<and> v = val n b"
  by (induction xs) (auto split: if_splits)

lemma ivl_lookup_in:
  assumes "ivl_ok lo hi xs" "n \<in> set xs" "lo n \<le> b" "b \<le> hi n"
  shows "ivl_lookup lo hi val xs b = Some (val n b)"
  using assms by (induction xs) (auto simp: ivl_ok_Cons dest: order.strict_trans1 order.strict_trans2)

lemma ivl_measure_simps [simp]:
  "ivl_measure lo hi s e [] = 0"
  "ivl_measure lo hi s e (as @ bs) = ivl_measure lo hi s e as + ivl_measure lo hi s e bs"
  "ivl_measure lo hi s e (x # xs) =
     (if ivl_overlaps lo hi s e x then (if lo x < s then 2 else 1) else 0) + ivl_measure lo hi s e xs"
  by (auto simp: ivl_measure_def)

lemma ivl_replace_ok:
  assumes "ivl_ok lo hi (as @ c # bs)" "ivl_ok lo hi ps" "\<forall>p \<in> set ps. lo c \<le> lo p \<and> hi p \<le> hi c"
  shows "ivl_ok lo hi (as @ ps @ bs)"
proof -
  have "hi a < lo p" if "a \<in> set as" "p \<in> set ps" for a p
    using that assms by (auto simp: ivl_ok_simps dest!: bspec elim: order.strict_trans2)
  moreover have "hi p < lo b" if "p \<in> set ps" "b \<in> set bs" for p b
    using that assms by (auto simp: ivl_ok_simps dest!: bspec elim: order.strict_trans1)
  ultimately show ?thesis using assms by (auto simp: ivl_ok_simps)
qed

lemma ivl_replace_lookup:
  assumes "ivl_ok lo hi (as @ c # bs)" "ivl_ok lo hi (as @ ps @ bs)"
    "\<forall>p \<in> set ps. lo c \<le> lo p \<and> hi p \<le> hi c"
  shows "ivl_lookup lo hi val (as @ ps @ bs) b =
     (if lo c \<le> b \<and> b \<le> hi c then ivl_lookup lo hi val ps b else ivl_lookup lo hi val (as @ c # bs) b)"
proof (cases "lo c \<le> b \<and> b \<le> hi c")
  case True
  have "ivl_lookup lo hi val as b = None" "ivl_lookup lo hi val bs b = None"
    using True assms(1) by (auto simp: ivl_lookup_None ivl_ok_simps)
  with True show ?thesis by (auto simp: ivl_lookup_append split: option.split)
next
  case False
  then have "ivl_lookup lo hi val ps b = None"
    using assms(3) by (auto simp: ivl_lookup_None)
  with False show ?thesis by (auto simp: ivl_lookup_append split: option.split)
qed

lemma split_step:
  assumes ok: "ivl_ok lo hi (as @ c # bs)" and sp: "split_ok lo hi val s e c ps"
  shows "ivl_ok lo hi (as @ ps @ bs)"
    and "\<not> (s \<le> b \<and> b \<le> e) \<Longrightarrow> ivl_lookup lo hi val (as @ ps @ bs) b = ivl_lookup lo hi val (as @ c # bs) b"
    and "ivl_lookup lo hi val (as @ ps @ bs) b = Some v \<Longrightarrow> ivl_lookup lo hi val (as @ c # bs) b = Some v"
    and "ivl_measure lo hi s e (as @ ps @ bs) < ivl_measure lo hi s e (as @ c # bs)"
proof -
  show ok': "ivl_ok lo hi (as @ ps @ bs)"
    using sp unfolding split_ok_def by (intro ivl_replace_ok [OF ok]) blast+
  have lk: "ivl_lookup lo hi val (as @ ps @ bs) b =
     (if lo c \<le> b \<and> b \<le> hi c then ivl_lookup lo hi val ps b else ivl_lookup lo hi val (as @ c # bs) b)"
    by (rule ivl_replace_lookup [OF ok ok']) (use sp in \<open>unfold split_ok_def, blast\<close>)
  have c: "lo c \<le> b \<and> b \<le> hi c \<Longrightarrow> ivl_lookup lo hi val (as @ c # bs) b = Some (val c b)"
    by (rule ivl_lookup_in [OF ok]) auto
  have out: "lo c \<le> b \<and> b \<le> hi c \<Longrightarrow> \<not> (s \<le> b \<and> b \<le> e) \<Longrightarrow> ivl_lookup lo hi val ps b = Some (val c b)"
    and "ivl_lookup lo hi val ps b \<in> {None, Some (val c b)}"
    using sp unfolding split_ok_def by blast+
  then have old: "ivl_lookup lo hi val ps b = Some v \<Longrightarrow> v = val c b" by auto
  show "\<not> (s \<le> b \<and> b \<le> e) \<Longrightarrow> ivl_lookup lo hi val (as @ ps @ bs) b = ivl_lookup lo hi val (as @ c # bs) b"
    using out c lk by (cases "lo c \<le> b \<and> b \<le> hi c") simp_all
  show "ivl_lookup lo hi val (as @ ps @ bs) b = Some v \<Longrightarrow> ivl_lookup lo hi val (as @ c # bs) b = Some v"
    using old c lk by (cases "lo c \<le> b \<and> b \<le> hi c") simp_all
  show "ivl_measure lo hi s e (as @ ps @ bs) < ivl_measure lo hi s e (as @ c # bs)"
    using sp unfolding split_ok_def by simp
qed

lemma ivl_insert_lookup:
  assumes "ivl_ok lo hi (as @ x # bs)"
  shows "ivl_lookup lo hi val (as @ x # bs) b =
     (if lo x \<le> b \<and> b \<le> hi x then Some (val x b) else ivl_lookup lo hi val (as @ bs) b)"
proof (cases "lo x \<le> b \<and> b \<le> hi x")
  case True
  then show ?thesis using ivl_lookup_in [OF assms, of x b val] by simp
next
  case False
  then show ?thesis by (auto simp: ivl_lookup_append split: option.split)
qed

text \<open>Two neighbours that touch become one node.\<close>

lemma ivl_merge:
  assumes ok: "ivl_ok lo hi (as @ p # t # bs)"
    and m: "lo m = lo p" "hi m = hi t" "hi p + 1 = lo t"
    and vp: "\<And>b. lo p \<le> b \<Longrightarrow> b \<le> hi p \<Longrightarrow> val m b = val p b"
    and vt: "\<And>b. lo t \<le> b \<Longrightarrow> b \<le> hi t \<Longrightarrow> val m b = val t b"
  shows "ivl_ok lo hi (as @ m # bs) \<and>
     ivl_lookup lo hi val (as @ m # bs) b = ivl_lookup lo hi val (as @ p # t # bs) b"
proof
  have lt: "lo p \<le> hi p" "hi p < lo t" "lo t \<le> hi t" using ok by (auto simp: ivl_ok_simps)
  show ok': "ivl_ok lo hi (as @ m # bs)"
    using ok m lt by (auto simp: ivl_ok_simps)
  have cov: "lo m \<le> b \<and> b \<le> hi m \<longleftrightarrow> (lo p \<le> b \<and> b \<le> hi p) \<or> (lo t \<le> b \<and> b \<le> hi t)"
    using m lt by (auto simp: not_le) (metis inc_le linorder_not_le)
  show "ivl_lookup lo hi val (as @ m # bs) b = ivl_lookup lo hi val (as @ p # t # bs) b"
    using cov vp [of b] vt [of b]
    by (auto simp: ivl_lookup_append split: option.split)
qed

text \<open>The three ways in which an overlapping node is replaced.\<close>

lemma split_ok_none:
  assumes "s \<le> lo c" "hi c \<le> e" "lo c \<le> hi c"
  shows "split_ok lo hi val s e c []"
  using assms by (auto simp: split_ok_def ivl_overlaps_def)

lemma split_ok_tail:
  assumes "s \<le> lo c" "e < hi c" "lo c \<le> e" "lo p = e + 1" "hi p = hi c" "\<And>b. val p b = val c b"
  shows "split_ok lo hi val s e c [p]"
  using assms u64_less_succ [of e "hi c"]
  by (auto simp: split_ok_def ivl_overlaps_def ivl_ok_Cons u64_succ_le)

lemma split_ok_front:
  assumes "lo c < s" "s \<le> hi c" "s \<le> e" "lo p = lo c" "hi p = s - 1" "lo r = s" "hi r = hi c"
    "\<And>b. val p b = val c b" "\<And>b. val r b = val c b"
  shows "split_ok lo hi val s e c [p, r]"
  using assms u64_pred_less [of "lo c" s]
  by (auto simp: split_ok_def ivl_overlaps_def ivl_ok_Cons u64_le_pred)

section \<open>Comparison by overlap\<close>

text \<open>
  The comparison functions of the two interval trees: every overlap counts as equal. They fit the
  red-black trees for nodes that are not empty.
\<close>

locale interval_compare =
  fixes lo hi :: "'n \<Rightarrow> u64" and cmp :: "'n \<Rightarrow> 'n \<Rightarrow> int"
  assumes cmp_overlap: "cmp x y = (if lo x > hi y then 1 else if hi x < lo y then - 1 else 0)"
begin

lemma cmp_less: "lo x \<le> hi x \<Longrightarrow> lo y \<le> hi y \<Longrightarrow> cmp x y < 0 \<longleftrightarrow> hi x < lo y"
  by (auto simp: cmp_overlap)

lemma cmp_eq: "lo x \<le> hi x \<Longrightarrow> lo y \<le> hi y \<Longrightarrow> cmp x y = 0 \<longleftrightarrow> ivl_overlaps lo hi (lo x) (hi x) y"
  by (auto simp: cmp_overlap ivl_overlaps_def)

sublocale rb_compare cmp "\<lambda>x. lo x \<le> hi x"
  by unfold_locales (auto simp: cmp_overlap split: if_splits)

lemma sorted_ivl_ok: "cmp_sorted cmp (\<lambda>x. lo x \<le> hi x) xs \<longleftrightarrow> ivl_ok lo hi xs"
  unfolding cmp_sorted_def by (induction xs) (auto simp: ivl_ok_Cons cmp_less)

lemma interval_insert:
  assumes "rb_ok t" "ivl_ok lo hi (rb_inorder t)" "lo x \<le> hi x"
  obtains (overlap) as y bs where "RB_INSERT cmp t x = Some (t, Some y)" "rb_inorder t = as @ y # bs"
      "ivl_overlaps lo hi (lo x) (hi x) y"
  | (inserted) t' as bs where "RB_INSERT cmp t x = Some (t', None)" "rb_ok t'"
      "rb_inorder t = as @ bs" "rb_inorder t' = as @ x # bs" "ivl_ok lo hi (as @ x # bs)"
proof (rule insert_cases [of t x])
  show "cmp_sorted cmp (\<lambda>x. lo x \<le> hi x) (rb_inorder t)" using assms(2) by (simp add: sorted_ivl_ok)
next
  fix y assume y: "RB_INSERT cmp t x = Some (t, Some y)" "y \<in> set (rb_inorder t)" "cmp x y = 0"
  then obtain as bs where "rb_inorder t = as @ y # bs" using split_list by metis
  moreover have "ivl_overlaps lo hi (lo x) (hi x) y"
    using y cmp_eq [of x y] assms(3) ivl_ok_nonempty [OF assms(2)] by simp
  ultimately show thesis using overlap y(1) by blast
next
  fix t' as bs
  assume *: "RB_INSERT cmp t x = Some (t', None)" "rb_ok t'" "rb_inorder t = as @ bs"
    "rb_inorder t' = as @ x # bs" "\<forall>a \<in> set as. cmp a x < 0" "\<forall>b \<in> set bs. cmp x b < 0"
  have "\<forall>a \<in> set (as @ bs). lo a \<le> hi a" using assms(2) *(3) ivl_ok_nonempty by fastforce
  then have "ivl_ok lo hi (as @ x # bs)"
    using * assms(2,3) by (auto simp: ivl_ok_simps cmp_less)
  with inserted * show thesis by blast
qed (use assms in auto)

lemma interval_insert_free:
  assumes "rb_ok t" "ivl_ok lo hi (rb_inorder t)" "rb_inorder t = as @ bs" "ivl_ok lo hi (as @ x # bs)"
  shows "\<exists>t'. RB_INSERT cmp t x = Some (t', None) \<and> rb_ok t' \<and> rb_inorder t' = as @ x # bs"
proof -
  have x: "lo x \<le> hi x" using assms(4) by (simp add: ivl_ok_simps)
  show ?thesis
    using assms(1,2) x
  proof (cases rule: interval_insert)
    case (overlap as' y bs')
    then have "y \<in> set as \<union> set bs" using assms(3) by (metis in_set_conv_decomp set_append)
    with overlap(3) assms(4) show ?thesis by (auto simp: ivl_overlaps_def ivl_ok_simps)
  next
    case (inserted t' as' bs')
    have "set as' \<union> set bs' = set as \<union> set bs" using inserted(3) assms(3) by (metis set_append)
    then have "set (as' @ x # bs') = set (as @ x # bs)" by auto
    moreover have "\<And>xs ys. ivl_ok lo hi xs \<Longrightarrow> ivl_ok lo hi ys \<Longrightarrow> set xs = set ys \<Longrightarrow> xs = ys"
      by (rule ivl_ok_unique)
    ultimately have "as' @ x # bs' = as @ x # bs" using inserted(5) assms(4) by blast
    with inserted show ?thesis by auto
  qed
qed

lemma interval_nfind:
  assumes "ivl_ok lo hi (rb_inorder t)" "lo x = s" "hi x = s"
  shows "RB_NFIND cmp t x = List.find (\<lambda>y. s \<le> hi y) (rb_inorder t)"
proof -
  have uniq: "\<forall>y \<in> set (rb_inorder t). \<forall>z \<in> set (rb_inorder t). cmp x y = 0 \<longrightarrow> cmp x z = 0 \<longrightarrow> y = z"
    using assms ivl_ok_point_unique [OF assms(1), of _ _ s]
    by (auto simp: cmp_overlap split: if_splits)
  have "RB_NFIND cmp t x = List.find (\<lambda>y. cmp x y \<le> 0) (rb_inorder t)"
    unfolding RB_NFIND_def using nfind_find [OF _ _ uniq, of None] assms
    by (auto simp: sorted_ivl_ok split: option.splits)
  also have "\<dots> = List.find (\<lambda>y. s \<le> hi y) (rb_inorder t)"
    using assms ivl_ok_nonempty [OF assms(1)]
    by (intro find_cong) (auto simp: cmp_overlap split: if_splits)
  finally show ?thesis .
qed

lemma interval_find:
  assumes "ivl_ok lo hi (rb_inorder t)" "x \<in> set (rb_inorder t)"
  shows "RB_FIND cmp t x = Some x"
  using assms by (intro FIND_self) (simp_all add: sorted_ivl_ok)

end

end
