(* ===== verification/Interval_Tree.thy ===== *)
theory Interval_Tree
  imports Intervals
begin

text \<open>
  The algorithm shared by the segment tree of the client (\<^verbatim>\<open>common/src/seg_tree.c\<close>) and the extent
  tree of the server (\<^verbatim>\<open>server/src/extent_tree.c\<close>): a red-black tree of disjoint intervals in which
  a new interval overwrites what it overlaps. The two components define their own operations; the
  locale \<open>interval_tree\<close> states the equations and the laws of the node type on which the correctness
  of the algorithm rests, and the lemmas on the loops are proved here once for both.
\<close>

section \<open>Overwriting\<close>

definition overwrite :: "u64 \<Rightarrow> u64 \<Rightarrow> (u64 \<Rightarrow> 'v) \<Rightarrow> (u64 \<Rightarrow> 'v option) \<Rightarrow> u64 \<Rightarrow> 'v option" where
  "overwrite s e new f b = (if s \<le> b \<and> b \<le> e then Some (new b) else f b)"

definition erase :: "u64 \<Rightarrow> u64 \<Rightarrow> (u64 \<Rightarrow> 'v option) \<Rightarrow> u64 \<Rightarrow> 'v option" where
  "erase s e f b = (if s \<le> b \<and> b \<le> e then None else f b)"

text \<open>The bytes of \<open>f\<close> outside \<open>[s, e]\<close> are kept, those inside are kept or lost.\<close>

definition partly_erased :: "u64 \<Rightarrow> u64 \<Rightarrow> (u64 \<Rightarrow> 'v option) \<Rightarrow> (u64 \<Rightarrow> 'v option) \<Rightarrow> bool" where
  "partly_erased s e f g \<longleftrightarrow> (\<forall>b. g b = f b \<or> (s \<le> b \<and> b \<le> e \<and> g b = None))"

lemma partly_erased_refl [simp]: "partly_erased s e f f"
  by (simp add: partly_erased_def)

lemma partly_erased_trans: "partly_erased s e f g \<Longrightarrow> partly_erased s e g h \<Longrightarrow> partly_erased s e f h"
  unfolding partly_erased_def by metis

lemma partly_erased_dom: "partly_erased s e f g \<Longrightarrow> g b \<noteq> None \<Longrightarrow> f b \<noteq> None"
  by (metis partly_erased_def)

lemma overwrite_erased: "partly_erased s e f g \<Longrightarrow> overwrite s e new g = overwrite s e new f"
  unfolding partly_erased_def overwrite_def by (intro ext) metis

lemma overwrite_dom:
  "overwrite s e new f b \<noteq> None \<Longrightarrow> f b \<noteq> None \<or> (s \<le> b \<and> b \<le> e)"
  by (auto simp: overwrite_def split: if_splits)

section \<open>Trees of disjoint intervals\<close>

definition itree_ok :: "('n \<Rightarrow> u64) \<Rightarrow> ('n \<Rightarrow> u64) \<Rightarrow> ('n \<Rightarrow> bool) \<Rightarrow> 'n rbt \<Rightarrow> u64 \<Rightarrow> bool" where
  "itree_ok lo hi good t k \<longleftrightarrow>
     rb_ok t \<and> ivl_ok lo hi (rb_inorder t) \<and> k = of_nat (length (rb_inorder t)) \<and>
     (\<forall>n \<in> set (rb_inorder t). good n)"

abbreviation tree_lookup ::
  "('n \<Rightarrow> u64) \<Rightarrow> ('n \<Rightarrow> u64) \<Rightarrow> ('n \<Rightarrow> u64 \<Rightarrow> 'v) \<Rightarrow> 'n rbt \<Rightarrow> u64 \<Rightarrow> 'v option" where
  "tree_lookup lo hi val t \<equiv> ivl_lookup lo hi val (rb_inorder t)"

lemma itree_okD:
  assumes "itree_ok lo hi good t k"
  shows "rb_ok t" "ivl_ok lo hi (rb_inorder t)" "k = of_nat (length (rb_inorder t))"
    "\<forall>n \<in> set (rb_inorder t). good n" "distinct (rb_inorder t)"
  using assms ivl_ok_distinct unfolding itree_ok_def by blast+

lemma rb_ok_Null [simp]: "rb_ok Null"
  by (simp add: rb_ok_def)

lemma itree_ok_empty [simp]: "itree_ok lo hi good Null 0"
  by (simp add: itree_ok_def rb_ok_def)

text \<open>The pieces of a split node are inserted one after the other; the count follows.\<close>

fun rb_insert_all :: "('n \<Rightarrow> 'n \<Rightarrow> int) \<Rightarrow> 'n list \<Rightarrow> 'n rbt \<Rightarrow> u64 \<Rightarrow> ('n rbt \<times> u64) option" where
  "rb_insert_all cmp [] t k = Some (t, k)"
| "rb_insert_all cmp (p # ps) t k = do {
     (t, _) \<leftarrow> RB_INSERT cmp t p;
     rb_insert_all cmp ps t (k + 1)
   }"

locale interval_tree = interval_compare lo hi cmp
  for lo hi :: "'n \<Rightarrow> u64" and cmp :: "'n \<Rightarrow> 'n \<Rightarrow> int" +
  fixes val :: "'n \<Rightarrow> u64 \<Rightarrow> 'v"
    and good :: "'n \<Rightarrow> bool"
    and split :: "(nat \<Rightarrow> bool) \<Rightarrow> nat \<Rightarrow> 'n \<Rightarrow> 'n \<Rightarrow> 'n list option"
    and loop :: "(nat \<Rightarrow> bool) \<Rightarrow> 'n \<Rightarrow> nat \<Rightarrow> 'n rbt \<Rightarrow> u64 \<Rightarrow> (unifyfs_rc \<times> 'n rbt \<times> u64) option"
    and adj :: "'n \<Rightarrow> 'n \<Rightarrow> bool"
    and join :: "'n \<Rightarrow> 'n \<Rightarrow> 'n"
    and coalesce_prev coalesce_next :: "'n rbt \<Rightarrow> u64 \<Rightarrow> 'n \<Rightarrow> ('n rbt \<times> u64 \<times> 'n) option"
  assumes split_law:
      "\<lbrakk>split al i x c = Some ps; lo x \<le> hi x; lo c \<le> hi c; ivl_overlaps lo hi (lo x) (hi x) c; good x; good c\<rbrakk>
       \<Longrightarrow> split_ok lo hi val (lo x) (hi x) c ps \<and> (\<forall>p \<in> set ps. good p)"
    and split_total: "(\<And>j. al j) \<Longrightarrow> split al i x c \<noteq> None"
    and loop_eq: "loop al x i t k = do {
        (t, conflict) \<leftarrow> RB_INSERT cmp t x;
        case conflict of
          None \<Rightarrow> Some (UNIFYFS_SUCCESS, t, k)
        | Some c \<Rightarrow> (case split al i x c of
              None \<Rightarrow> Some (ENOMEM, t, k)
            | Some ps \<Rightarrow> do {
                t \<leftarrow> RB_REMOVE t c;
                (t, k) \<leftarrow> rb_insert_all cmp ps t (k - 1);
                loop al x (i + length ps) t k
              })
      }"
    and adj_law: "adj p n \<Longrightarrow> good p \<Longrightarrow> good n \<Longrightarrow>
        hi p + 1 = lo n \<and> lo (join p n) = lo p \<and> hi (join p n) = hi n \<and> good (join p n) \<and>
        (\<forall>b. lo p \<le> b \<longrightarrow> val (join p n) b = val p b) \<and>
        (\<forall>b. lo n \<le> b \<longrightarrow> val (join p n) b = val n b)"
    and coalesce_prev_eq: "coalesce_prev t k target = do {
        prev \<leftarrow> RB_PREV t target;
        case prev of
          None \<Rightarrow> Some (t, k, target)
        | Some p \<Rightarrow>
            if adj p target then do {
              t \<leftarrow> RB_REMOVE (rb_assign t p (join p target)) target;
              Some (t, k - 1, join p target)
            } else Some (t, k, target)
      }"
    and coalesce_next_eq: "coalesce_next t k target = do {
        next \<leftarrow> RB_NEXT t target;
        case next of
          None \<Rightarrow> Some (t, k, target)
        | Some n \<Rightarrow>
            if adj target n then do {
              t \<leftarrow> RB_REMOVE (rb_assign t target (join target n)) n;
              Some (t, k - 1, join target n)
            } else Some (t, k, target)
      }"
begin

abbreviation "lookup \<equiv> ivl_lookup lo hi val"

lemma insert_all_spec:
  assumes "rb_ok t" "rb_inorder t = as @ bs" "ivl_ok lo hi (as @ ps @ bs)"
  shows "\<exists>t'. rb_insert_all cmp ps t k = Some (t', k + of_nat (length ps)) \<and> rb_ok t' \<and>
     rb_inorder t' = as @ ps @ bs"
  using assms
proof (induction ps arbitrary: t k as)
  case (Cons p ps)
  have "ivl_ok lo hi (rb_inorder t)" "ivl_ok lo hi (as @ p # bs)"
    using Cons.prems by (auto simp: ivl_ok_simps)
  then obtain t1 where t1: "RB_INSERT cmp t p = Some (t1, None)" "rb_ok t1" "rb_inorder t1 = (as @ [p]) @ bs"
    using interval_insert_free [OF Cons.prems(1) _ Cons.prems(2)] by fastforce
  then show ?case using Cons.IH [OF t1(2,3), of "k + 1"] Cons.prems(3) by (auto simp: ac_simps)
qed simp

text \<open>One iteration of the loop: the conflicting node is replaced by its pieces.\<close>

lemma split_iteration:
  assumes ok: "itree_ok lo hi good t k" and x: "lo x \<le> hi x" "good x"
    and c: "rb_inorder t = as @ c # bs" "ivl_overlaps lo hi (lo x) (hi x) c"
    and sp: "split al i x c = Some ps"
  obtains t1 t2 k2 where "RB_REMOVE t c = Some t1" "rb_insert_all cmp ps t1 (k - 1) = Some (t2, k2)"
    "itree_ok lo hi good t2 k2" "partly_erased (lo x) (hi x) (lookup (rb_inorder t)) (lookup (rb_inorder t2))"
    "ivl_measure lo hi (lo x) (hi x) (rb_inorder t2) < ivl_measure lo hi (lo x) (hi x) (rb_inorder t)"
proof -
  note okD = itree_okD [OF ok]
  have ivl: "ivl_ok lo hi (as @ c # bs)" using okD(2) c(1) by simp
  have cg: "lo c \<le> hi c" "good c" using okD(2,4) c(1) by (auto simp: ivl_ok_simps)
  have law: "split_ok lo hi val (lo x) (hi x) c ps" "\<forall>p \<in> set ps. good p"
    using split_law [OF sp x(1) cg(1) c(2) x(2) cg(2)] by auto
  note step = split_step [OF ivl law(1)]
  obtain t1 where t1: "RB_REMOVE t c = Some t1" "rb_ok t1" "rb_inorder t1 = as @ bs"
    using RB_REMOVE_spec [OF okD(1) c(1) okD(5)] by auto
  obtain t2 where t2: "rb_insert_all cmp ps t1 (k - 1) = Some (t2, k - 1 + of_nat (length ps))"
    "rb_ok t2" "rb_inorder t2 = as @ ps @ bs"
    using insert_all_spec [OF t1(2,3) step(1)] by metis
  have "itree_ok lo hi good t2 (k - 1 + of_nat (length ps))"
    using t2 step(1) okD(3,4) law(2) c(1) by (auto simp: itree_ok_def)
  moreover have "partly_erased (lo x) (hi x) (lookup (rb_inorder t)) (lookup (rb_inorder t2))"
    unfolding partly_erased_def c(1) t2(3) using step(2,3) by (metis not_None_eq)
  ultimately show thesis using that t1(1) t2 step(4) c(1) by simp
qed

lemma loop_spec:
  assumes "itree_ok lo hi good t k" "lo x \<le> hi x" "good x"
  shows "\<exists>rc t' k'. loop al x i t k = Some (rc, t', k') \<and> ((\<forall>j. al j) \<longrightarrow> rc = UNIFYFS_SUCCESS) \<and>
     (rc = UNIFYFS_SUCCESS \<and> itree_ok lo hi good t' (k' + 1) \<and> x \<in> set (rb_inorder t') \<and>
        lookup (rb_inorder t') = overwrite (lo x) (hi x) (val x) (lookup (rb_inorder t)) \<or>
      rc = ENOMEM \<and> itree_ok lo hi good t' k' \<and>
        partly_erased (lo x) (hi x) (lookup (rb_inorder t)) (lookup (rb_inorder t')))"
  using assms(1)
proof (induction "ivl_measure lo hi (lo x) (hi x) (rb_inorder t)" arbitrary: t k i rule: less_induct)
  case less
  note okD = itree_okD [OF less.prems]
  show ?case
    using okD(1,2) assms(2)
  proof (cases rule: interval_insert)
    case (overlap as c bs)
    show ?thesis
    proof (cases "split al i x c")
      case None
      then show ?thesis using split_total [of al i x c] overlap less.prems by (subst loop_eq) auto
    next
      case (Some ps)
      obtain t1 t2 k2 where s: "RB_REMOVE t c = Some t1" "rb_insert_all cmp ps t1 (k - 1) = Some (t2, k2)"
        "itree_ok lo hi good t2 k2"
        "partly_erased (lo x) (hi x) (lookup (rb_inorder t)) (lookup (rb_inorder t2))"
        "ivl_measure lo hi (lo x) (hi x) (rb_inorder t2) < ivl_measure lo hi (lo x) (hi x) (rb_inorder t)"
        by (rule split_iteration [OF less.prems assms(2,3) overlap(2,3) Some])
      have eq: "loop al x i t k = loop al x (i + length ps) t2 k2"
        using overlap(1) Some s(1,2) by (subst loop_eq) simp
      show ?thesis
        unfolding eq using less.hyps [OF s(5) s(3), of "i + length ps"]
        by (elim exE conjE) (auto simp: overwrite_erased [OF s(4)] intro: partly_erased_trans [OF s(4)])
    qed
  next
    case (inserted t' as bs)
    have "lookup (rb_inorder t') = overwrite (lo x) (hi x) (val x) (lookup (rb_inorder t))"
      using ivl_insert_lookup [OF inserted(5), of val] inserted(3,4) by (auto simp: overwrite_def)
    moreover have "itree_ok lo hi good t' (k + 1)"
      using inserted okD(3,4) assms(3) by (auto simp: itree_ok_def ac_simps)
    ultimately show ?thesis using inserted by (subst loop_eq) auto
  qed
qed

text \<open>Coalescing a node with a neighbour changes no byte.\<close>

lemma join_spec:
  assumes ok: "itree_ok lo hi good t k" and t: "rb_inorder t = as @ p # n # bs" and adj: "adj p n"
  shows "\<exists>t'. RB_REMOVE (rb_assign t p (join p n)) n = Some t' \<and>
     rb_inorder t' = as @ join p n # bs \<and> itree_ok lo hi good t' (k - 1) \<and>
     lookup (rb_inorder t') = lookup (rb_inorder t)"
proof -
  note okD = itree_okD [OF ok]
  have g: "good p" "good n" using okD(4) t by auto
  note law = adj_law [OF adj g]
  have ivl: "ivl_ok lo hi (as @ p # n # bs)" using okD(2) t by simp
  have merged: "ivl_ok lo hi (as @ join p n # bs) \<and> lookup (as @ join p n # bs) b = lookup (as @ p # n # bs) b" for b
    by (rule ivl_merge [OF ivl]) (use law in auto)
  have r: "rb_inorder (rb_assign t p (join p n)) = (as @ [join p n]) @ n # bs"
    using inorder_assign [OF t okD(5)] by simp
  have "hi p < lo n" "lo p \<le> hi p" using ivl by (auto simp: ivl_ok_simps)
  then have "join p n \<noteq> n" using law by auto
  moreover have "distinct (as @ join p n # bs)" using merged ivl_ok_distinct by blast
  moreover have "distinct (as @ p # n # bs)" using okD(5) t by simp
  ultimately have "distinct ((as @ [join p n]) @ n # bs)" by auto
  then obtain t' where t': "RB_REMOVE (rb_assign t p (join p n)) n = Some t'" "rb_ok t'"
      "rb_inorder t' = as @ join p n # bs"
    using RB_REMOVE_spec [of "rb_assign t p (join p n)", OF _ r] okD(1) r by auto
  moreover have "itree_ok lo hi good t' (k - 1)"
    using t' okD(3,4) t law merged by (auto simp: itree_ok_def)
  ultimately show ?thesis using merged t by auto
qed

lemma coalesce_prev_spec:
  assumes ok: "itree_ok lo hi good t k" and x: "x \<in> set (rb_inorder t)"
  shows "\<exists>t' k' y. coalesce_prev t k x = Some (t', k', y) \<and> y \<in> set (rb_inorder t') \<and>
     itree_ok lo hi good t' k' \<and> lookup (rb_inorder t') = lookup (rb_inorder t)"
proof -
  obtain as bs where t: "rb_inorder t = as @ x # bs" using x split_list by metis
  note prev = RB_PREV_inorder [OF itree_okD(5) [OF ok] t]
  show ?thesis
  proof (cases "last_opt as")
    case None
    then show ?thesis using prev ok x by (subst coalesce_prev_eq) simp
  next
    case (Some p)
    then obtain as' where "rb_inorder t = as' @ p # x # bs" using t by (auto simp: last_opt_eq_Some)
    from join_spec [OF ok this] show ?thesis
      using prev Some ok x by (subst coalesce_prev_eq) auto
  qed
qed

lemma coalesce_next_spec:
  assumes ok: "itree_ok lo hi good t k" and x: "x \<in> set (rb_inorder t)"
  shows "\<exists>t' k' y. coalesce_next t k x = Some (t', k', y) \<and> y \<in> set (rb_inorder t') \<and>
     itree_ok lo hi good t' k' \<and> lookup (rb_inorder t') = lookup (rb_inorder t)"
proof -
  obtain as bs where t: "rb_inorder t = as @ x # bs" using x split_list by metis
  note nxt = RB_NEXT_inorder [OF itree_okD(5) [OF ok] t]
  show ?thesis
  proof (cases "hd_opt bs")
    case None
    then show ?thesis using nxt ok x by (subst coalesce_next_eq) simp
  next
    case (Some n)
    then obtain bs' where "rb_inorder t = as @ x # n # bs'" using t by (auto simp: hd_opt_eq_Some)
    from join_spec [OF ok this] show ?thesis
      using nxt Some ok x by (subst coalesce_next_eq) auto
  qed
qed

text \<open>Adding a range: the loop, then coalescing with both neighbours.\<close>

definition add_core :: "(nat \<Rightarrow> bool) \<Rightarrow> 'n \<Rightarrow> 'n rbt \<Rightarrow> u64 \<Rightarrow> (unifyfs_rc \<times> 'n rbt \<times> u64) option" where
  "add_core al x t k = do {
     (rc, t, k) \<leftarrow> loop al x 1 t k;
     if rc \<noteq> UNIFYFS_SUCCESS then Some (rc, t, k)
     else do {
       (t, k, y) \<leftarrow> coalesce_prev t (k + 1) x;
       (t, k, y) \<leftarrow> coalesce_next t k y;
       Some (UNIFYFS_SUCCESS, t, k)
     }
   }"

lemma add_core_spec:
  assumes "itree_ok lo hi good t k" "lo x \<le> hi x" "good x"
  shows "\<exists>rc t' k'. add_core al x t k = Some (rc, t', k') \<and> itree_ok lo hi good t' k' \<and>
     ((\<forall>j. al j) \<longrightarrow> rc = UNIFYFS_SUCCESS) \<and>
     (rc = UNIFYFS_SUCCESS \<and>
        lookup (rb_inorder t') = overwrite (lo x) (hi x) (val x) (lookup (rb_inorder t)) \<or>
      rc = ENOMEM \<and> partly_erased (lo x) (hi x) (lookup (rb_inorder t)) (lookup (rb_inorder t')))"
  using loop_spec [OF assms, of al 1]
proof (elim exE conjE disjE)
  fix rc t1 k1
  assume l: "loop al x 1 t k = Some (rc, t1, k1)" "rc = UNIFYFS_SUCCESS"
    "itree_ok lo hi good t1 (k1 + 1)" "x \<in> set (rb_inorder t1)"
    "lookup (rb_inorder t1) = overwrite (lo x) (hi x) (val x) (lookup (rb_inorder t))"
  from coalesce_prev_spec [OF l(3,4)] obtain t2 k2 y where
    p: "coalesce_prev t1 (k1 + 1) x = Some (t2, k2, y)" "itree_ok lo hi good t2 k2"
      "y \<in> set (rb_inorder t2)" "lookup (rb_inorder t2) = lookup (rb_inorder t1)" by auto
  from coalesce_next_spec [OF p(2,3)] obtain t3 k3 z where
    n: "coalesce_next t2 k2 y = Some (t3, k3, z)" "itree_ok lo hi good t3 k3"
      "lookup (rb_inorder t3) = lookup (rb_inorder t2)" by auto
  show ?thesis using l p n by (auto simp: add_core_def)
qed (auto simp: add_core_def)

end

text \<open>A bound on the last offsets is a bound on the offsets that are mapped.\<close>

lemma ivl_bound_iff:
  assumes "ivl_ok lo hi xs"
  shows "(\<forall>n \<in> set xs. hi n \<le> m) \<longleftrightarrow> (\<forall>b. ivl_lookup lo hi val xs b \<noteq> None \<longrightarrow> b \<le> m)"
proof
  assume "\<forall>n \<in> set xs. hi n \<le> m"
  then show "\<forall>b. ivl_lookup lo hi val xs b \<noteq> None \<longrightarrow> b \<le> m"
    unfolding ivl_lookup_None by (meson order.trans)
next
  assume *: "\<forall>b. ivl_lookup lo hi val xs b \<noteq> None \<longrightarrow> b \<le> m"
  show "\<forall>n \<in> set xs. hi n \<le> m"
  proof
    fix n assume "n \<in> set xs"
    with ivl_lookup_in [OF assms this, of "hi n" val] ivl_ok_nonempty [OF assms this]
    show "hi n \<le> m" using * by simp
  qed
qed

section \<open>Coverage of a range\<close>

text \<open>The nodes that overlap a range follow each other in the tree.\<close>

lemma overlaps_after:
  assumes "ivl_ok lo hi (x # xs)" "s \<le> hi x"
  shows "filter (ivl_overlaps lo hi s e) xs = takeWhile (\<lambda>n. lo n \<le> e) xs"
  using assms
proof (induction xs arbitrary: x)
  case (Cons y ys)
  have y: "s \<le> hi y" "ivl_ok lo hi (y # ys)" using Cons.prems by (auto simp: ivl_ok_Cons)
  show ?case
  proof (cases "lo y \<le> e")
    case True
    then show ?thesis using Cons.IH [OF y(2,1)] y(1) by (simp add: ivl_overlaps_def)
  next
    case False
    then have "\<forall>z \<in> set ys. \<not> ivl_overlaps lo hi s e z"
      using y(2) by (auto simp: ivl_overlaps_def ivl_ok_Cons)
    with False show ?thesis by (simp add: ivl_overlaps_def filter_False)
  qed
qed simp

lemma overlaps_from_first:
  assumes "ivl_ok lo hi xs" "List.find (ivl_overlaps lo hi s e) xs = Some n"
  shows "\<exists>as bs. xs = as @ n # bs \<and> filter (ivl_overlaps lo hi s e) xs = n # takeWhile (\<lambda>m. lo m \<le> e) bs"
  using assms
proof (induction xs)
  case (Cons x xs)
  show ?case
  proof (cases "ivl_overlaps lo hi s e x")
    case True
    then have "n = x" "s \<le> hi x" using Cons.prems(2) by (simp_all add: ivl_overlaps_def)
    with overlaps_after [OF Cons.prems(1)] True show ?thesis by fastforce
  next
    case False
    then obtain as bs where "xs = as @ n # bs"
      "filter (ivl_overlaps lo hi s e) xs = n # takeWhile (\<lambda>m. lo m \<le> e) bs"
      using Cons by (auto simp: ivl_ok_Cons)
    with False show ?thesis by (intro exI [of _ "x # as"] exI [of _ bs]) auto
  qed
qed simp

lemma overlaps_lookup:
  assumes "s \<le> b" "b \<le> e"
  shows "ivl_lookup lo hi val (filter (ivl_overlaps lo hi s e) xs) b = ivl_lookup lo hi val xs b"
proof (induction xs)
  case (Cons x xs)
  have "lo x \<le> b \<and> b \<le> hi x \<Longrightarrow> ivl_overlaps lo hi s e x"
    using assms by (auto simp: ivl_overlaps_def)
  with Cons show ?case by auto
qed simp

text \<open>A range is mapped completely iff its overlapping nodes touch each other and reach both ends.\<close>

definition ivl_spans :: "('n \<Rightarrow> u64) \<Rightarrow> ('n \<Rightarrow> u64) \<Rightarrow> u64 \<Rightarrow> u64 \<Rightarrow> 'n list \<Rightarrow> bool" where
  "ivl_spans lo hi s e ns \<longleftrightarrow> ns \<noteq> [] \<and> successively (\<lambda>m n. hi m + 1 = lo n) ns \<and>
     lo (hd ns) \<le> s \<and> e \<le> hi (last ns)"

lemma cover_tail:
  assumes "lo y \<le> s" "s \<le> hi y" "hi y < h"
  shows "(\<forall>b. s \<le> b \<and> b \<le> e \<longrightarrow> ivl_lookup lo hi val (y # ys) b \<noteq> None) \<longleftrightarrow>
     (\<forall>b. hi y + 1 \<le> b \<and> b \<le> e \<longrightarrow> ivl_lookup lo hi val ys b \<noteq> None)"
proof -
  have "s \<le> b" if "hi y < b" for b using that assms(2) by order
  moreover have "ivl_lookup lo hi val (y # ys) b =
      (if hi y < b then ivl_lookup lo hi val ys b else Some (val y b))" if "s \<le> b" for b
    using that assms(1) by auto
  ultimately show ?thesis unfolding u64_succ_le [OF assms(3)] by (metis option.distinct(1))
qed

lemma ivl_spans_iff:
  assumes "ivl_ok lo hi ns" "\<forall>n \<in> set ns. ivl_overlaps lo hi s e n" "s \<le> e"
  shows "ivl_spans lo hi s e ns \<longleftrightarrow> (\<forall>b. s \<le> b \<and> b \<le> e \<longrightarrow> ivl_lookup lo hi val ns b \<noteq> None)"
  using assms
proof (induction ns arbitrary: s)
  case Nil
  then show ?case by (auto simp: ivl_spans_def)
next
  case (Cons y ys)
  have y: "lo y \<le> hi y" "lo y \<le> e" "s \<le> hi y" "ivl_ok lo hi ys" "\<forall>z \<in> set ys. hi y < lo z"
    using Cons.prems by (auto simp: ivl_ok_Cons ivl_overlaps_def)
  show ?case
  proof (cases "lo y \<le> s")
    case False
    then have "ivl_lookup lo hi val (y # ys) s = None"
      using y by (auto simp: ivl_lookup_None)
    with False Cons.prems(3) show ?thesis by (auto simp: ivl_spans_def)
  next
    case le: True
    show ?thesis
    proof (cases ys)
      case Nil
      have "e \<le> hi y" if "\<forall>b. s \<le> b \<and> b \<le> e \<longrightarrow> ivl_lookup lo hi val (y # ys) b \<noteq> None"
        using that [rule_format, of e] Cons.prems(3) Nil by (auto split: if_splits)
      moreover have "ivl_lookup lo hi val (y # ys) b \<noteq> None" if "e \<le> hi y" "s \<le> b" "b \<le> e" for b
        using that le order.trans by (auto simp: ivl_lookup_None)
      moreover have "ivl_spans lo hi s e (y # ys) \<longleftrightarrow> e \<le> hi y"
        using le Nil by (simp add: ivl_spans_def)
      ultimately show ?thesis by blast
    next
      case (Cons z zs)
      have z: "hi y < lo z" "lo z \<le> e" using y(5) Cons.prems(2) Cons by (auto simp: ivl_overlaps_def)
      have s': "hi y + 1 \<le> e" using order.trans [OF inc_le [OF z(1)] z(2)] .
      have "\<forall>n \<in> set ys. ivl_overlaps lo hi (hi y + 1) e n"
        using y(5) Cons.prems(2) ivl_ok_nonempty [OF y(4)] order.trans [OF inc_le]
        by (fastforce simp: ivl_overlaps_def)
      from Cons.IH [OF y(4) this s']
      have "ivl_spans lo hi (hi y + 1) e ys \<longleftrightarrow>
        (\<forall>b. hi y + 1 \<le> b \<and> b \<le> e \<longrightarrow> ivl_lookup lo hi val ys b \<noteq> None)" .
      moreover have "ivl_spans lo hi s e (y # ys) \<longleftrightarrow> ivl_spans lo hi (hi y + 1) e ys"
        using le Cons inc_le [OF z(1)] by (auto simp: ivl_spans_def)
      ultimately show ?thesis 
        using cover_tail [of lo y s hi "lo z" e val ys, OF le y(3) z(1)] by (simp only:)
    qed
  qed
qed

section \<open>Search, iteration and clearing\<close>

lemma inorder_Nil_iff [simp]: "rb_inorder t = [] \<longleftrightarrow> t = Null"
  by (cases t) auto

lemma find_first_overlap:
  assumes "ivl_ok lo hi xs"
  shows "(case List.find (\<lambda>n. s \<le> hi n) xs of
            None \<Rightarrow> None | Some n \<Rightarrow> if lo n \<le> e then Some n else None) =
         List.find (ivl_overlaps lo hi s e) xs"
proof -
  have "ivl_overlaps lo hi s e = (\<lambda>n. lo n \<le> e \<and> s \<le> hi n)"
    by (auto simp: ivl_overlaps_def)
  moreover have "List.find (\<lambda>n. lo n \<le> e \<and> s \<le> hi n) xs =
      (case List.find (\<lambda>n. s \<le> hi n) xs of
         None \<Rightarrow> None | Some n \<Rightarrow> if lo n \<le> e then Some n else None)"
    using assms
  proof (induction xs)
    case (Cons x xs)
    have "List.find (\<lambda>n. lo n \<le> e \<and> s \<le> hi n) xs = None" if "\<not> lo x \<le> e"
      using that Cons.prems by (auto simp: find_None_iff ivl_ok_Cons)
    then show ?case using Cons by (auto simp: ivl_ok_Cons)
  qed simp
  ultimately show ?thesis by simp
qed

lemma find_overlap_lowest:
  assumes "ivl_ok lo hi xs" "List.find (ivl_overlaps lo hi s e) xs = Some n"
  shows "n \<in> set xs" "ivl_overlaps lo hi s e n"
    "m \<in> set xs \<Longrightarrow> ivl_overlaps lo hi s e m \<Longrightarrow> lo n \<le> lo m"
  using assms
proof (induction xs)
  case (Cons x xs)
  {
    case 3
    then show ?case using Cons.IH(3) by (force simp: ivl_ok_Cons split: if_splits)
  }
qed (auto simp: ivl_ok_Cons split: if_splits)

lemma find_overlap_None:
  assumes "List.find (ivl_overlaps lo hi s e) xs = None" "s \<le> b" "b \<le> e"
  shows "ivl_lookup lo hi val xs b = None"
  using assms unfolding ivl_lookup_None find_None_iff ivl_overlaps_def by (meson order.trans)

locale interval_iter = interval_compare lo hi cmp
  for lo hi :: "'n \<Rightarrow> u64" and cmp :: "'n \<Rightarrow> 'n \<Rightarrow> int" +
  fixes iter :: "'n rbt \<Rightarrow> 'n option \<Rightarrow> 'n option option"
    and collect :: "'n rbt \<Rightarrow> 'n option \<Rightarrow> 'n list option"
    and clear_loop :: "'n rbt \<Rightarrow> 'n option \<Rightarrow> 'n option \<Rightarrow> 'n rbt option"
  assumes iter_eq: "iter t start = (case start of
        None \<Rightarrow> Some (RB_MIN t)
      | Some x \<Rightarrow> (case RB_FIND cmp t x of None \<Rightarrow> Some None | Some _ \<Rightarrow> RB_NEXT t x))"
    and collect_eq: "collect t node = do {
        node \<leftarrow> iter t node;
        case node of
          None \<Rightarrow> Some []
        | Some n \<Rightarrow> do { ns \<leftarrow> collect t (Some n); Some (n # ns) }
      }"
    and clear_loop_eq: "clear_loop t node oldnode = do {
        node \<leftarrow> iter t node;
        t \<leftarrow> (case oldnode of None \<Rightarrow> Some t | Some x \<Rightarrow> RB_REMOVE t x);
        case node of
          None \<Rightarrow> Some t
        | Some n \<Rightarrow> clear_loop t (Some n) (Some n)
      }"
begin

sublocale rb_iter cmp "\<lambda>x. lo x \<le> hi x" iter collect
  by unfold_locales (rule iter_eq, rule collect_eq)

lemmas iter_next = sorted_iter_next [unfolded sorted_ivl_ok]
  and collect_all = sorted_collect_all [unfolded sorted_ivl_ok]

lemma clear_loop_from:
  assumes "rb_ok t" "ivl_ok lo hi (rb_inorder t)" "rb_inorder t = x # bs"
  shows "clear_loop t (Some x) (Some x) = Some Null"
  using assms
proof (induction bs arbitrary: t x)
  case Nil
  obtain t' where "RB_REMOVE t x = Some t'" "rb_inorder t' = []"
    using RB_REMOVE_spec [of t "[]" x "[]"] Nil ivl_ok_distinct by auto
  then show ?case using iter_next [of t "[]" x "[]"] Nil by (subst clear_loop_eq) simp
next
  case (Cons b bs)
  obtain t' where t': "RB_REMOVE t x = Some t'" "rb_ok t'" "rb_inorder t' = b # bs"
    using RB_REMOVE_spec [OF Cons.prems(1), of "[]" x "b # bs"] Cons.prems(3)
      ivl_ok_distinct [OF Cons.prems(2)] by auto
  have "ivl_ok lo hi (rb_inorder t')" using Cons.prems t'(3) by (simp add: ivl_ok_Cons)
  then have "clear_loop t' (Some b) (Some b) = Some Null" using Cons.IH t' by blast
  then show ?case
    using iter_next [of t "[]" x "b # bs"] Cons.prems t'(1) by (subst clear_loop_eq) simp
qed

lemma clear_loop_spec:
  assumes "rb_ok t" "ivl_ok lo hi (rb_inorder t)"
  shows "clear_loop t None None = Some Null"
proof (cases "rb_inorder t")
  case Nil
  then show ?thesis using iter_first [of t] by (subst clear_loop_eq) simp
next
  case (Cons x xs)
  then show ?thesis using iter_first [of t] clear_loop_from [OF assms Cons]
    by (subst clear_loop_eq) simp
qed

end

section \<open>Sequences of writes\<close>

text \<open>
  What a client of either tree relies on: adding a range makes its bytes refer to the new data and
  leaves every other byte alone. After any sequence of writes each byte refers to the last write
  that covers it.
\<close>

fun last_write :: "('w \<Rightarrow> u64) \<Rightarrow> ('w \<Rightarrow> u64) \<Rightarrow> ('w \<Rightarrow> u64 \<Rightarrow> 'v) \<Rightarrow> 'w list \<Rightarrow> u64 \<Rightarrow> 'v option" where
  "last_write first final new [] b = None"
| "last_write first final new (w # ws) b =
     (case last_write first final new ws b of
        Some v \<Rightarrow> Some v
      | None \<Rightarrow> if first w \<le> b \<and> b \<le> final w then Some (new w b) else None)"

fun add_all :: "('w \<Rightarrow> 's \<Rightarrow> 's option) \<Rightarrow> 'w list \<Rightarrow> 's \<Rightarrow> 's option" where
  "add_all add [] s = Some s"
| "add_all add (w # ws) s = do { s \<leftarrow> add w s; add_all add ws s }"

locale write_map =
  fixes inv :: "'s \<Rightarrow> bool"
    and look :: "'s \<Rightarrow> u64 \<Rightarrow> 'v option"
    and add :: "'w \<Rightarrow> 's \<Rightarrow> 's option"
    and valid :: "'w \<Rightarrow> bool"
    and first final :: "'w \<Rightarrow> u64"
    and new :: "'w \<Rightarrow> u64 \<Rightarrow> 'v"
  assumes add_law: "inv s \<Longrightarrow> valid w \<Longrightarrow>
      \<exists>s'. add w s = Some s' \<and> inv s' \<and> look s' = overwrite (first w) (final w) (new w) (look s)"
begin

lemma last_writer_wins:
  assumes "inv s" "\<forall>w \<in> set ws. valid w"
  shows "\<exists>s'. add_all add ws s = Some s' \<and> inv s' \<and>
     (\<forall>b. look s' b = (case last_write first final new ws b of Some v \<Rightarrow> Some v | None \<Rightarrow> look s b))"
  using assms
proof (induction ws arbitrary: s)
  case (Cons w ws)
  obtain s1 where s1: "add w s = Some s1" "inv s1"
      "look s1 = overwrite (first w) (final w) (new w) (look s)"
    using add_law [OF Cons.prems(1), of w] Cons.prems(2) by auto
  then show ?case using Cons.IH [OF s1(2)] Cons.prems(2)
    by (auto simp: overwrite_def split: option.split)
qed simp

end

end
