(* ===== verification/Seg_Tree.thy ===== *)
theory Seg_Tree
  imports Interval_Tree
begin

text \<open>
  The segment tree of \<^verbatim>\<open>common/src/seg_tree.c\<close>: the client's index from file offsets to offsets in
  its write log. Ranges are closed, disjoint, and a new range overwrites what it overlaps.

  Every \<^verbatim>\<open>calloc\<close> is answered by an oracle \<open>al\<close>: its \<open>n\<close>-th allocation of a call succeeds iff
  \<open>al n\<close>. The read-write lock is not part of the state. The \<^verbatim>\<open>long\<close> parameters of
  \<^verbatim>\<open>get_non_overlapping_range\<close> are compared with \<^verbatim>\<open>unsigned long\<close> values, which makes these
  comparisons unsigned, and are converted back to \<^verbatim>\<open>unsigned long\<close>; the model computes in 64 bits
  with wrap-around.
\<close>

section \<open>Nodes and trees\<close>

record seg_tree_node =
  stn_start :: u64
  stn_end :: u64
  stn_ptr :: u64
  stn_client_id :: int

record seg_tree =
  st_head :: "seg_tree_node rbt"
  st_count :: u64
  st_max :: u64

definition stn_compare_func :: "seg_tree_node \<Rightarrow> seg_tree_node \<Rightarrow> int" where
  "stn_compare_func node1 node2 =
     (if stn_start node1 > stn_end node2 then 1
      else if stn_end node1 < stn_start node2 then - 1
      else 0)"

definition seg_tree_init :: seg_tree where
  "seg_tree_init = \<lparr>st_head = Null, st_count = 0, st_max = 0\<rparr>"

definition seg_tree_node_alloc :: "bool \<Rightarrow> u64 \<Rightarrow> u64 \<Rightarrow> u64 \<Rightarrow> int \<Rightarrow> seg_tree_node option" where
  "seg_tree_node_alloc ok start end ptr client_id =
     (if ok then Some \<lparr>stn_start = start, stn_end = end, stn_ptr = ptr, stn_client_id = client_id\<rparr>
      else None)"

text \<open>\<^term>\<open>None\<close> is the return value 1: range 2 covers range 1.\<close>

definition get_non_overlapping_range :: "u64 \<Rightarrow> u64 \<Rightarrow> u64 \<Rightarrow> u64 \<Rightarrow> (u64 \<times> u64) option" where
  "get_non_overlapping_range start1 end1 start2 end2 =
     (if start1 < start2 then Some (start1, start2 - 1)
      else if end1 > end2 then Some (end2 + 1, end1)
      else None)"

section \<open>Adding a range\<close>

text \<open>
  What replaces the node \<open>overlap\<close> in an iteration of the loop of \<^verbatim>\<open>seg_tree_add\<close>: nothing if the
  new range covers it, otherwise the non-overlapping part (\<^verbatim>\<open>resized\<close>) and, when that is the front
  of \<open>overlap\<close>, the rest (\<^verbatim>\<open>remaining\<close>). \<^term>\<open>None\<close> is a failed allocation, before which
  nothing was changed. Both parts get the client id of the new range.
\<close>

definition seg_tree_split ::
  "(nat \<Rightarrow> bool) \<Rightarrow> nat \<Rightarrow> seg_tree_node \<Rightarrow> seg_tree_node \<Rightarrow> seg_tree_node list option" where
  "seg_tree_split al i node overlap =
     (case get_non_overlapping_range (stn_start overlap) (stn_end overlap) (stn_start node) (stn_end node) of
        None \<Rightarrow> Some []
      | Some (new_start, new_end) \<Rightarrow> do {
          resized \<leftarrow> seg_tree_node_alloc (al i) new_start new_end
                      (stn_ptr overlap + (new_start - stn_start overlap)) (stn_client_id node);
          if stn_end resized < stn_end overlap
          then do {
            remaining \<leftarrow> seg_tree_node_alloc (al (i + 1)) (stn_end resized + 1) (stn_end overlap)
                          (stn_ptr overlap + (stn_end resized + 1 - stn_start overlap)) (stn_client_id node);
            Some [resized, remaining]
          }
          else Some [resized]
        })"

text \<open>
  The loop: as long as inserting \<open>node\<close> reports an overlapping node, that node is replaced by its
  parts. The result is the return code, the tree and its count.
\<close>

partial_function (option) seg_tree_add_loop ::
  "(nat \<Rightarrow> bool) \<Rightarrow> seg_tree_node \<Rightarrow> nat \<Rightarrow> seg_tree_node rbt \<Rightarrow> u64
   \<Rightarrow> (unifyfs_rc \<times> seg_tree_node rbt \<times> u64) option" where
  "seg_tree_add_loop al node i head count = do {
     (head, overlap) \<leftarrow> RB_INSERT stn_compare_func head node;
     case overlap of
       None \<Rightarrow> Some (UNIFYFS_SUCCESS, head, count)
     | Some overlap \<Rightarrow> (case seg_tree_split al i node overlap of
           None \<Rightarrow> Some (ENOMEM, head, count)
         | Some parts \<Rightarrow> do {
             head \<leftarrow> RB_REMOVE head overlap;
             (head, count) \<leftarrow> rb_insert_all stn_compare_func parts head (count - 1);
             seg_tree_add_loop al node (i + length parts) head count
           })
   }"

text \<open>
  Coalescing with the neighbours: the surviving node gets the other's end and the other node is
  removed. The client ids of the two nodes are not compared.
\<close>

definition seg_tree_adjacent :: "seg_tree_node \<Rightarrow> seg_tree_node \<Rightarrow> bool" where
  "seg_tree_adjacent prev target \<longleftrightarrow>
     stn_end prev + 1 = stn_start target \<and>
     stn_ptr prev + (stn_end prev - stn_start prev + 1) = stn_ptr target"

definition seg_tree_coalesce_prev ::
  "seg_tree_node rbt \<Rightarrow> u64 \<Rightarrow> seg_tree_node \<Rightarrow> (seg_tree_node rbt \<times> u64 \<times> seg_tree_node) option" where
  "seg_tree_coalesce_prev head count target = do {
     prev \<leftarrow> RB_PREV head target;
     case prev of
       None \<Rightarrow> Some (head, count, target)
     | Some prev \<Rightarrow>
         if seg_tree_adjacent prev target then do {
           head \<leftarrow> RB_REMOVE (rb_assign head prev (prev\<lparr>stn_end := stn_end target\<rparr>)) target;
           Some (head, count - 1, prev\<lparr>stn_end := stn_end target\<rparr>)
         } else Some (head, count, target)
   }"

definition seg_tree_coalesce_next ::
  "seg_tree_node rbt \<Rightarrow> u64 \<Rightarrow> seg_tree_node \<Rightarrow> (seg_tree_node rbt \<times> u64 \<times> seg_tree_node) option" where
  "seg_tree_coalesce_next head count target = do {
     next \<leftarrow> RB_NEXT head target;
     case next of
       None \<Rightarrow> Some (head, count, target)
     | Some next \<Rightarrow>
         if seg_tree_adjacent target next then do {
           head \<leftarrow> RB_REMOVE (rb_assign head target (target\<lparr>stn_end := stn_end next\<rparr>)) next;
           Some (head, count - 1, target\<lparr>stn_end := stn_end next\<rparr>)
         } else Some (head, count, target)
   }"

definition seg_tree_add ::
  "(nat \<Rightarrow> bool) \<Rightarrow> seg_tree \<Rightarrow> u64 \<Rightarrow> u64 \<Rightarrow> u64 \<Rightarrow> int \<Rightarrow> (unifyfs_rc \<times> seg_tree) option" where
  "seg_tree_add al T start end ptr client_id =
     (case seg_tree_node_alloc (al 0) start end ptr client_id of
        None \<Rightarrow> Some (ENOMEM, T)
      | Some node \<Rightarrow> do {
          (rc, head, count) \<leftarrow> seg_tree_add_loop al node 1 (st_head T) (st_count T);
          if rc \<noteq> UNIFYFS_SUCCESS
          then Some (rc, T\<lparr>st_head := head, st_count := count\<rparr>)
          else do {
            (head, count, target) \<leftarrow> seg_tree_coalesce_prev head (count + 1) node;
            (head, count, target) \<leftarrow> seg_tree_coalesce_next head count target;
            Some (UNIFYFS_SUCCESS, \<lparr>st_head = head, st_count = count, st_max = max (st_max T) end\<rparr>)
          }
        })"

section \<open>Search, removal, iteration\<close>

definition seg_tree_find_nolock :: "bool \<Rightarrow> seg_tree \<Rightarrow> u64 \<Rightarrow> u64 \<Rightarrow> seg_tree_node option" where
  "seg_tree_find_nolock ok T start end =
     (case seg_tree_node_alloc ok start start 0 0 of
        None \<Rightarrow> None
      | Some node \<Rightarrow> (case RB_NFIND stn_compare_func (st_head T) node of
            None \<Rightarrow> None
          | Some next \<Rightarrow> if stn_start next \<le> end then Some next else None))"

definition seg_tree_find :: "bool \<Rightarrow> seg_tree \<Rightarrow> u64 \<Rightarrow> u64 \<Rightarrow> seg_tree_node option" where
  "seg_tree_find ok T start end = seg_tree_find_nolock ok T start end"

text \<open>
  \<^verbatim>\<open>seg_tree_remove\<close>. In iteration \<open>j\<close> the search allocates with \<open>al j 0\<close> and the nested
  \<^verbatim>\<open>seg_tree_add\<close> with \<open>al j 1\<close>, \<open>al j 2\<close> and so on.
\<close>

partial_function (option) seg_tree_remove_loop ::
  "(nat \<Rightarrow> nat \<Rightarrow> bool) \<Rightarrow> u64 \<Rightarrow> u64 \<Rightarrow> nat \<Rightarrow> seg_tree \<Rightarrow> (unifyfs_rc \<times> seg_tree) option" where
  "seg_tree_remove_loop al start end j T =
     (case seg_tree_find_nolock (al j 0) T start end of
        None \<Rightarrow> Some (UNIFYFS_SUCCESS, T)
      | Some node \<Rightarrow>
          if start \<le> stn_start node then
            if stn_end node \<le> end then do {
              head \<leftarrow> RB_REMOVE (st_head T) node;
              seg_tree_remove_loop al start end (j + 1) (T\<lparr>st_head := head, st_count := st_count T - 1\<rparr>)
            }
            else
              seg_tree_remove_loop al start end (j + 1)
                (T\<lparr>st_head := rb_assign (st_head T) node
                     (node\<lparr>stn_ptr := stn_ptr node + (end + 1 - stn_start node), stn_start := end + 1\<rparr>)\<rparr>)
          else
            if stn_end node \<le> end then
              seg_tree_remove_loop al start end (j + 1)
                (T\<lparr>st_head := rb_assign (st_head T) node (node\<lparr>stn_end := start - 1\<rparr>)\<rparr>)
            else do {
              (rc, T) \<leftarrow> seg_tree_add (\<lambda>i. al j (i + 1))
                (T\<lparr>st_head := rb_assign (st_head T) node (node\<lparr>stn_end := start - 1\<rparr>)\<rparr>)
                (end + 1) (stn_end node) (stn_ptr node + (end + 1 - stn_start node)) (stn_client_id node);
              if rc \<noteq> UNIFYFS_SUCCESS then Some (rc, T)
              else seg_tree_remove_loop al start end (j + 1) T
            })"

definition seg_tree_remove ::
  "(nat \<Rightarrow> nat \<Rightarrow> bool) \<Rightarrow> seg_tree \<Rightarrow> u64 \<Rightarrow> u64 \<Rightarrow> (unifyfs_rc \<times> seg_tree) option" where
  "seg_tree_remove al T start end = seg_tree_remove_loop al start end 0 T"

definition seg_tree_iter :: "seg_tree_node rbt \<Rightarrow> seg_tree_node option \<Rightarrow> seg_tree_node option option" where
  "seg_tree_iter head start =
     (case start of
        None \<Rightarrow> Some (RB_MIN head)
      | Some start \<Rightarrow> (case RB_FIND stn_compare_func head start of
            None \<Rightarrow> Some None
          | Some tmp \<Rightarrow> RB_NEXT head start))"

text \<open>The loop in which \<^verbatim>\<open>seg_tree_iter\<close> is meant to be called; it gathers the nodes it visits.\<close>

partial_function (option) seg_tree_iter_loop ::
  "seg_tree_node rbt \<Rightarrow> seg_tree_node option \<Rightarrow> seg_tree_node list option" where
  "seg_tree_iter_loop head node = do {
     node \<leftarrow> seg_tree_iter head node;
     case node of
       None \<Rightarrow> Some []
     | Some node \<Rightarrow> do { nodes \<leftarrow> seg_tree_iter_loop head (Some node); Some (node # nodes) }
   }"

partial_function (option) seg_tree_clear_loop ::
  "seg_tree_node rbt \<Rightarrow> seg_tree_node option \<Rightarrow> seg_tree_node option \<Rightarrow> seg_tree_node rbt option" where
  "seg_tree_clear_loop head node oldnode = do {
     node \<leftarrow> seg_tree_iter head node;
     head \<leftarrow> (case oldnode of None \<Rightarrow> Some head | Some oldnode \<Rightarrow> RB_REMOVE head oldnode);
     case node of
       None \<Rightarrow> Some head
     | Some node \<Rightarrow> seg_tree_clear_loop head (Some node) (Some node)
   }"

definition seg_tree_clear :: "seg_tree \<Rightarrow> seg_tree option" where
  "seg_tree_clear T =
     (if st_head T = Null then Some T
      else do {
        head \<leftarrow> seg_tree_clear_loop (st_head T) None None;
        Some \<lparr>st_head = head, st_count = 0, st_max = 0\<rparr>
      })"

definition seg_tree_destroy :: "seg_tree \<Rightarrow> seg_tree option" where
  "seg_tree_destroy T = seg_tree_clear T"

definition seg_tree_count :: "seg_tree \<Rightarrow> u64" where
  "seg_tree_count T = st_count T"

definition seg_tree_max :: "seg_tree \<Rightarrow> u64" where
  "seg_tree_max T = st_max T"

lemmas seg_tree_loop_code [code] =
  seg_tree_add_loop.simps seg_tree_remove_loop.simps seg_tree_iter_loop.simps seg_tree_clear_loop.simps

section \<open>The interval algorithm\<close>

text \<open>
  \<open>stn_offset n b\<close> is the log offset of the byte \<open>b\<close> of the file, \<open>stn_owned n b\<close> adds the client
  whose log it is in.
\<close>

definition stn_offset :: "seg_tree_node \<Rightarrow> u64 \<Rightarrow> u64" where
  "stn_offset n b = stn_ptr n + (b - stn_start n)"

definition stn_owned :: "seg_tree_node \<Rightarrow> u64 \<Rightarrow> int \<times> u64" where
  "stn_owned n b = (stn_client_id n, stn_offset n b)"

lemma seg_split_law:
  assumes sp: "seg_tree_split al i x c = Some ps"
    and x: "stn_start x \<le> stn_end x" and c: "stn_start c \<le> stn_end c"
    and ov: "ivl_overlaps stn_start stn_end (stn_start x) (stn_end x) c"
    and val: "\<And>p b. stn_client_id p = stn_client_id x \<Longrightarrow> stn_offset p b = stn_offset c b \<Longrightarrow> val p b = val c b"
  shows "split_ok stn_start stn_end val (stn_start x) (stn_end x) c ps \<and>
     (\<forall>p \<in> set ps. stn_client_id p = stn_client_id x)"
proof (cases "stn_start c < stn_start x")
  case True
  have "stn_start x - 1 < stn_end c"
    using u64_pred_less [OF True] ov by (auto simp: ivl_overlaps_def)
  then show ?thesis
    using sp True x ov
    by (auto simp: seg_tree_split_def get_non_overlapping_range_def seg_tree_node_alloc_def stn_offset_def
        ivl_overlaps_def split: if_splits bind_splits intro!: split_ok_front val)
next
  case False
  then show ?thesis
    using sp x c ov
    by (auto simp: seg_tree_split_def get_non_overlapping_range_def seg_tree_node_alloc_def stn_offset_def
        ivl_overlaps_def not_less split: if_splits bind_splits intro!: split_ok_tail split_ok_none val)
qed

lemma seg_split_total: "(\<And>j. al j) \<Longrightarrow> seg_tree_split al i x c \<noteq> None"
  by (auto simp: seg_tree_split_def seg_tree_node_alloc_def split: option.splits bind_splits)

lemma seg_adjacent_law:
  assumes "seg_tree_adjacent p n"
  shows "stn_end p + 1 = stn_start n" "stn_offset p b = stn_offset n b"
    "stn_offset (p\<lparr>stn_end := stn_end n\<rparr>) b = stn_offset p b"
proof -
  have "stn_start n = stn_end p + 1" "stn_ptr n = stn_ptr p + (stn_end p - stn_start p + 1)"
    using assms by (simp_all add: seg_tree_adjacent_def)
  then show "stn_end p + 1 = stn_start n" "stn_offset p b = stn_offset n b"
    "stn_offset (p\<lparr>stn_end := stn_end n\<rparr>) b = stn_offset p b"
    by (simp_all add: stn_offset_def)
qed

interpretation seg: interval_tree stn_start stn_end stn_compare_func stn_offset "\<lambda>_. True"
  seg_tree_split seg_tree_add_loop seg_tree_adjacent "\<lambda>p n. p\<lparr>stn_end := stn_end n\<rparr>"
  seg_tree_coalesce_prev seg_tree_coalesce_next
proof unfold_locales
  show "stn_compare_func x y =
      (if stn_end y < stn_start x then 1 else if stn_end x < stn_start y then - 1 else 0)" for x y
    by (simp add: stn_compare_func_def)
  show "seg_tree_add_loop al x i t k = do {
        (t, conflict) \<leftarrow> RB_INSERT stn_compare_func t x;
        case conflict of
          None \<Rightarrow> Some (UNIFYFS_SUCCESS, t, k)
        | Some c \<Rightarrow> (case seg_tree_split al i x c of
              None \<Rightarrow> Some (ENOMEM, t, k)
            | Some ps \<Rightarrow> do {
                t \<leftarrow> RB_REMOVE t c;
                (t, k) \<leftarrow> rb_insert_all stn_compare_func ps t (k - 1);
                seg_tree_add_loop al x (i + length ps) t k
              })
      }" for al x i t k
    by (rule seg_tree_add_loop.simps)
qed (use seg_split_law [where val = stn_offset] seg_split_total seg_adjacent_law in
     \<open>auto simp: seg_tree_coalesce_prev_def seg_tree_coalesce_next_def\<close>)

interpretation seg_client: interval_tree stn_start stn_end stn_compare_func stn_owned
  "\<lambda>n. stn_client_id n = cid"
  seg_tree_split seg_tree_add_loop seg_tree_adjacent "\<lambda>p n. p\<lparr>stn_end := stn_end n\<rparr>"
  seg_tree_coalesce_prev seg_tree_coalesce_next
  for cid
  by unfold_locales
    (use seg_split_law [where val = stn_owned] seg_split_total seg_adjacent_law in
     \<open>auto simp: stn_owned_def seg.loop_eq seg.coalesce_prev_eq seg.coalesce_next_eq\<close>)

interpretation seg_iter: interval_iter stn_start stn_end stn_compare_func
  seg_tree_iter seg_tree_iter_loop seg_tree_clear_loop
  by unfold_locales (rule seg_tree_iter_def seg_tree_iter_loop.simps seg_tree_clear_loop.simps)+

section \<open>Invariant and abstraction\<close>

text \<open>
  The count is the number of nodes, no node ends after the recorded maximum. \<open>seg_log\<close> is what the
  tree means: the log offset of every byte of the file that was written.
\<close>

definition seg_inv :: "seg_tree \<Rightarrow> bool" where
  "seg_inv T \<longleftrightarrow> itree_ok stn_start stn_end (\<lambda>_. True) (st_head T) (st_count T) \<and>
     (\<forall>n \<in> set (rb_inorder (st_head T)). stn_end n \<le> st_max T)"

definition seg_log :: "seg_tree \<Rightarrow> u64 \<Rightarrow> u64 option" where
  "seg_log T = tree_lookup stn_start stn_end stn_offset (st_head T)"

definition seg_owner :: "seg_tree \<Rightarrow> u64 \<Rightarrow> (int \<times> u64) option" where
  "seg_owner T = tree_lookup stn_start stn_end stn_owned (st_head T)"

lemma seg_inv_iff:
  "seg_inv T \<longleftrightarrow> itree_ok stn_start stn_end (\<lambda>_. True) (st_head T) (st_count T) \<and>
     (\<forall>b. seg_log T b \<noteq> None \<longrightarrow> b \<le> st_max T)"
  unfolding seg_inv_def seg_log_def
  using ivl_bound_iff [of stn_start stn_end "rb_inorder (st_head T)" "st_max T" stn_offset] itree_okD(2)
  by blast

lemma seg_invD:
  assumes "seg_inv T"
  shows "itree_ok stn_start stn_end (\<lambda>_. True) (st_head T) (st_count T)"
    "ivl_ok stn_start stn_end (rb_inorder (st_head T))" "distinct (rb_inorder (st_head T))"
    "rb_ok (st_head T)" "seg_log T b \<noteq> None \<Longrightarrow> b \<le> st_max T"
proof -
  show ok: "itree_ok stn_start stn_end (\<lambda>_. True) (st_head T) (st_count T)"
    and "seg_log T b \<noteq> None \<Longrightarrow> b \<le> st_max T"
    using assms unfolding seg_inv_iff by blast+
  show "ivl_ok stn_start stn_end (rb_inorder (st_head T))" "distinct (rb_inorder (st_head T))"
    "rb_ok (st_head T)"
    by (rule itree_okD [OF ok])+
qed

lemma seg_inv_init [simp]: "seg_inv seg_tree_init"
  by (simp add: seg_inv_def seg_tree_init_def)

lemma seg_log_init [simp]: "seg_log seg_tree_init b = None"
  by (simp add: seg_log_def seg_tree_init_def)

lemma seg_add_core:
  assumes "seg.add_core al \<lparr>stn_start = s, stn_end = e, stn_ptr = p, stn_client_id = c\<rparr>
      (st_head T) (st_count T) = Some (rc, h, k)" "al 0"
  shows "seg_tree_add al T s e p c = Some (rc, if rc = UNIFYFS_SUCCESS
      then \<lparr>st_head = h, st_count = k, st_max = max (st_max T) e\<rparr> else T\<lparr>st_head := h, st_count := k\<rparr>)"
proof -
  let ?x = "\<lparr>stn_start = s, stn_end = e, stn_ptr = p, stn_client_id = c\<rparr>"
  obtain rc1 h1 k1 where l: "seg_tree_add_loop al ?x 1 (st_head T) (st_count T) = Some (rc1, h1, k1)"
    using assms(1) by (auto simp: seg.add_core_def bind_eq_Some_conv)
  show ?thesis
  proof (cases "rc1 = UNIFYFS_SUCCESS")
    case True
    obtain h2 k2 y h3 k3 z where "seg_tree_coalesce_prev h1 (k1 + 1) ?x = Some (h2, k2, y)"
      "seg_tree_coalesce_next h2 k2 y = Some (h3, k3, z)"
      using assms(1) l True by (auto simp: seg.add_core_def bind_eq_Some_conv)
    then show ?thesis using assms l True
      by (simp add: seg_tree_add_def seg_tree_node_alloc_def seg.add_core_def)
  next
    case False
    then show ?thesis using assms l
      by (simp add: seg_tree_add_def seg_tree_node_alloc_def seg.add_core_def)
  qed
qed

lemma seg_add_cases:
  assumes inv: "seg_inv T" and se: "s \<le> e"
  obtains (success) T' where "seg_tree_add al T s e p c = Some (UNIFYFS_SUCCESS, T')" "seg_inv T'"
      "seg_log T' = overwrite s e (\<lambda>b. p + (b - s)) (seg_log T)" "st_max T' = max (st_max T) e"
  | (nomem) T' where "seg_tree_add al T s e p c = Some (ENOMEM, T')" "seg_inv T'" "\<not> (\<forall>j. al j)"
      "partly_erased s e (seg_log T) (seg_log T')" "st_max T' = st_max T"
proof (cases "al 0")
  case False
  then show thesis using nomem [of T] inv by (auto simp: seg_tree_add_def seg_tree_node_alloc_def)
next
  case True
  let ?x = "\<lparr>stn_start = s, stn_end = e, stn_ptr = p, stn_client_id = c\<rparr>"
  have off: "stn_offset ?x = (\<lambda>b. p + (b - s))" by (simp add: stn_offset_def fun_eq_iff)
  obtain rc h k where core: "seg.add_core al ?x (st_head T) (st_count T) = Some (rc, h, k)"
    and ok: "itree_ok stn_start stn_end (\<lambda>_. True) h k" and all: "(\<forall>j. al j) \<longrightarrow> rc = UNIFYFS_SUCCESS"
    and res: "rc = UNIFYFS_SUCCESS \<and> tree_lookup stn_start stn_end stn_offset h =
          overwrite s e (\<lambda>b. p + (b - s)) (seg_log T) \<or>
        rc = ENOMEM \<and> partly_erased s e (seg_log T) (tree_lookup stn_start stn_end stn_offset h)"
    using seg.add_core_spec [OF seg_invD(1) [OF inv], of ?x al] se off by (auto simp: seg_log_def)
  note add = seg_add_core [OF core True]
  from res show thesis
  proof (elim disjE conjE)
    assume r: "rc = UNIFYFS_SUCCESS"
      "tree_lookup stn_start stn_end stn_offset h = overwrite s e (\<lambda>b. p + (b - s)) (seg_log T)"
    let ?T = "\<lparr>st_head = h, st_count = k, st_max = max (st_max T) e\<rparr>"
    have "seg_inv ?T" using ok r(2) seg_invD(5) [OF inv]
      by (auto simp: seg_inv_iff seg_log_def overwrite_def le_max_iff_disj split: if_splits)
    then show thesis using success [of ?T] add r by (simp add: seg_log_def)
  next
    assume r: "rc = ENOMEM" "partly_erased s e (seg_log T) (tree_lookup stn_start stn_end stn_offset h)"
    let ?T = "T\<lparr>st_head := h, st_count := k\<rparr>"
    have "seg_inv ?T" using ok partly_erased_dom [OF r(2)] seg_invD(5) [OF inv]
      by (auto simp: seg_inv_iff seg_log_def)
    then show thesis using nomem [of ?T] add r all by (auto simp: seg_log_def)
  qed
qed

lemma seg_add_success:
  assumes "seg_inv T" "s \<le> e" "\<And>j. al j"
  shows "\<exists>T'. seg_tree_add al T s e p c = Some (UNIFYFS_SUCCESS, T') \<and> seg_inv T' \<and>
     seg_log T' = overwrite s e (\<lambda>b. p + (b - s)) (seg_log T)"
  by (rule seg_add_cases [OF assms(1,2), of al p c]) (use assms(3) in auto)

lemma seg_find_first:
  assumes "seg_inv T"
  shows "seg_tree_find_nolock True T s e =
     List.find (ivl_overlaps stn_start stn_end s e) (rb_inorder (st_head T))"
  using find_first_overlap [OF seg_invD(2) [OF assms], of e s]
    seg.interval_nfind [OF seg_invD(2) [OF assms], of "\<lparr>stn_start = s, stn_end = s, stn_ptr = 0, stn_client_id = 0\<rparr>" s]
  by (simp add: seg_tree_find_nolock_def seg_tree_node_alloc_def)

text \<open>Replacing the fields of a linked node, and unlinking it.\<close>

lemma seg_assign:
  assumes inv: "seg_inv T" and c: "rb_inorder (st_head T) = as @ c # bs"
    and p: "stn_start c \<le> stn_start p" "stn_end p \<le> stn_end c" "stn_start p \<le> stn_end p"
      "stn_offset p = stn_offset c"
  shows "seg_inv (T\<lparr>st_head := rb_assign (st_head T) c p\<rparr>)"
    and "seg_log (T\<lparr>st_head := rb_assign (st_head T) c p\<rparr>) = (\<lambda>b.
      if stn_start c \<le> b \<and> b \<le> stn_end c \<and> \<not> (stn_start p \<le> b \<and> b \<le> stn_end p) then None else seg_log T b)"
proof -
  note invD = seg_invD [OF inv]
  have ivl: "ivl_ok stn_start stn_end (as @ c # bs)" using invD(2) c by simp
  have new: "rb_inorder (rb_assign (st_head T) c p) = as @ [p] @ bs"
    using inorder_assign [OF c invD(3)] by simp
  have ok: "ivl_ok stn_start stn_end (as @ [p] @ bs)"
    by (rule ivl_replace_ok [OF ivl]) (use p in \<open>auto simp: ivl_ok_Cons\<close>)
  show log: "seg_log (T\<lparr>st_head := rb_assign (st_head T) c p\<rparr>) = (\<lambda>b.
      if stn_start c \<le> b \<and> b \<le> stn_end c \<and> \<not> (stn_start p \<le> b \<and> b \<le> stn_end p) then None else seg_log T b)"
  proof
    fix b
    have "stn_start c \<le> b \<and> b \<le> stn_end c \<Longrightarrow> seg_log T b = Some (stn_offset c b)"
      using ivl_lookup_in [OF ivl, of c b stn_offset] c by (simp add: seg_log_def)
    then show "seg_log (T\<lparr>st_head := rb_assign (st_head T) c p\<rparr>) b =
      (if stn_start c \<le> b \<and> b \<le> stn_end c \<and> \<not> (stn_start p \<le> b \<and> b \<le> stn_end p) then None else seg_log T b)"
      using ivl_replace_lookup [OF ivl ok, of stn_offset b] p new c by (simp add: seg_log_def)
  qed
  show "seg_inv (T\<lparr>st_head := rb_assign (st_head T) c p\<rparr>)"
    using invD(1,5) ok new c log by (auto simp: seg_inv_iff itree_ok_def)
qed

lemma seg_unlink:
  assumes inv: "seg_inv T" and c: "rb_inorder (st_head T) = as @ c # bs"
  shows "\<exists>h. RB_REMOVE (st_head T) c = Some h \<and> seg_inv (T\<lparr>st_head := h, st_count := st_count T - 1\<rparr>) \<and>
     seg_log (T\<lparr>st_head := h, st_count := st_count T - 1\<rparr>) = erase (stn_start c) (stn_end c) (seg_log T)"
proof -
  note invD = seg_invD [OF inv]
  have ivl: "ivl_ok stn_start stn_end (as @ c # bs)" using invD(2) c by simp
  obtain h where h: "RB_REMOVE (st_head T) c = Some h" "rb_ok h" "rb_inorder h = as @ [] @ bs"
    using RB_REMOVE_spec [OF invD(4) c invD(3)] by auto
  have ok: "ivl_ok stn_start stn_end (as @ [] @ bs)"
    by (rule ivl_replace_ok [OF ivl]) auto
  have log: "seg_log (T\<lparr>st_head := h, st_count := st_count T - 1\<rparr>) = erase (stn_start c) (stn_end c) (seg_log T)"
    using ivl_replace_lookup [OF ivl ok, of stn_offset] h c by (auto simp: seg_log_def erase_def)
  have "itree_ok stn_start stn_end (\<lambda>_. True) h (st_count T - 1)"
    using invD(1) h ok c by (auto simp: itree_ok_def)
  then show ?thesis using h(1) log invD(5) by (auto simp: seg_inv_iff erase_def)
qed

section \<open>Removing a range\<close>

lemma seg_remove_iteration:
  assumes inv: "seg_inv T" and se: "s \<le> e" and al: "al j 0" "e = - 1 \<or> (\<forall>j i. al j i)"
    and f: "seg_tree_find_nolock True T s e = Some c"
  shows "\<exists>T'. seg_tree_remove_loop al s e j T = seg_tree_remove_loop al s e (j + 1) T' \<and> seg_inv T' \<and>
     seg_log T' = erase (max s (stn_start c)) (min e (stn_end c)) (seg_log T)"
proof -
  note invD = seg_invD [OF inv]
  have mem: "c \<in> set (rb_inorder (st_head T))" "stn_start c \<le> e" "s \<le> stn_end c"
    using f seg_find_first [OF inv] by (auto simp: find_Some_iff ivl_overlaps_def)
  then obtain as bs where c: "rb_inorder (st_head T) = as @ c # bs" using split_list by metis
  have le: "stn_start c \<le> stn_end c" using ivl_ok_nonempty [OF invD(2) mem(1)] .
  have head: "seg_tree_find_nolock (al j 0) T s e = Some c" using f al(1) by simp
  note loop = seg_tree_remove_loop.simps [of al s e j T, unfolded head option.case]
  consider (all) "s \<le> stn_start c" "stn_end c \<le> e" | (tail) "s \<le> stn_start c" "e < stn_end c"
    | (front) "stn_start c < s" "stn_end c \<le> e" | (split) "stn_start c < s" "e < stn_end c"
    by force
  then show ?thesis
  proof cases
    case all
    then show ?thesis using seg_unlink [OF inv c] loop by (auto simp: max_def min_def)
  next
    case tail
    let ?p = "c\<lparr>stn_ptr := stn_ptr c + (e + 1 - stn_start c), stn_start := e + 1\<rparr>"
    have p: "stn_start c \<le> stn_start ?p" "stn_end ?p \<le> stn_end c" "stn_start ?p \<le> stn_end ?p"
      "stn_offset ?p = stn_offset c"
      using tail u64_less_succ [OF tail(2)] mem(2) by (auto simp: stn_offset_def u64_succ_le fun_eq_iff)
    note asg = seg_assign [OF inv c p]
    have "seg_log (T\<lparr>st_head := rb_assign (st_head T) c ?p\<rparr>) = erase (max s (stn_start c)) (min e (stn_end c)) (seg_log T)"
      unfolding asg(2) using tail by (auto simp: erase_def max_def min_def u64_succ_le fun_eq_iff)
    then show ?thesis using asg(1) loop tail by auto
  next
    case front
    let ?p = "c\<lparr>stn_end := s - 1\<rparr>"
    have p: "stn_start c \<le> stn_start ?p" "stn_end ?p \<le> stn_end c" "stn_start ?p \<le> stn_end ?p"
      "stn_offset ?p = stn_offset c"
      using front u64_pred_less [OF front(1)] mem(3) by (auto simp: stn_offset_def u64_le_pred fun_eq_iff)
    note asg = seg_assign [OF inv c p]
    have "seg_log (T\<lparr>st_head := rb_assign (st_head T) c ?p\<rparr>) = erase (max s (stn_start c)) (min e (stn_end c)) (seg_log T)"
      unfolding asg(2) using front by (auto simp: erase_def max_def min_def u64_le_pred fun_eq_iff)
    then show ?thesis using asg(1) loop front by auto
  next
    case split
    let ?p = "c\<lparr>stn_end := s - 1\<rparr>"
    let ?T = "T\<lparr>st_head := rb_assign (st_head T) c ?p\<rparr>"
    have p: "stn_start c \<le> stn_start ?p" "stn_end ?p \<le> stn_end c" "stn_start ?p \<le> stn_end ?p"
      "stn_offset ?p = stn_offset c"
      using split u64_pred_less [OF split(1)] mem(3) by (auto simp: stn_offset_def u64_le_pred fun_eq_iff)
    note asg = seg_assign [OF inv c p]
    have "e + 1 \<le> stn_end c" using split(2) by (simp add: u64_succ_le)
    moreover have "al j (i + 1)" for i using al(2) split(2) by auto
    ultimately obtain T' where T': "seg_tree_add (\<lambda>i. al j (i + 1)) ?T (e + 1) (stn_end c)
          (stn_ptr c + (e + 1 - stn_start c)) (stn_client_id c) = Some (UNIFYFS_SUCCESS, T')" "seg_inv T'"
        "seg_log T' = overwrite (e + 1) (stn_end c)
           (\<lambda>b. stn_ptr c + (e + 1 - stn_start c) + (b - (e + 1))) (seg_log ?T)"
      using seg_add_success [OF asg(1), of "e + 1" "stn_end c" "\<lambda>i. al j (i + 1)"] by blast
    have "seg_log T b = Some (stn_offset c b)" if "stn_start c \<le> b" "b \<le> stn_end c" for b
      using ivl_lookup_in [OF invD(2) mem(1) that] by (simp add: seg_log_def)
    then have "seg_log T' = erase (max s (stn_start c)) (min e (stn_end c)) (seg_log T)"
      unfolding T'(3) asg(2) using split se
      by (auto simp: erase_def overwrite_def stn_offset_def max_def min_def u64_le_pred u64_succ_le fun_eq_iff)
    then show ?thesis using T'(1,2) loop split by auto
  qed
qed

lemma seg_remove_cases:
  assumes "seg_inv T" "s \<le> e" "e = - 1 \<or> (\<forall>j i. al j i)"
  shows "\<exists>T'. seg_tree_remove_loop al s e j T = Some (UNIFYFS_SUCCESS, T') \<and> seg_inv T' \<and>
     partly_erased s e (seg_log T) (seg_log T') \<and> ((\<forall>j i. al j i) \<longrightarrow> seg_log T' = erase s e (seg_log T))"
  using assms(1)
proof (induction "card {b. s \<le> b \<and> b \<le> e \<and> seg_log T b \<noteq> None}" arbitrary: T j rule: less_induct)
  case less
  note invD = seg_invD [OF less.prems]
  show ?case
  proof (cases "seg_tree_find_nolock (al j 0) T s e")
    case None
    then have "s \<le> b \<Longrightarrow> b \<le> e \<Longrightarrow> seg_log T b = None" if "al j 0" for b
      using that seg_find_first [OF less.prems, of s e] find_overlap_None [of stn_start stn_end s e]
      by (simp add: seg_log_def)
    then have "al j 0 \<Longrightarrow> seg_log T = erase s e (seg_log T)" by (auto simp: erase_def)
    then show ?thesis using less.prems None by (subst seg_tree_remove_loop.simps) auto
  next
    case (Some c)
    then have al0: "al j 0" by (cases "al j 0") (auto simp: seg_tree_find_nolock_def seg_tree_node_alloc_def)
    obtain T' where T': "seg_tree_remove_loop al s e j T = seg_tree_remove_loop al s e (j + 1) T'" "seg_inv T'"
      "seg_log T' = erase (max s (stn_start c)) (min e (stn_end c)) (seg_log T)"
      using seg_remove_iteration [OF less.prems assms(2) al0 assms(3)] Some al0 by auto
    have mem: "c \<in> set (rb_inorder (st_head T))" "stn_start c \<le> e" "s \<le> stn_end c"
      using Some al0 seg_find_first [OF less.prems] by (auto simp: find_Some_iff ivl_overlaps_def)
    let ?b = "max s (stn_start c)"
    have "seg_log T ?b \<noteq> None" "?b \<le> e" "s \<le> ?b"
      using ivl_lookup_in [OF invD(2) mem(1), of ?b stn_offset] mem(2,3) ivl_ok_nonempty [OF invD(2) mem(1)] assms(2)
      by (auto simp: seg_log_def)
    moreover have "seg_log T' ?b = None"
      using mem T'(3) ivl_ok_nonempty [OF invD(2) mem(1)] assms(2) by (auto simp: erase_def)
    moreover have "seg_log T' b \<noteq> None \<Longrightarrow> seg_log T b \<noteq> None" for b
      unfolding T'(3) by (simp add: erase_def split: if_splits)
    ultimately have "{b. s \<le> b \<and> b \<le> e \<and> seg_log T' b \<noteq> None} \<subset> {b. s \<le> b \<and> b \<le> e \<and> seg_log T b \<noteq> None}"
      by (intro psubsetI) blast+
    then have "card {b. s \<le> b \<and> b \<le> e \<and> seg_log T' b \<noteq> None} < card {b. s \<le> b \<and> b \<le> e \<and> seg_log T b \<noteq> None}"
      by (intro psubset_card_mono) auto
    note IH = less.hyps [OF this T'(2), of "j + 1"]
    have "erase s e (seg_log T') = erase s e (seg_log T)" "partly_erased s e (seg_log T) (seg_log T')"
      unfolding T'(3) partly_erased_def by (auto simp: erase_def)
    then show ?thesis using IH T'(1) partly_erased_trans [of s e "seg_log T" "seg_log T'"] by auto
  qed
qed

lemma seg_remove_spec:
  assumes "seg_inv T" "s \<le> e" "\<And>j i. al j i"
  shows "\<exists>T'. seg_tree_remove_loop al s e j T = Some (UNIFYFS_SUCCESS, T') \<and> seg_inv T' \<and>
     seg_log T' = erase s e (seg_log T)"
  using seg_remove_cases [OF assms(1,2), of al j] assms(3) by auto

text \<open>Removing everything from a position on never splits a node, so it needs no memory for a new one.\<close>

lemma seg_remove_tail:
  assumes "seg_inv T"
  shows "\<exists>T'. seg_tree_remove al T s (- 1) = Some (UNIFYFS_SUCCESS, T') \<and> seg_inv T' \<and>
     partly_erased s (- 1) (seg_log T) (seg_log T') \<and> ((\<forall>j i. al j i) \<longrightarrow> seg_log T' = erase s (- 1) (seg_log T))"
  using seg_remove_cases [OF assms, of s "- 1" al 0] by (simp add: seg_tree_remove_def)

lemma seg_clear_spec:
  assumes "seg_inv T"
  shows "\<exists>T'. seg_tree_clear T = Some T' \<and> seg_inv T' \<and> st_head T' = Null \<and> seg_log T' = (\<lambda>_. None) \<and>
     seg_tree_count T' = 0 \<and> (st_head T \<noteq> Null \<longrightarrow> T' = seg_tree_init)"
  using seg_iter.clear_loop_spec [OF seg_invD(4) [OF assms] seg_invD(2) [OF assms]]
    seg_invD(1) [OF assms] assms
  by (auto simp: seg_tree_clear_def seg_tree_init_def seg_inv_def seg_log_def seg_tree_count_def itree_ok_def)

section \<open>Properties\<close>

text \<open>A tree with the one range \<open>[0, 9]\<close> at log offset 100, written by client 1.\<close>

definition seg_example :: seg_tree where
  "seg_example = \<lparr>st_head = Node RB_BLACK Null
       \<lparr>stn_start = 0, stn_end = 9, stn_ptr = 100, stn_client_id = 1\<rparr> Null, st_count = 1, st_max = 9\<rparr>"

lemma seg_example_inv: "seg_inv seg_example"
  by (simp add: seg_example_def seg_inv_def itree_ok_def rb_ok_def ivl_ok_def)

text \<open>
  (C1) Adding a non-empty range to a well-formed segment tree always returns, whatever the
  allocations do, and keeps the tree well formed: balanced, disjoint, the count exact, no range past
  the maximum. If it succeeds, the bytes of the range map to the new log position, all other bytes
  are unchanged, and the maximum is updated. It succeeds when every allocation does; otherwise it
  returns ENOMEM, and then no byte outside the range has changed and a byte inside keeps its old
  log position or is lost.
\<close>

theorem seg_tree_add_refines:
  assumes "seg_inv T" and "s \<le> e"
  shows "\<exists>rc T'. seg_tree_add al T s e p c = Some (rc, T') \<and> seg_inv T' \<and>
     ((\<forall>j. al j) \<longrightarrow> rc = UNIFYFS_SUCCESS) \<and>
     (rc = UNIFYFS_SUCCESS \<and> seg_log T' = overwrite s e (\<lambda>b. p + (b - s)) (seg_log T) \<and>
        seg_tree_max T' = max (seg_tree_max T) e \<or>
      rc = ENOMEM \<and> partly_erased s e (seg_log T) (seg_log T') \<and> seg_tree_max T' = seg_tree_max T)"
  by (rule seg_add_cases [OF assms, of al p c]) (auto simp: seg_tree_max_def)

theorem seg_tree_add_refines_witness:
  "\<exists>rc T'. seg_tree_add (\<lambda>_. True) seg_example 3 4 500 1 = Some (rc, T') \<and>
     rc = UNIFYFS_SUCCESS \<and> seg_log T' 4 = Some 501 \<and> seg_log T' 5 = Some 105"
proof -
  have "(3::u64) \<le> 4" by simp
  from seg_tree_add_refines [OF seg_example_inv this, of "\<lambda>_. True" 500 1] obtain T' where
    "seg_tree_add (\<lambda>_. True) seg_example 3 4 500 1 = Some (UNIFYFS_SUCCESS, T')"
    "seg_log T' = overwrite 3 4 (\<lambda>b. 500 + (b - 3)) (seg_log seg_example)" by auto
  then show ?thesis by (simp add: overwrite_def seg_log_def seg_example_def stn_offset_def)
qed

text \<open>
  When all ranges of the tree were written by one client, as in the tree of a client process,
  adding a range of that client keeps the attribution right: every byte of the new range is owned by
  the client at the new log position, every other byte keeps its owner and its log position.
\<close>

theorem seg_tree_add_owner:
  assumes "seg_inv T" and "s \<le> e" and "\<forall>n \<in> set (rb_inorder (st_head T)). stn_client_id n = c"
  shows "\<exists>T'. seg_tree_add (\<lambda>_. True) T s e p c = Some (UNIFYFS_SUCCESS, T') \<and>
     seg_owner T' = overwrite s e (\<lambda>b. (c, p + (b - s))) (seg_owner T) \<and>
     (\<forall>n \<in> set (rb_inorder (st_head T')). stn_client_id n = c)"
proof -
  let ?x = "\<lparr>stn_start = s, stn_end = e, stn_ptr = p, stn_client_id = c\<rparr>"
  have own: "stn_owned ?x = (\<lambda>b. (c, p + (b - s)))" by (simp add: stn_owned_def stn_offset_def fun_eq_iff)
  have ok: "itree_ok stn_start stn_end (\<lambda>n. stn_client_id n = c) (st_head T) (st_count T)"
    using seg_invD(1) [OF assms(1)] assms(3) by (simp add: itree_ok_def)
  obtain h k where core: "seg_client.add_core (\<lambda>_. True) ?x (st_head T) (st_count T) = Some (UNIFYFS_SUCCESS, h, k)"
    "itree_ok stn_start stn_end (\<lambda>n. stn_client_id n = c) h k"
    "tree_lookup stn_start stn_end stn_owned h = overwrite s e (\<lambda>b. (c, p + (b - s))) (seg_owner T)"
    using seg_client.add_core_spec [OF ok, of ?x "\<lambda>_. True"] assms(2) own by (auto simp: seg_owner_def)
  have "seg.add_core (\<lambda>_. True) ?x (st_head T) (st_count T) = Some (UNIFYFS_SUCCESS, h, k)"
    using core(1) by (simp only: seg.add_core_def seg_client.add_core_def)
  from seg_add_core [OF this] show ?thesis
    using core(2,3) by (simp add: seg_owner_def itree_ok_def)
qed

theorem seg_tree_add_owner_witness:
  "\<exists>T'. seg_tree_add (\<lambda>_. True) seg_example 3 4 500 1 = Some (UNIFYFS_SUCCESS, T') \<and>
     seg_owner T' 3 = Some (1, 500) \<and> seg_owner T' 9 = Some (1, 109)"
proof -
  have "(3::u64) \<le> 4" "\<forall>n \<in> set (rb_inorder (st_head seg_example)). stn_client_id n = 1"
    by (simp_all add: seg_example_def)
  from seg_tree_add_owner [OF seg_example_inv this, of 500] obtain T' where
    "seg_tree_add (\<lambda>_. True) seg_example 3 4 500 1 = Some (UNIFYFS_SUCCESS, T')"
    "seg_owner T' = overwrite 3 4 (\<lambda>b. (1, 500 + (b - 3))) (seg_owner seg_example)" by auto
  then show ?thesis
    by (simp add: overwrite_def seg_owner_def seg_example_def stn_owned_def stn_offset_def)
qed


text \<open>
  (C21) Removing a non-empty range from a well-formed tree terminates and, with memory available,
  succeeds: exactly the bytes of the range become unmapped, and the tree stays well formed.
\<close>

theorem seg_tree_remove_erases:
  assumes "seg_inv T" and "s \<le> e" and "\<forall>j i. al j i"
  shows "\<exists>T'. seg_tree_remove al T s e = Some (UNIFYFS_SUCCESS, T') \<and> seg_inv T' \<and>
     seg_log T' = erase s e (seg_log T)"
  using seg_remove_spec [OF assms(1,2), of al 0] assms(3) by (simp add: seg_tree_remove_def)

theorem seg_tree_remove_erases_witness:
  "\<exists>T'. seg_tree_remove (\<lambda>_ _. True) seg_example 3 4 = Some (UNIFYFS_SUCCESS, T') \<and>
     seg_log T' 3 = None \<and> seg_log T' 5 = Some 105"
proof -
  have "(3::u64) \<le> 4" "\<forall>j i. (\<lambda>_ _. True) (j::nat) (i::nat)" by simp_all
  from seg_tree_remove_erases [OF seg_example_inv this] show ?thesis
    by (auto simp: erase_def seg_log_def seg_example_def stn_offset_def)
qed

text \<open>
  The search returns the overlapping range with the lowest offset: the first node of the tree
  in offset order that overlaps the given range, and nothing when no byte of the range is mapped.
\<close>

theorem seg_tree_find_lowest:
  assumes "seg_inv T"
  shows "case seg_tree_find True T s e of
       None \<Rightarrow> \<forall>b. s \<le> b \<and> b \<le> e \<longrightarrow> seg_log T b = None
     | Some n \<Rightarrow> n \<in> set (rb_inorder (st_head T)) \<and> stn_start n \<le> e \<and> s \<le> stn_end n \<and>
         (\<forall>m \<in> set (rb_inorder (st_head T)). stn_start m \<le> e \<and> s \<le> stn_end m \<longrightarrow> stn_start n \<le> stn_start m)"
proof (cases "seg_tree_find True T s e")
  case None
  then show ?thesis
    using seg_find_first [OF assms, of s e] find_overlap_None [of stn_start stn_end s e]
    by (auto simp: seg_tree_find_def seg_log_def)
next
  case (Some n)
  then have "List.find (ivl_overlaps stn_start stn_end s e) (rb_inorder (st_head T)) = Some n"
    using seg_find_first [OF assms] by (simp add: seg_tree_find_def)
  from find_overlap_lowest [OF seg_invD(2) [OF assms] this] Some show ?thesis
    by (simp add: ivl_overlaps_def)
qed

theorem seg_tree_find_lowest_witness:
  "seg_tree_find True seg_example 5 20 \<noteq> None \<and>
   (case seg_tree_find True seg_example 5 20 of None \<Rightarrow> True | Some n \<Rightarrow> stn_start n \<le> 20)"
  using seg_tree_find_lowest [OF seg_example_inv, of 5 20]
  by (auto simp: seg_log_def seg_example_def split: option.splits)

text \<open>
  The documented iteration loop terminates and visits every range of a well-formed tree exactly
  once, in ascending and non-overlapping order.
\<close>

theorem seg_tree_iter_visits_all:
  assumes "seg_inv T"
  shows "\<exists>ns. seg_tree_iter_loop (st_head T) None = Some ns \<and> set ns = set (rb_inorder (st_head T)) \<and>
     distinct ns \<and> sorted_wrt (\<lambda>m n. stn_end m < stn_start n) ns \<and> seg_tree_count T = of_nat (length ns)"
  using seg_iter.collect_all [OF seg_invD(2) [OF assms]] seg_invD(1-3) [OF assms]
  by (simp add: ivl_ok_def itree_ok_def seg_tree_count_def)

theorem seg_tree_iter_visits_all_witness:
  "\<exists>ns. seg_tree_iter_loop (st_head seg_example) None = Some ns \<and> length ns = 1"
proof -
  obtain ns where ns: "seg_tree_iter_loop (st_head seg_example) None = Some ns" "distinct ns"
    "set ns = set (rb_inorder (st_head seg_example))"
    using seg_tree_iter_visits_all [OF seg_example_inv] by auto
  then show ?thesis using distinct_card [OF ns(2)] by (simp add: seg_example_def)
qed

text \<open>One write recorded in the tree, given as the node it describes.\<close>

definition seg_put :: "seg_tree_node \<Rightarrow> seg_tree \<Rightarrow> seg_tree option" where
  "seg_put w T =
     (case seg_tree_add (\<lambda>_. True) T (stn_start w) (stn_end w) (stn_ptr w) (stn_client_id w) of
        Some (UNIFYFS_SUCCESS, T') \<Rightarrow> Some T'
      | _ \<Rightarrow> None)"

interpretation seg_writes: write_map seg_inv seg_log seg_put "\<lambda>w. stn_start w \<le> stn_end w"
  stn_start stn_end stn_offset
proof
  fix T and w :: seg_tree_node
  assume "seg_inv T" "stn_start w \<le> stn_end w"
  from seg_add_success [OF this, of "\<lambda>_. True" "stn_ptr w" "stn_client_id w"]
  show "\<exists>T'. seg_put w T = Some T' \<and> seg_inv T' \<and>
      seg_log T' = overwrite (stn_start w) (stn_end w) (stn_offset w) (seg_log T)"
    by (auto simp: seg_put_def stn_offset_def [abs_def])
qed

text \<open>
  (C20) After any sequence of non-empty writes recorded in an initially empty tree, every byte maps to
  the log position of the last write that covers it, and bytes never written are not mapped.
\<close>

theorem seg_tree_last_writer:
  assumes "\<forall>w \<in> set ws. stn_start w \<le> stn_end w"
  shows "\<exists>T. add_all seg_put ws seg_tree_init = Some T \<and> seg_inv T \<and>
     (\<forall>b. seg_log T b = last_write stn_start stn_end stn_offset ws b)"
  using seg_writes.last_writer_wins [OF seg_inv_init assms]
  by (simp cong: option.case_cong)

theorem seg_tree_last_writer_witness:
  "\<exists>T. add_all seg_put [\<lparr>stn_start = 0, stn_end = 9, stn_ptr = 0, stn_client_id = 1\<rparr>,
        \<lparr>stn_start = 5, stn_end = 7, stn_ptr = 10, stn_client_id = 1\<rparr>] seg_tree_init = Some T \<and>
     seg_log T 6 = Some 11 \<and> seg_log T 8 = Some 8 \<and> seg_log T 10 = None"
  using seg_tree_last_writer [of "[\<lparr>stn_start = 0, stn_end = 9, stn_ptr = 0, stn_client_id = 1\<rparr>,
        \<lparr>stn_start = 5, stn_end = 7, stn_ptr = 10, stn_client_id = 1\<rparr>]"]
  by (auto simp: stn_offset_def)

end
