(* ===== verification/Extent_Tree.thy ===== *)
theory Extent_Tree
  imports Interval_Tree
begin

text \<open>
  The extent tree of \<^verbatim>\<open>server/src/extent_tree.c\<close>: the server's index from file offsets to the
  server, application, client and log offset that hold the data. It shares the algorithm of the
  segment tree, keeps the owner of split extents, coalesces only extents of the same log, and
  provides truncation and the lookup of the chunks of a read request.

  As for the segment tree, an oracle \<open>al\<close> answers the allocations of a call in order and the
  read-write lock is not part of the state.
\<close>

section \<open>Extents and trees\<close>

record extent_metadata =
  ext_start :: u64
  ext_end :: u64
  ext_log_pos :: u64
  ext_svr_rank :: int
  ext_app_id :: int
  ext_cli_id :: int

record extent_tree =
  et_head :: "extent_metadata rbt"
  et_count :: u64
  et_max :: u64

definition extent_length :: "extent_metadata \<Rightarrow> u64" where
  "extent_length meta = 1 + (ext_end meta - ext_start meta)"

definition etn_compare_func :: "extent_metadata \<Rightarrow> extent_metadata \<Rightarrow> int" where
  "etn_compare_func node1 node2 =
     (if ext_start node1 > ext_end node2 then 1
      else if ext_end node1 < ext_start node2 then - 1
      else 0)"

definition extent_tree_init :: extent_tree where
  "extent_tree_init = \<lparr>et_head = Null, et_count = 0, et_max = 0\<rparr>"

definition extent_tree_node_alloc :: "bool \<Rightarrow> extent_metadata \<Rightarrow> extent_metadata option" where
  "extent_tree_node_alloc ok extent = (if ok then Some extent else None)"

text \<open>\<^term>\<open>None\<close> is the return value 1: range 2 covers range 1.\<close>

definition get_non_overlapping_range :: "u64 \<Rightarrow> u64 \<Rightarrow> u64 \<Rightarrow> u64 \<Rightarrow> (u64 \<times> u64) option" where
  "get_non_overlapping_range start1 end1 start2 end2 =
     (if start1 < start2 then Some (start1, start2 - 1)
      else if end1 > end2 then Some (end2 + 1, end1)
      else None)"

section \<open>Adding an extent\<close>

text \<open>
  What replaces the extent \<open>conflict\<close> in an iteration of the loop: nothing, or its part outside the
  new extent and, if that is its front, also its tail. \<^term>\<open>None\<close> is a failed allocation.
\<close>

definition extent_tree_split ::
  "(nat \<Rightarrow> bool) \<Rightarrow> nat \<Rightarrow> extent_metadata \<Rightarrow> extent_metadata \<Rightarrow> extent_metadata list option" where
  "extent_tree_split al i extent conflict =
     (case get_non_overlapping_range (ext_start conflict) (ext_end conflict) (ext_start extent) (ext_end extent) of
        None \<Rightarrow> Some []
      | Some (new_start, new_end) \<Rightarrow> do {
          non_overlap \<leftarrow> extent_tree_node_alloc (al i)
            \<lparr>ext_start = new_start, ext_end = new_end,
             ext_log_pos = ext_log_pos conflict + (new_start - ext_start conflict),
             ext_svr_rank = ext_svr_rank conflict, ext_app_id = ext_app_id conflict,
             ext_cli_id = ext_cli_id conflict\<rparr>;
          if new_end < ext_end conflict
          then do {
            conflict_tail \<leftarrow> extent_tree_node_alloc (al (i + 1))
              \<lparr>ext_start = new_end + 1, ext_end = ext_end conflict,
               ext_log_pos = ext_log_pos conflict + (new_end + 1 - ext_start conflict),
               ext_svr_rank = ext_svr_rank conflict, ext_app_id = ext_app_id conflict,
               ext_cli_id = ext_cli_id conflict\<rparr>;
            Some [non_overlap, conflict_tail]
          }
          else Some [non_overlap]
        })"

partial_function (option) extent_tree_add_loop ::
  "(nat \<Rightarrow> bool) \<Rightarrow> extent_metadata \<Rightarrow> nat \<Rightarrow> extent_metadata rbt \<Rightarrow> u64
   \<Rightarrow> (unifyfs_rc \<times> extent_metadata rbt \<times> u64) option" where
  "extent_tree_add_loop al node i head count = do {
     (head, conflict) \<leftarrow> RB_INSERT etn_compare_func head node;
     case conflict of
       None \<Rightarrow> Some (UNIFYFS_SUCCESS, head, count)
     | Some conflict \<Rightarrow> (case extent_tree_split al i node conflict of
           None \<Rightarrow> Some (ENOMEM, head, count)
         | Some parts \<Rightarrow> do {
             head \<leftarrow> RB_REMOVE head conflict;
             (head, count) \<leftarrow> rb_insert_all etn_compare_func parts head (count - 1);
             extent_tree_add_loop al node (i + length parts) head count
           })
   }"

definition extent_tree_adjacent :: "extent_metadata \<Rightarrow> extent_metadata \<Rightarrow> bool" where
  "extent_tree_adjacent prev target \<longleftrightarrow>
     ext_end prev + 1 = ext_start target \<and>
     ext_svr_rank prev = ext_svr_rank target \<and>
     ext_cli_id prev = ext_cli_id target \<and>
     ext_app_id prev = ext_app_id target \<and>
     ext_log_pos prev + extent_length prev = ext_log_pos target"

definition extent_tree_coalesce_prev ::
  "extent_metadata rbt \<Rightarrow> u64 \<Rightarrow> extent_metadata \<Rightarrow> (extent_metadata rbt \<times> u64 \<times> extent_metadata) option" where
  "extent_tree_coalesce_prev head count target = do {
     prev \<leftarrow> RB_PREV head target;
     case prev of
       None \<Rightarrow> Some (head, count, target)
     | Some prev \<Rightarrow>
         if extent_tree_adjacent prev target then do {
           head \<leftarrow> RB_REMOVE (rb_assign head prev (prev\<lparr>ext_end := ext_end target\<rparr>)) target;
           Some (head, count - 1, prev\<lparr>ext_end := ext_end target\<rparr>)
         } else Some (head, count, target)
   }"

definition extent_tree_coalesce_next ::
  "extent_metadata rbt \<Rightarrow> u64 \<Rightarrow> extent_metadata \<Rightarrow> (extent_metadata rbt \<times> u64 \<times> extent_metadata) option" where
  "extent_tree_coalesce_next head count target = do {
     next \<leftarrow> RB_NEXT head target;
     case next of
       None \<Rightarrow> Some (head, count, target)
     | Some next \<Rightarrow>
         if extent_tree_adjacent target next then do {
           head \<leftarrow> RB_REMOVE (rb_assign head target (target\<lparr>ext_end := ext_end next\<rparr>)) next;
           Some (head, count - 1, target\<lparr>ext_end := ext_end next\<rparr>)
         } else Some (head, count, target)
   }"

definition extent_tree_add ::
  "(nat \<Rightarrow> bool) \<Rightarrow> extent_tree \<Rightarrow> extent_metadata \<Rightarrow> (unifyfs_rc \<times> extent_tree) option" where
  "extent_tree_add al T extent =
     (case extent_tree_node_alloc (al 0) extent of
        None \<Rightarrow> Some (ENOMEM, T)
      | Some node \<Rightarrow> do {
          (ret, head, count) \<leftarrow> extent_tree_add_loop al node 1 (et_head T) (et_count T);
          if ret \<noteq> UNIFYFS_SUCCESS
          then Some (ret, T\<lparr>et_head := head, et_count := count\<rparr>)
          else do {
            (head, count, target) \<leftarrow> extent_tree_coalesce_prev head (count + 1) node;
            (head, count, target) \<leftarrow> extent_tree_coalesce_next head count target;
            Some (UNIFYFS_SUCCESS,
                  \<lparr>et_head = head, et_count = count, et_max = max (et_max T) (ext_end extent)\<rparr>)
          }
        })"

section \<open>Search, iteration, truncation\<close>

definition extent_tree_find :: "bool \<Rightarrow> extent_tree \<Rightarrow> u64 \<Rightarrow> u64 \<Rightarrow> extent_metadata option" where
  "extent_tree_find ok T start end =
     (case extent_tree_node_alloc ok
             \<lparr>ext_start = start, ext_end = start, ext_log_pos = 0, ext_svr_rank = 0, ext_app_id = 0, ext_cli_id = 0\<rparr> of
        None \<Rightarrow> None
      | Some node \<Rightarrow> (case RB_NFIND etn_compare_func (et_head T) node of
            None \<Rightarrow> None
          | Some next \<Rightarrow> if ext_start next \<le> end then Some next else None))"

definition extent_tree_iter ::
  "extent_metadata rbt \<Rightarrow> extent_metadata option \<Rightarrow> extent_metadata option option" where
  "extent_tree_iter head start =
     (case start of
        None \<Rightarrow> Some (RB_MIN head)
      | Some start \<Rightarrow> (case RB_FIND etn_compare_func head start of
            None \<Rightarrow> Some None
          | Some next \<Rightarrow> RB_NEXT head start))"

text \<open>The loop in which \<^verbatim>\<open>extent_tree_iter\<close> is meant to be called; it gathers the nodes it visits.\<close>

partial_function (option) extent_tree_iter_loop ::
  "extent_metadata rbt \<Rightarrow> extent_metadata option \<Rightarrow> extent_metadata list option" where
  "extent_tree_iter_loop head node = do {
     node \<leftarrow> extent_tree_iter head node;
     case node of
       None \<Rightarrow> Some []
     | Some node \<Rightarrow> do { nodes \<leftarrow> extent_tree_iter_loop head (Some node); Some (node # nodes) }
   }"

partial_function (option) extent_tree_clear_loop ::
  "extent_metadata rbt \<Rightarrow> extent_metadata option \<Rightarrow> extent_metadata option \<Rightarrow> extent_metadata rbt option" where
  "extent_tree_clear_loop head node oldnode = do {
     node \<leftarrow> extent_tree_iter head node;
     head \<leftarrow> (case oldnode of None \<Rightarrow> Some head | Some oldnode \<Rightarrow> RB_REMOVE head oldnode);
     case node of
       None \<Rightarrow> Some head
     | Some node \<Rightarrow> extent_tree_clear_loop head (Some node) (Some node)
   }"

definition extent_tree_clear :: "extent_tree \<Rightarrow> extent_tree option" where
  "extent_tree_clear T =
     (if et_head T = Null then Some T
      else do {
        head \<leftarrow> extent_tree_clear_loop (et_head T) None None;
        Some \<lparr>et_head = head, et_count = 0, et_max = 0\<rparr>
      })"

definition extent_tree_destroy :: "extent_tree \<Rightarrow> extent_tree option" where
  "extent_tree_destroy T = extent_tree_clear T"

definition extent_tree_count :: "extent_tree \<Rightarrow> u64" where
  "extent_tree_count T = et_count T"

definition extent_tree_max_offset :: "extent_tree \<Rightarrow> u64" where
  "extent_tree_max_offset T = et_max T"

text \<open>
  The loop of \<^verbatim>\<open>extent_tree_truncate\<close>, backwards from the last extent. \<open>dbg\<close> says whether debug
  messages are logged: the message about a removed node prints the fields of its predecessor, which
  is a null dereference when there is none. The last component of the result is the final \<^verbatim>\<open>node\<close>.
\<close>

partial_function (option) extent_tree_truncate_loop ::
  "bool \<Rightarrow> u64 \<Rightarrow> extent_metadata rbt \<Rightarrow> u64 \<Rightarrow> extent_metadata option
   \<Rightarrow> (extent_metadata rbt \<times> u64 \<times> extent_metadata option) option" where
  "extent_tree_truncate_loop dbg trunc_size head count node =
     (case node of
        None \<Rightarrow> Some (head, count, None)
      | Some n \<Rightarrow>
          if ext_end n \<ge> trunc_size then
            if ext_start n \<ge> trunc_size then do {
              prev \<leftarrow> RB_PREV head n;
              if dbg \<and> prev = None then None
              else do {
                head \<leftarrow> RB_REMOVE head n;
                extent_tree_truncate_loop dbg trunc_size head (count - 1) prev
              }
            }
            else Some (rb_assign head n (n\<lparr>ext_end := trunc_size - 1\<rparr>), count, Some (n\<lparr>ext_end := trunc_size - 1\<rparr>))
          else Some (head, count, Some n))"

definition extent_tree_truncate :: "bool \<Rightarrow> extent_tree \<Rightarrow> u64 \<Rightarrow> (unifyfs_rc \<times> extent_tree) option" where
  "extent_tree_truncate dbg T trunc_size =
     (if trunc_size = 0 then do { T \<leftarrow> extent_tree_clear T; Some (UNIFYFS_SUCCESS, T) }
      else do {
        (head, count, node) \<leftarrow> extent_tree_truncate_loop dbg trunc_size (et_head T) (et_count T) (RB_MAX (et_head T));
        Some (UNIFYFS_SUCCESS,
          \<lparr>et_head = head, et_count = count, et_max = (case node of Some n \<Rightarrow> ext_end n | None \<Rightarrow> 0)\<rparr>)
      })"

section \<open>Chunks of a read request\<close>

record chunk_read_req =
  crr_gfid :: int
  crr_nbytes :: u64
  crr_offset :: u64
  crr_log_offset :: u64
  crr_log_app_id :: int
  crr_log_client_id :: int
  crr_rank :: int

text \<open>The file id of the chunk is not assigned: the array of chunks was zeroed by \<^verbatim>\<open>calloc\<close>.\<close>

definition chunk_req_from_extent :: "u64 \<Rightarrow> u64 \<Rightarrow> extent_metadata \<Rightarrow> chunk_read_req" where
  "chunk_req_from_extent req_offset req_len n =
     (let offset = ext_start n;
          nbytes = ext_end n - ext_start n + 1;
          log_offset = ext_log_pos n;
          last = req_offset + req_len - 1;
          (offset, log_offset, nbytes) =
            (if offset < req_offset
             then (req_offset, log_offset + (req_offset - offset), nbytes - (req_offset - offset))
             else (offset, log_offset, nbytes));
          nbytes = (if ext_end n > last then nbytes - (ext_end n - last) else nbytes)
      in \<lparr>crr_gfid = 0, crr_nbytes = nbytes, crr_offset = offset, crr_log_offset = log_offset,
          crr_log_app_id = ext_app_id n, crr_log_client_id = ext_cli_id n, crr_rank = ext_svr_rank n\<rparr>)"

text \<open>
  \<^verbatim>\<open>extent_tree_get_chunk_list\<close>. The first loop counts the extents and looks for gaps; its result is
  the count, the gap flag and the last extent. The second loop fills the chunk array.
\<close>

partial_function (option) extent_tree_count_loop ::
  "extent_metadata rbt \<Rightarrow> u64 \<Rightarrow> extent_metadata option \<Rightarrow> u32 \<Rightarrow> u64 \<Rightarrow> bool
   \<Rightarrow> extent_metadata option \<Rightarrow> extent_metadata option \<Rightarrow> (u32 \<times> bool \<times> extent_metadata option) option" where
  "extent_tree_count_loop head end first count prev_end gap_found last_ext next =
     (case next of
        None \<Rightarrow> Some (count, gap_found, last_ext)
      | Some n \<Rightarrow>
          if ext_start n \<le> end then do {
            next' \<leftarrow> extent_tree_iter head (Some n);
            extent_tree_count_loop head end first (count + 1)
              (if gap_found then prev_end else ext_end n)
              (gap_found \<or> (first \<noteq> Some n \<and> prev_end + 1 \<noteq> ext_start n)) (Some n) next'
          }
          else Some (count, gap_found, last_ext))"

partial_function (option) extent_tree_chunk_loop ::
  "extent_metadata rbt \<Rightarrow> u64 \<Rightarrow> u64 \<Rightarrow> u64 \<Rightarrow> extent_metadata option \<Rightarrow> chunk_read_req list option" where
  "extent_tree_chunk_loop head offset len end next =
     (case next of
        None \<Rightarrow> Some []
      | Some n \<Rightarrow>
          if ext_start n \<le> end then do {
            next' \<leftarrow> extent_tree_iter head (Some n);
            chunks \<leftarrow> extent_tree_chunk_loop head offset len end next';
            Some (chunk_req_from_extent offset len n # chunks)
          }
          else Some [])"

text \<open>
  The result is the return code, \<^verbatim>\<open>n_chunks\<close>, the chunk array if one was returned, and
  \<^verbatim>\<open>extent_covered\<close>. The allocations are the search node and the chunk array.
\<close>

definition extent_tree_get_chunk_list ::
  "(nat \<Rightarrow> bool) \<Rightarrow> extent_tree \<Rightarrow> u64 \<Rightarrow> u64
   \<Rightarrow> (unifyfs_rc \<times> u32 \<times> chunk_read_req list option \<times> bool) option" where
  "extent_tree_get_chunk_list al T offset len =
     (let end = offset + len - 1;
          first = extent_tree_find (al 0) T offset end
      in do {
        (count, gap_found, last) \<leftarrow> extent_tree_count_loop (et_head T) end first 0 0 False None first;
        if count = 0 then Some (UNIFYFS_SUCCESS, 0, None, False)
        else do {
          first_ext \<leftarrow> first;
          last_ext \<leftarrow> last;
          let gap_found = (gap_found \<or> ext_start first_ext > offset \<or> ext_end last_ext < end) in
          if \<not> al 1 then Some (ENOMEM, count, None, \<not> gap_found)
          else do {
            chunks \<leftarrow> extent_tree_chunk_loop (et_head T) offset len end first;
            Some (UNIFYFS_SUCCESS, count, Some chunks, \<not> gap_found)
          }
        }
      })"

lemmas extent_tree_loop_code [code] =
  extent_tree_add_loop.simps extent_tree_iter_loop.simps extent_tree_clear_loop.simps
  extent_tree_truncate_loop.simps extent_tree_count_loop.simps extent_tree_chunk_loop.simps

section \<open>The interval algorithm\<close>

text \<open>Where the byte \<open>b\<close> of an extent is: server, application, client and log offset.\<close>

definition ext_place :: "extent_metadata \<Rightarrow> u64 \<Rightarrow> int \<times> int \<times> int \<times> u64" where
  "ext_place n b =
     (ext_svr_rank n, ext_app_id n, ext_cli_id n, ext_log_pos n + (b - ext_start n))"

lemma ext_split_law:
  assumes sp: "extent_tree_split al i x c = Some ps"
    and x: "ext_start x \<le> ext_end x" and c: "ext_start c \<le> ext_end c"
    and ov: "ivl_overlaps ext_start ext_end (ext_start x) (ext_end x) c"
  shows "split_ok ext_start ext_end ext_place (ext_start x) (ext_end x) c ps"
proof (cases "ext_start c < ext_start x")
  case True
  have "ext_start x - 1 < ext_end c"
    using u64_pred_less [OF True] ov by (auto simp: ivl_overlaps_def)
  then show ?thesis
    using sp True x ov
    by (auto simp: extent_tree_split_def get_non_overlapping_range_def extent_tree_node_alloc_def ext_place_def
        ivl_overlaps_def split: if_splits bind_splits intro!: split_ok_front)
next
  case False
  then show ?thesis
    using sp x c ov
    by (auto simp: extent_tree_split_def get_non_overlapping_range_def extent_tree_node_alloc_def ext_place_def
        ivl_overlaps_def not_less split: if_splits bind_splits intro!: split_ok_tail split_ok_none)
qed

lemma ext_split_total: "(\<And>j. al j) \<Longrightarrow> extent_tree_split al i x c \<noteq> None"
  by (auto simp: extent_tree_split_def extent_tree_node_alloc_def split: option.splits bind_splits)

lemma ext_adjacent_law:
  assumes "extent_tree_adjacent p n"
  shows "ext_end p + 1 = ext_start n" "ext_place (p\<lparr>ext_end := ext_end n\<rparr>) b = ext_place p b"
    "ext_place (p\<lparr>ext_end := ext_end n\<rparr>) b = ext_place n b"
proof -
  have "ext_start n = ext_end p + 1" "ext_log_pos n = ext_log_pos p + (1 + (ext_end p - ext_start p))"
    using assms by (simp_all add: extent_tree_adjacent_def extent_length_def)
  then show "ext_end p + 1 = ext_start n" "ext_place (p\<lparr>ext_end := ext_end n\<rparr>) b = ext_place p b"
    "ext_place (p\<lparr>ext_end := ext_end n\<rparr>) b = ext_place n b"
    using assms by (simp_all add: ext_place_def extent_tree_adjacent_def)
qed

interpretation ext: interval_tree ext_start ext_end etn_compare_func ext_place "\<lambda>_. True"
  extent_tree_split extent_tree_add_loop extent_tree_adjacent "\<lambda>p n. p\<lparr>ext_end := ext_end n\<rparr>"
  extent_tree_coalesce_prev extent_tree_coalesce_next
proof unfold_locales
  show "etn_compare_func x y =
      (if ext_end y < ext_start x then 1 else if ext_end x < ext_start y then - 1 else 0)" for x y
    by (simp add: etn_compare_func_def)
  show "extent_tree_add_loop al x i t k = do {
        (t, conflict) \<leftarrow> RB_INSERT etn_compare_func t x;
        case conflict of
          None \<Rightarrow> Some (UNIFYFS_SUCCESS, t, k)
        | Some c \<Rightarrow> (case extent_tree_split al i x c of
              None \<Rightarrow> Some (ENOMEM, t, k)
            | Some ps \<Rightarrow> do {
                t \<leftarrow> RB_REMOVE t c;
                (t, k) \<leftarrow> rb_insert_all etn_compare_func ps t (k - 1);
                extent_tree_add_loop al x (i + length ps) t k
              })
      }" for al x i t k
    by (rule extent_tree_add_loop.simps)
qed (use ext_split_law ext_split_total ext_adjacent_law in
     \<open>auto simp: extent_tree_coalesce_prev_def extent_tree_coalesce_next_def\<close>)

interpretation ext_iter: interval_iter ext_start ext_end etn_compare_func
  extent_tree_iter extent_tree_iter_loop extent_tree_clear_loop
  by unfold_locales (rule extent_tree_iter_def extent_tree_iter_loop.simps extent_tree_clear_loop.simps)+

section \<open>Invariant and abstraction\<close>

text \<open>
  \<open>ext_map\<close> is what the tree means: the place of every byte of the file. \<open>ext_exact\<close> says that the
  recorded maximum is the last mapped byte; it can be lost only when an allocation fails.
\<close>

definition ext_inv :: "extent_tree \<Rightarrow> bool" where
  "ext_inv T \<longleftrightarrow> itree_ok ext_start ext_end (\<lambda>_. True) (et_head T) (et_count T) \<and>
     (\<forall>n \<in> set (rb_inorder (et_head T)). ext_end n \<le> et_max T)"

definition ext_map :: "extent_tree \<Rightarrow> u64 \<Rightarrow> (int \<times> int \<times> int \<times> u64) option" where
  "ext_map T = tree_lookup ext_start ext_end ext_place (et_head T)"

definition ext_exact :: "extent_tree \<Rightarrow> bool" where
  "ext_exact T \<longleftrightarrow> ext_map T (et_max T) \<noteq> None \<or> et_head T = Null \<and> et_max T = 0"

lemma ext_inv_iff:
  "ext_inv T \<longleftrightarrow> itree_ok ext_start ext_end (\<lambda>_. True) (et_head T) (et_count T) \<and>
     (\<forall>b. ext_map T b \<noteq> None \<longrightarrow> b \<le> et_max T)"
  unfolding ext_inv_def ext_map_def
  using ivl_bound_iff [of ext_start ext_end "rb_inorder (et_head T)" "et_max T" ext_place] itree_okD(2)
  by blast

lemma ext_invD:
  assumes "ext_inv T"
  shows "itree_ok ext_start ext_end (\<lambda>_. True) (et_head T) (et_count T)"
    "ivl_ok ext_start ext_end (rb_inorder (et_head T))" "distinct (rb_inorder (et_head T))"
    "rb_ok (et_head T)" "ext_map T b \<noteq> None \<Longrightarrow> b \<le> et_max T"
proof -
  show ok: "itree_ok ext_start ext_end (\<lambda>_. True) (et_head T) (et_count T)"
    and "ext_map T b \<noteq> None \<Longrightarrow> b \<le> et_max T"
    using assms unfolding ext_inv_iff by blast+
  show "ivl_ok ext_start ext_end (rb_inorder (et_head T))" "distinct (rb_inorder (et_head T))"
    "rb_ok (et_head T)"
    by (rule itree_okD [OF ok])+
qed

lemma ext_init [simp]: "ext_inv extent_tree_init" "ext_exact extent_tree_init" "ext_map extent_tree_init b = None"
  by (simp_all add: ext_inv_def ext_exact_def ext_map_def extent_tree_init_def)

lemma ext_add_core:
  assumes "ext.add_core al x (et_head T) (et_count T) = Some (rc, h, k)" "al 0"
  shows "extent_tree_add al T x = Some (rc, if rc = UNIFYFS_SUCCESS
      then \<lparr>et_head = h, et_count = k, et_max = max (et_max T) (ext_end x)\<rparr> else T\<lparr>et_head := h, et_count := k\<rparr>)"
  using assms
  by (auto simp: extent_tree_add_def extent_tree_node_alloc_def ext.add_core_def bind_eq_Some_conv split: if_splits)

lemma ext_add_cases:
  assumes inv: "ext_inv T" and se: "ext_start x \<le> ext_end x"
  obtains (success) T' where "extent_tree_add al T x = Some (UNIFYFS_SUCCESS, T')" "ext_inv T'"
      "ext_map T' = overwrite (ext_start x) (ext_end x) (ext_place x) (ext_map T)"
      "et_max T' = max (et_max T) (ext_end x)"
  | (nomem) T' where "extent_tree_add al T x = Some (ENOMEM, T')" "ext_inv T'" "\<not> (\<forall>j. al j)"
      "partly_erased (ext_start x) (ext_end x) (ext_map T) (ext_map T')" "et_max T' = et_max T"
proof (cases "al 0")
  case False
  then show thesis using nomem [of T] inv by (auto simp: extent_tree_add_def extent_tree_node_alloc_def)
next
  case True
  obtain rc h k where core: "ext.add_core al x (et_head T) (et_count T) = Some (rc, h, k)"
    and ok: "itree_ok ext_start ext_end (\<lambda>_. True) h k" and all: "(\<forall>j. al j) \<longrightarrow> rc = UNIFYFS_SUCCESS"
    and res: "rc = UNIFYFS_SUCCESS \<and> tree_lookup ext_start ext_end ext_place h =
          overwrite (ext_start x) (ext_end x) (ext_place x) (ext_map T) \<or>
        rc = ENOMEM \<and> partly_erased (ext_start x) (ext_end x) (ext_map T) (tree_lookup ext_start ext_end ext_place h)"
    using ext.add_core_spec [OF ext_invD(1) [OF inv] se, of al] by (auto simp: ext_map_def)
  note add = ext_add_core [OF core True]
  from res show thesis
  proof (elim disjE conjE)
    assume r: "rc = UNIFYFS_SUCCESS"
      "tree_lookup ext_start ext_end ext_place h = overwrite (ext_start x) (ext_end x) (ext_place x) (ext_map T)"
    let ?T = "\<lparr>et_head = h, et_count = k, et_max = max (et_max T) (ext_end x)\<rparr>"
    have "ext_inv ?T" using ok r(2) ext_invD(5) [OF inv]
      by (auto simp: ext_inv_iff ext_map_def overwrite_def le_max_iff_disj split: if_splits)
    then show thesis using success [of ?T] add r by (simp add: ext_map_def)
  next
    assume r: "rc = ENOMEM"
      "partly_erased (ext_start x) (ext_end x) (ext_map T) (tree_lookup ext_start ext_end ext_place h)"
    let ?T = "T\<lparr>et_head := h, et_count := k\<rparr>"
    have "ext_inv ?T" using ok partly_erased_dom [OF r(2)] ext_invD(5) [OF inv]
      by (auto simp: ext_inv_iff ext_map_def)
    then show thesis using nomem [of ?T] add r all by (auto simp: ext_map_def)
  qed
qed

lemma ext_overwrite_exact:
  assumes "ext_exact T" "ext_start x \<le> ext_end x"
    "ext_map T' = overwrite (ext_start x) (ext_end x) (ext_place x) (ext_map T)"
    "et_max T' = max (et_max T) (ext_end x)"
  shows "ext_exact T'"
proof (cases "et_max T \<le> ext_end x")
  case True
  then show ?thesis using assms(2-4) by (simp add: ext_exact_def overwrite_def max_def)
next
  case False
  then have "ext_map T (et_max T) \<noteq> None" using assms(1) by (auto simp: ext_exact_def)
  with False show ?thesis using assms(3,4) by (simp add: ext_exact_def overwrite_def max_def)
qed

lemma ext_find_first:
  assumes "ext_inv T"
  shows "extent_tree_find True T s e =
     List.find (ivl_overlaps ext_start ext_end s e) (rb_inorder (et_head T))"
  using find_first_overlap [OF ext_invD(2) [OF assms], of e s]
    ext.interval_nfind [OF ext_invD(2) [OF assms], of "\<lparr>ext_start = s, ext_end = s, ext_log_pos = 0,
      ext_svr_rank = 0, ext_app_id = 0, ext_cli_id = 0\<rparr>" s]
  by (simp add: extent_tree_find_def extent_tree_node_alloc_def)

section \<open>Truncation\<close>

lemma truncate_loop_spec:
  assumes "itree_ok ext_start ext_end (\<lambda>_. True) head count" "0 < sz"
    "dbg \<longrightarrow> (\<exists>n \<in> set (rb_inorder head). ext_start n < sz)"
  shows "\<exists>head' count'. extent_tree_truncate_loop dbg sz head count (last_opt (rb_inorder head)) =
       Some (head', count', last_opt (rb_inorder head')) \<and>
     itree_ok ext_start ext_end (\<lambda>_. True) head' count' \<and>
     (\<forall>b. tree_lookup ext_start ext_end ext_place head' b =
        (if b < sz then tree_lookup ext_start ext_end ext_place head b else None))"
  using assms(1,3)
proof (induction "rb_inorder head" arbitrary: head count rule: rev_induct)
  case Nil
  have "rb_inorder head = []" using Nil(1) by simp
  with Nil show ?case by (subst extent_tree_truncate_loop.simps) simp
next
  case (snoc n xs)
  note okD = itree_okD [OF snoc.prems(1)]
  have io: "rb_inorder head = xs @ [n]" using snoc.hyps(2) by simp
  have ivl: "ivl_ok ext_start ext_end (xs @ [n])" using okD(2) io by simp
  have before: "\<forall>x \<in> set xs. ext_start x \<le> ext_end x \<and> ext_end x < ext_start n" "ext_start n \<le> ext_end n"
    using ivl by (auto simp: ivl_ok_simps dest: ivl_ok_nonempty)
  note loop = extent_tree_truncate_loop.simps [of dbg sz head count "Some n"]
  consider (keep) "ext_end n < sz" | (cut) "ext_start n < sz" "sz \<le> ext_end n" | (drop) "sz \<le> ext_start n"
    by force
  then show ?case
  proof cases
    case keep
    then have "\<forall>x \<in> set (rb_inorder head). ext_end x < sz" using before io by force
    then have "\<not> b < sz \<Longrightarrow> tree_lookup ext_start ext_end ext_place head b = None" for b
      by (auto simp: ivl_lookup_None)
    then show ?thesis using keep loop io snoc.prems(1) by auto
  next
    case cut
    let ?n = "n\<lparr>ext_end := sz - 1\<rparr>"
    have new: "rb_inorder (rb_assign head n ?n) = xs @ [?n] @ []"
      using inorder_assign [of head xs n "[]"] io okD(5) by simp
    have ok: "ivl_ok ext_start ext_end (xs @ [?n] @ [])"
      by (rule ivl_replace_ok [of _ _ _ n])
        (use ivl cut u64_pred_less [OF cut(1)] in \<open>auto simp: ivl_ok_simps u64_le_pred\<close>)
    have xs: "ext_start n \<le> b \<Longrightarrow> ivl_lookup ext_start ext_end ext_place xs b = None" for b
      using before(1) by (auto simp: ivl_lookup_None)
    have "ext_place ?n = ext_place n" by (simp add: ext_place_def fun_eq_iff)
    then have "tree_lookup ext_start ext_end ext_place (rb_assign head n ?n) b =
        (if b < sz then tree_lookup ext_start ext_end ext_place head b else None)" for b
      using xs [of b] cut u64_le_pred [OF cut(1), of b] unfolding new io
      by (cases "ext_start n \<le> b") (auto simp: ivl_lookup_append split: option.split)
    moreover have "itree_ok ext_start ext_end (\<lambda>_. True) (rb_assign head n ?n) count"
      using ok new okD io by (simp add: itree_ok_def)
    ultimately show ?thesis using cut loop io new by auto
  next
    case drop
    have prev: "RB_PREV head n = Some (last_opt xs)" using RB_PREV_inorder [OF okD(5), of xs n "[]"] io by simp
    obtain h where h: "RB_REMOVE head n = Some h" "rb_ok h" "xs = rb_inorder h"
      using RB_REMOVE_spec [OF okD(1), of xs n "[]"] io okD(5) by auto
    have ok: "itree_ok ext_start ext_end (\<lambda>_. True) h (count - 1)"
      using h okD ivl io by (simp add: itree_ok_def ivl_ok_simps)
    have ex: "dbg \<longrightarrow> (\<exists>n \<in> set (rb_inorder h). ext_start n < sz)"
      using snoc.prems(2) io h(3) drop by auto
    have "b < sz \<Longrightarrow> tree_lookup ext_start ext_end ext_place h b = tree_lookup ext_start ext_end ext_place head b" for b
      using drop unfolding h(3) [symmetric] io by (auto simp: ivl_lookup_append split: option.split)
    moreover have "extent_tree_truncate_loop dbg sz head count (Some n) =
        extent_tree_truncate_loop dbg sz h (count - 1) (last_opt (rb_inorder h))"
      using drop before(2) loop prev h ex by (auto simp: last_opt_def)
    ultimately show ?thesis using snoc.hyps(1) [OF h(3) ok ex] io by (elim exE conjE) simp
  qed
qed

lemma ext_clear:
  assumes "ext_inv T"
  shows "\<exists>T'. extent_tree_clear T = Some T' \<and> ext_inv T' \<and> et_head T' = Null \<and> ext_map T' = (\<lambda>_. None) \<and>
     et_count T' = 0 \<and> et_max T' \<le> et_max T \<and> (ext_exact T \<or> et_head T \<noteq> Null \<longrightarrow> T' = extent_tree_init)"
  using ext_iter.clear_loop_spec [OF ext_invD(4) [OF assms] ext_invD(2) [OF assms]] ext_invD(1) [OF assms] assms
  by (auto simp: extent_tree_clear_def extent_tree_init_def ext_inv_def ext_map_def itree_ok_def ext_exact_def
      intro!: extent_tree.equality)

lemma truncate_exact:
  assumes "itree_ok ext_start ext_end (\<lambda>_. True) h k"
    "T = \<lparr>et_head = h, et_count = k, et_max = (case last_opt (rb_inorder h) of Some n \<Rightarrow> ext_end n | None \<Rightarrow> 0)\<rparr>"
  shows "ext_inv T \<and> ext_exact T"
proof (cases "rb_inorder h" rule: rev_cases)
  case Nil
  then show ?thesis using assms by (simp add: ext_inv_def ext_exact_def)
next
  case (snoc xs n)
  note ivl = itree_okD(2) [OF assms(1)]
  have n: "n \<in> set (rb_inorder h)" "et_max T = ext_end n" using snoc assms(2) by simp_all
  have "ext_inv T" using assms ivl snoc by (fastforce simp: ext_inv_def ivl_ok_simps)
  moreover have "ext_exact T"
    using ivl_lookup_in [OF ivl n(1), of "ext_end n" ext_place] ivl_ok_nonempty [OF ivl n(1)] n(2) assms(2)
    by (simp add: ext_exact_def ext_map_def)
  ultimately show ?thesis ..
qed

text \<open>With debug messages on, removing the lowest extent dereferences a null predecessor.\<close>

lemma truncate_loop_debug:
  assumes "itree_ok ext_start ext_end (\<lambda>_. True) head count" "rb_inorder head \<noteq> []"
    "\<forall>n \<in> set (rb_inorder head). sz \<le> ext_start n"
  shows "extent_tree_truncate_loop True sz head count (last_opt (rb_inorder head)) = None"
  using assms
proof (induction "rb_inorder head" arbitrary: head count rule: rev_induct)
  case (snoc n xs)
  note okD = itree_okD [OF snoc.prems(1)]
  have io: "rb_inorder head = xs @ [n]" using snoc.hyps(2) by simp
  have n: "sz \<le> ext_start n" "sz \<le> ext_end n"
    using snoc.prems(3) okD(2) io by (auto simp: ivl_ok_simps)
  have prev: "RB_PREV head n = Some (last_opt xs)" using RB_PREV_inorder [OF okD(5), of xs n "[]"] io by simp
  obtain h where h: "RB_REMOVE head n = Some h" "rb_ok h" "xs = rb_inorder h"
    using RB_REMOVE_spec [OF okD(1), of xs n "[]"] io okD(5) by auto
  have "itree_ok ext_start ext_end (\<lambda>_. True) h (count - 1)"
    using h okD io by (simp add: itree_ok_def ivl_ok_simps)
  then have "xs \<noteq> [] \<Longrightarrow> extent_tree_truncate_loop True sz h (count - 1) (last_opt (rb_inorder h)) = None"
    using snoc.hyps(1) [OF h(3)] snoc.prems(3) io h(3) by simp
  then show ?case
    using n prev h io by (subst extent_tree_truncate_loop.simps) (auto simp: last_opt_def)
qed simp

lemma ext_truncate:
  assumes inv: "ext_inv T" and dbg: "dbg \<longrightarrow> sz = 0 \<or> et_head T = Null \<or> (\<exists>n \<in> set (rb_inorder (et_head T)). ext_start n < sz)"
  shows "\<exists>T'. extent_tree_truncate dbg T sz = Some (UNIFYFS_SUCCESS, T') \<and> ext_inv T' \<and>
     (ext_exact T \<longrightarrow> ext_exact T') \<and> et_max T' \<le> et_max T \<and>
     ext_map T' = (\<lambda>b. if b < sz then ext_map T b else None)"
proof (cases "sz = 0")
  case True
  then show ?thesis using ext_clear [OF inv] by (auto simp: extent_tree_truncate_def)
next
  case False
  then have "0 < sz" by (simp add: word_gt_0)
  obtain h k where l: "extent_tree_truncate_loop dbg sz (et_head T) (et_count T) (last_opt (rb_inorder (et_head T))) =
      Some (h, k, last_opt (rb_inorder h))" "itree_ok ext_start ext_end (\<lambda>_. True) h k"
    "\<forall>b. tree_lookup ext_start ext_end ext_place h b = (if b < sz then ext_map T b else None)"
  proof (cases "et_head T = Null")
    case True
    then show thesis using that [of Null "et_count T"] ext_invD(1) [OF inv]
      by (simp add: extent_tree_truncate_loop.simps ext_map_def)
  next
    assume "et_head T \<noteq> Null"
    then show thesis using truncate_loop_spec [OF ext_invD(1) [OF inv] \<open>0 < sz\<close>, of dbg] dbg False that
      by (auto simp: ext_map_def)
  qed
  let ?T = "\<lparr>et_head = h, et_count = k, et_max = (case last_opt (rb_inorder h) of Some n \<Rightarrow> ext_end n | None \<Rightarrow> 0)\<rparr>"
  note exact = truncate_exact [OF l(2) refl]
  have map: "ext_map ?T = (\<lambda>b. if b < sz then ext_map T b else None)"
    using l(3) by (simp add: ext_map_def fun_eq_iff)
  then have "et_max ?T \<le> et_max T"
    using exact ext_invD(5) [OF inv, of "et_max ?T"] by (auto simp: ext_exact_def split: if_splits)
  moreover have "extent_tree_truncate dbg T sz = Some (UNIFYFS_SUCCESS, ?T)"
    using False l(1) by (simp add: extent_tree_truncate_def RB_MAX_inorder)
  ultimately show ?thesis using exact map by blast
qed

lemma ext_truncate_Some:
  assumes "ext_inv T" "extent_tree_truncate dbg T sz = Some (rc, T')"
  shows "rc = UNIFYFS_SUCCESS \<and> ext_inv T' \<and> (ext_exact T \<longrightarrow> ext_exact T') \<and> et_max T' \<le> et_max T \<and>
     ext_map T' = (\<lambda>b. if b < sz then ext_map T b else None)"
proof (cases "dbg \<longrightarrow> sz = 0 \<or> et_head T = Null \<or> (\<exists>n \<in> set (rb_inorder (et_head T)). ext_start n < sz)")
  case True
  then show ?thesis using ext_truncate [OF assms(1) True] assms(2) by auto
next
  case False
  then have "extent_tree_truncate dbg T sz = None"
    using truncate_loop_debug [OF ext_invD(1) [OF assms(1)]]
    by (fastforce simp: extent_tree_truncate_def RB_MAX_inorder not_less)
  then show ?thesis using assms(2) by simp
qed

section \<open>The chunks of a request\<close>

text \<open>A gap before one of the extents that follow each other, as the counting loop notices it.\<close>

fun chain_gap :: "extent_metadata option \<Rightarrow> u64 \<Rightarrow> extent_metadata list \<Rightarrow> bool" where
  "chain_gap first prev_end [] = False"
| "chain_gap first prev_end (n # ns) =
     ((first \<noteq> Some n \<and> prev_end + 1 \<noteq> ext_start n) \<or> chain_gap first (ext_end n) ns)"

lemma chain_gap_successively:
  assumes "f \<notin> set ns"
  shows "chain_gap (Some f) (ext_end m) ns \<longleftrightarrow> \<not> successively (\<lambda>m n. ext_end m + 1 = ext_start n) (m # ns)"
  using assms by (induction ns arbitrary: m) auto

lemma count_loop_spec:
  assumes "ivl_ok ext_start ext_end (rb_inorder head)" "rb_inorder head = as @ xs"
  shows "extent_tree_count_loop head e first k pe gap l (hd_opt xs) =
    (let ys = takeWhile (\<lambda>n. ext_start n \<le> e) xs in
     Some (k + of_nat (length ys), gap \<or> chain_gap first pe ys, if ys = [] then l else Some (last ys)))"
  using assms(2)
proof (induction xs arbitrary: as k pe gap l)
  case Nil
  then show ?case by (subst extent_tree_count_loop.simps) simp
next
  case (Cons x xs)
  have it: "extent_tree_iter head (Some x) = Some (hd_opt xs)"
    by (rule ext_iter.iter_next [OF assms(1) Cons.prems])
  show ?case
    using it Cons.IH [of "as @ [x]"] Cons.prems
    by (subst extent_tree_count_loop.simps) (auto simp: Let_def ac_simps)
qed

lemma chunk_loop_spec:
  assumes "ivl_ok ext_start ext_end (rb_inorder head)" "rb_inorder head = as @ xs"
  shows "extent_tree_chunk_loop head offset len e (hd_opt xs) =
    Some (map (chunk_req_from_extent offset len) (takeWhile (\<lambda>n. ext_start n \<le> e) xs))"
  using assms(2)
proof (induction xs arbitrary: as)
  case Nil
  then show ?case by (subst extent_tree_chunk_loop.simps) simp
next
  case (Cons x xs)
  have it: "extent_tree_iter head (Some x) = Some (hd_opt xs)"
    by (rule ext_iter.iter_next [OF assms(1) Cons.prems])
  then show ?case
    using Cons.IH [of "as @ [x]"] Cons.prems by (subst extent_tree_chunk_loop.simps) simp
qed

text \<open>
  A chunk describes the bytes from its offset to \<open>crr_last\<close>; \<open>chunk_place\<close> is where one of them is.
\<close>

definition crr_last :: "chunk_read_req \<Rightarrow> u64" where
  "crr_last c = crr_offset c + crr_nbytes c - 1"

definition chunk_place :: "chunk_read_req \<Rightarrow> u64 \<Rightarrow> int \<times> int \<times> int \<times> u64" where
  "chunk_place c b =
     (crr_rank c, crr_log_app_id c, crr_log_client_id c, crr_log_offset c + (b - crr_offset c))"

lemma chunk_req_simps:
  "crr_offset (chunk_req_from_extent offset len n) = max (ext_start n) offset"
  "crr_last (chunk_req_from_extent offset len n) = min (ext_end n) (offset + len - 1)"
  "chunk_place (chunk_req_from_extent offset len n) b = ext_place n b"
  by (auto simp: chunk_req_from_extent_def Let_def max_def min_def crr_last_def chunk_place_def ext_place_def)

lemma chunks_lookup:
  fixes offset len :: u64
  defines "e \<equiv> offset + len - 1"
  shows "ivl_lookup crr_offset crr_last chunk_place (map (chunk_req_from_extent offset len) ns) b =
    (if offset \<le> b \<and> b \<le> e then ivl_lookup ext_start ext_end ext_place ns b else None)"
  by (induction ns) (auto simp: chunk_req_simps e_def)

lemma chunks_ok:
  fixes offset len :: u64
  defines "e \<equiv> offset + len - 1"
  assumes "ivl_ok ext_start ext_end ns" "\<forall>n \<in> set ns. ivl_overlaps ext_start ext_end offset e n" "offset \<le> e"
  shows "ivl_ok crr_offset crr_last (map (chunk_req_from_extent offset len) ns)"
  using assms(2-4)
  by (induction ns) (auto simp: chunk_req_simps ivl_ok_Cons ivl_overlaps_def e_def min_def max_def)

lemma chunk_list_none:
  assumes "ext_inv T" "List.find (ivl_overlaps ext_start ext_end offset (offset + len - 1)) (rb_inorder (et_head T)) = None" "al 0"
  shows "extent_tree_get_chunk_list al T offset len = Some (UNIFYFS_SUCCESS, 0, None, False)"
  using ext_find_first [OF assms(1), of offset "offset + len - 1"] assms(2,3)
    count_loop_spec [OF ext_invD(2) [OF assms(1)], of "rb_inorder (et_head T)" "[]"]
  by (simp add: extent_tree_get_chunk_list_def)

lemma chunk_list_some:
  fixes offset len :: u64
  defines "e \<equiv> offset + len - 1"
  assumes inv: "ext_inv T" and al: "al 0" "al 1"
    and small: "length (rb_inorder (et_head T)) < 2 ^ 32"
    and ns: "ns = filter (ivl_overlaps ext_start ext_end offset e) (rb_inorder (et_head T))" "ns \<noteq> []"
  shows "extent_tree_get_chunk_list al T offset len =
    Some (UNIFYFS_SUCCESS, of_nat (length ns), Some (map (chunk_req_from_extent offset len) ns),
      ivl_spans ext_start ext_end offset e ns)"
proof -
  note ivl = ext_invD(2) [OF inv]
  obtain f where f: "List.find (ivl_overlaps ext_start ext_end offset e) (rb_inorder (et_head T)) = Some f"
    using ns by (metis filter_False find_None_iff2 not_None_eq)
  then obtain as bs where s: "rb_inorder (et_head T) = as @ f # bs"
    "ns = f # takeWhile (\<lambda>m. ext_start m \<le> e) bs"
    using overlaps_from_first [OF ivl] ns(1) by metis
  have fe: "ext_start f \<le> e" using find_overlap_lowest(2) [OF ivl f] by (simp add: ivl_overlaps_def)
  have tw: "takeWhile (\<lambda>m. ext_start m \<le> e) (f # bs) = ns" using s(2) fe by simp
  have "f \<notin> set bs" using s(1) ext_invD(3) [OF inv] by simp
  then have "f \<notin> set (takeWhile (\<lambda>m. ext_start m \<le> e) bs)" by (meson set_takeWhileD)
  then have gap: "chain_gap (Some f) 0 ns \<longleftrightarrow> \<not> successively (\<lambda>m n. ext_end m + 1 = ext_start n) ns"
    using chain_gap_successively [of f "takeWhile (\<lambda>m. ext_start m \<le> e) bs" f] s(2) by simp
  have "length ns \<le> length (rb_inorder (et_head T))" unfolding ns(1) by simp
  then have "length ns < 2 ^ 32" "0 < length ns" using small ns(2) by auto
  then have nz: "(of_nat (length ns) :: u32) \<noteq> 0"
    by (simp add: word_of_nat_eq_0_iff nat_dvd_not_less)
  have find: "extent_tree_find True T offset e = Some f" using ext_find_first [OF inv] f by simp
  have cnt: "extent_tree_count_loop (et_head T) e (Some f) 0 0 False None (Some f) =
      Some (of_nat (length ns), chain_gap (Some f) 0 ns, Some (last ns))"
    using count_loop_spec [OF ivl s(1), of e "Some f" 0 0 False None] tw ns(2) by (simp add: Let_def)
  have chk: "extent_tree_chunk_loop (et_head T) offset len e (Some f) = Some (map (chunk_req_from_extent offset len) ns)"
    using chunk_loop_spec [OF ivl s(1), of offset len e] tw by simp
  have "ivl_spans ext_start ext_end offset e ns \<longleftrightarrow>
      \<not> (chain_gap (Some f) 0 ns \<or> ext_start f > offset \<or> ext_end (last ns) < e)"
    using gap s(2) by (auto simp: ivl_spans_def)
  then show ?thesis
    using find cnt chk nz al by (simp add: extent_tree_get_chunk_list_def e_def [symmetric] Let_def)
qed

lemma ext_chunk_list:
  assumes "ext_inv T" and "offset \<le> offset + len - 1" and "length (rb_inorder (et_head T)) < 2 ^ 32"
    and "al 0" and "al 1"
  shows "\<exists>n chunks covered.
     extent_tree_get_chunk_list al T offset len = Some (UNIFYFS_SUCCESS, n, chunks, covered) \<and>
     (let cs = (case chunks of None \<Rightarrow> [] | Some cs \<Rightarrow> cs) in
      n = of_nat (length cs) \<and> length cs \<le> length (rb_inorder (et_head T)) \<and> ivl_ok crr_offset crr_last cs \<and>
      (\<forall>b. ivl_lookup crr_offset crr_last chunk_place cs b =
         (if offset \<le> b \<and> b \<le> offset + len - 1 then ext_map T b else None))) \<and>
     (covered \<longleftrightarrow> (\<forall>b. offset \<le> b \<and> b \<le> offset + len - 1 \<longrightarrow> ext_map T b \<noteq> None))"
proof (cases "filter (ivl_overlaps ext_start ext_end offset (offset + len - 1)) (rb_inorder (et_head T)) = []")
  case True
  then have f: "List.find (ivl_overlaps ext_start ext_end offset (offset + len - 1)) (rb_inorder (et_head T)) = None"
    by (auto simp: find_None_iff filter_empty_conv)
  have "offset \<le> b \<and> b \<le> offset + len - 1 \<longrightarrow> ext_map T b = None" for b
    using find_overlap_None [OF f] by (auto simp: ext_map_def)
  then show ?thesis using chunk_list_none [of T offset len al, OF assms(1) f assms(4)] assms(2) by auto
next
  case False
  let ?ns = "filter (ivl_overlaps ext_start ext_end offset (offset + len - 1)) (rb_inorder (et_head T))"
  have ok: "ivl_ok ext_start ext_end ?ns"
    using ext_invD(2) [OF assms(1)] by (simp add: ivl_ok_def sorted_wrt_filter)
  have ov: "\<forall>n \<in> set ?ns. ivl_overlaps ext_start ext_end offset (offset + len - 1) n" by simp
  have lk: "ivl_lookup ext_start ext_end ext_place ?ns b = ext_map T b"
    if "offset \<le> b" "b \<le> offset + len - 1" for b
    using overlaps_lookup [OF that] by (simp add: ext_map_def)
  have "ivl_lookup crr_offset crr_last chunk_place (map (chunk_req_from_extent offset len) ?ns) b =
      (if offset \<le> b \<and> b \<le> offset + len - 1 then ext_map T b else None)" for b
    by (simp add: chunks_lookup lk)
  moreover have "ivl_spans ext_start ext_end offset (offset + len - 1) ?ns \<longleftrightarrow>
      (\<forall>b. offset \<le> b \<and> b \<le> offset + len - 1 \<longrightarrow> ext_map T b \<noteq> None)"
    unfolding ivl_spans_iff [OF ok ov assms(2), of ext_place] using lk by metis
  ultimately show ?thesis
    using chunk_list_some [OF assms(1,4,5,3) refl False] chunks_ok [OF ok ov assms(2)]
    by (simp add: Let_def del: filter_filter map_map)
qed

section \<open>Properties\<close>

text \<open>A tree with the one extent \<open>[0, 9]\<close> of client 1 of application 7 on server 2, at log offset 100.\<close>

definition ext_example :: extent_tree where
  "ext_example = \<lparr>et_head = Node RB_BLACK Null
       \<lparr>ext_start = 0, ext_end = 9, ext_log_pos = 100, ext_svr_rank = 2, ext_app_id = 7, ext_cli_id = 1\<rparr> Null,
     et_count = 1, et_max = 9\<rparr>"

lemma ext_example_ok: "ext_inv ext_example" "ext_exact ext_example"
  by (simp_all add: ext_example_def ext_inv_def itree_ok_def rb_ok_def ivl_ok_def ext_exact_def ext_map_def)

text \<open>
  (C3) Adding a non-empty extent to a well-formed extent tree always returns, whatever the
  allocations do, and keeps the tree well formed. If it succeeds, the bytes of the extent map to the
  server, application, client and log position of the new extent, every other byte keeps its place
  and its owner, and the recorded maximum stays exact. It succeeds when every allocation does;
  otherwise it returns ENOMEM and has changed no byte outside the extent.
\<close>

theorem extent_tree_add_refines:
  assumes "ext_inv T" and "ext_start x \<le> ext_end x"
  shows "\<exists>rc T'. extent_tree_add al T x = Some (rc, T') \<and> ext_inv T' \<and>
     ((\<forall>j. al j) \<longrightarrow> rc = UNIFYFS_SUCCESS) \<and>
     (rc = UNIFYFS_SUCCESS \<and> (ext_exact T \<longrightarrow> ext_exact T') \<and>
        ext_map T' = overwrite (ext_start x) (ext_end x) (ext_place x) (ext_map T) \<or>
      rc = ENOMEM \<and> partly_erased (ext_start x) (ext_end x) (ext_map T) (ext_map T'))"
  by (rule ext_add_cases [OF assms, of al]) (use ext_overwrite_exact [OF _ assms(2)] in auto)

theorem extent_tree_add_refines_witness:
  "\<exists>T'. extent_tree_add (\<lambda>_. True) ext_example
       \<lparr>ext_start = 5, ext_end = 20, ext_log_pos = 0, ext_svr_rank = 0, ext_app_id = 7, ext_cli_id = 3\<rparr> =
       Some (UNIFYFS_SUCCESS, T') \<and> ext_exact T' \<and>
     ext_map T' 4 = Some (2, 7, 1, 104) \<and> ext_map T' 6 = Some (0, 7, 3, 1)"
proof -
  let ?x = "\<lparr>ext_start = 5, ext_end = 20, ext_log_pos = 0, ext_svr_rank = 0, ext_app_id = 7, ext_cli_id = 3\<rparr>"
  have "ext_start ?x \<le> ext_end ?x" by simp
  from extent_tree_add_refines [OF ext_example_ok(1) this, of "\<lambda>_. True"] obtain T' where
    "extent_tree_add (\<lambda>_. True) ext_example ?x = Some (UNIFYFS_SUCCESS, T')" "ext_exact T'"
    "ext_map T' = overwrite 5 20 (ext_place ?x) (ext_map ext_example)"
    using ext_example_ok(2) by auto
  then show ?thesis by (simp add: overwrite_def ext_map_def ext_example_def ext_place_def)
qed

text \<open>
  (C10) A read request for a non-empty range is answered with chunks that describe exactly the mapped
  bytes of the range: the chunks are disjoint, in ascending order and inside the range, a byte of the
  range is in a chunk iff the tree maps it, and the chunk gives the same server, application, client
  and log position as the tree. The range is reported as covered iff each of its bytes is mapped.
\<close>

theorem extent_tree_get_chunk_list_exact:
  assumes "ext_inv T" and "offset \<le> offset + len - 1" and "length (rb_inorder (et_head T)) < 2 ^ 32"
    and "al 0" and "al 1"
  shows "\<exists>n chunks covered.
     extent_tree_get_chunk_list al T offset len = Some (UNIFYFS_SUCCESS, n, chunks, covered) \<and>
     (let cs = (case chunks of None \<Rightarrow> [] | Some cs \<Rightarrow> cs) in
      n = of_nat (length cs) \<and> ivl_ok crr_offset crr_last cs \<and>
      (\<forall>b. ivl_lookup crr_offset crr_last chunk_place cs b =
         (if offset \<le> b \<and> b \<le> offset + len - 1 then ext_map T b else None))) \<and>
     (covered \<longleftrightarrow> (\<forall>b. offset \<le> b \<and> b \<le> offset + len - 1 \<longrightarrow> ext_map T b \<noteq> None))"
  using ext_chunk_list [OF assms] by (auto simp: Let_def)

theorem extent_tree_get_chunk_list_exact_witness:
  "\<exists>n cs. extent_tree_get_chunk_list (\<lambda>_. True) ext_example 8 4 = Some (UNIFYFS_SUCCESS, n, cs, False)"
proof -
  have "(8::u64) \<le> 8 + 4 - 1" "length (rb_inorder (et_head ext_example)) < 2 ^ 32"
    by (simp_all add: ext_example_def)
  from extent_tree_get_chunk_list_exact [OF ext_example_ok(1) this, of "\<lambda>_. True"] obtain n cs covered where
    *: "extent_tree_get_chunk_list (\<lambda>_. True) ext_example 8 4 = Some (UNIFYFS_SUCCESS, n, cs, covered)"
    "covered \<longleftrightarrow> (\<forall>b. 8 \<le> b \<and> b \<le> 8 + 4 - 1 \<longrightarrow> ext_map ext_example b \<noteq> None)" by auto
  have "ext_map ext_example 10 = None" by (simp add: ext_map_def ext_example_def)
  then have "\<not> covered" using *(2) by (auto intro!: exI [of _ 10])
  with * show ?thesis by auto
qed

text \<open>
  (C12) Truncation of a well-formed tree terminates, with debug messages off, and cuts the file at the
  new size: bytes below it keep their place, bytes from it on are no longer mapped, and the recorded
  maximum is the last byte still mapped.
\<close>

theorem extent_tree_truncate_cuts:
  assumes "ext_inv T" and "ext_exact T"
  shows "\<exists>T'. extent_tree_truncate False T sz = Some (UNIFYFS_SUCCESS, T') \<and> ext_inv T' \<and> ext_exact T' \<and>
     ext_map T' = (\<lambda>b. if b < sz then ext_map T b else None)"
  using ext_truncate [OF assms(1), of False sz] assms(2) by auto

theorem extent_tree_truncate_cuts_witness:
  "\<exists>T'. extent_tree_truncate False ext_example 4 = Some (UNIFYFS_SUCCESS, T') \<and> ext_exact T' \<and>
     ext_map T' 3 = Some (2, 7, 1, 103) \<and> ext_map T' 4 = None"
proof -
  have "ext_map ext_example 3 = Some (2, 7, 1, 103)"
    by (simp add: ext_map_def ext_example_def ext_place_def)
  with extent_tree_truncate_cuts [OF ext_example_ok, of 4] show ?thesis by auto
qed

text \<open>
  (C39) With debug messages on, a truncation to a non-zero size at or below the start of every extent
  of a non-empty tree does not return: the message printed for the lowest extent dereferences its
  missing predecessor.
\<close>

theorem extent_tree_truncate_debug_crash:
  assumes "ext_inv T" and "et_head T \<noteq> Null" and "sz \<noteq> 0"
    and "\<forall>n \<in> set (rb_inorder (et_head T)). sz \<le> ext_start n"
  shows "extent_tree_truncate True T sz = None"
  using truncate_loop_debug [OF ext_invD(1) [OF assms(1)] _ assms(4)] assms(2,3)
  by (simp add: extent_tree_truncate_def RB_MAX_inorder)

theorem extent_tree_truncate_debug_crash_witness:
  "extent_tree_truncate True \<lparr>et_head = Node RB_BLACK Null
       \<lparr>ext_start = 10, ext_end = 19, ext_log_pos = 0, ext_svr_rank = 0, ext_app_id = 7, ext_cli_id = 1\<rparr> Null,
     et_count = 1, et_max = 19\<rparr> 5 = None"
  by (rule extent_tree_truncate_debug_crash)
    (simp_all add: ext_inv_def itree_ok_def rb_ok_def ivl_ok_def)

text \<open>One extent recorded in the tree.\<close>

definition ext_put :: "extent_metadata \<Rightarrow> extent_tree \<Rightarrow> extent_tree option" where
  "ext_put x T = (case extent_tree_add (\<lambda>_. True) T x of Some (UNIFYFS_SUCCESS, T') \<Rightarrow> Some T' | _ \<Rightarrow> None)"

interpretation ext_writes: write_map "\<lambda>T. ext_inv T \<and> ext_exact T" ext_map ext_put
  "\<lambda>x. ext_start x \<le> ext_end x" ext_start ext_end ext_place
proof
  fix T and x :: extent_metadata
  assume "ext_inv T \<and> ext_exact T" and x: "ext_start x \<le> ext_end x"
  then have T: "ext_inv T" "ext_exact T" by auto
  show "\<exists>T'. ext_put x T = Some T' \<and> (ext_inv T' \<and> ext_exact T') \<and>
      ext_map T' = overwrite (ext_start x) (ext_end x) (ext_place x) (ext_map T)"
    by (rule ext_add_cases [OF T(1) x, of "\<lambda>_. True"])
      (use ext_overwrite_exact [OF T(2) x] in \<open>auto simp: ext_put_def\<close>)
qed

end
