(* ===== verification/Slotmap.thy ===== *)
theory Slotmap
  imports Prelude
begin

unbundle bit_operations_syntax

text \<open>
  The slot map of \<^verbatim>\<open>common/src/slotmap.c\<close>: a bitmap of used and free slots, with which the write log
  allocates its chunks. Structure and bitmap live in one memory region; here the bitmap is a field
  of the record. Sizes and slot numbers are 64-bit words, \<^verbatim>\<open>ssize_t\<close> values too: comparisons between
  a \<^verbatim>\<open>ssize_t\<close> and a \<^verbatim>\<open>size_t\<close> are unsigned in C, and \<open>- 1\<close> is the largest word. An access outside
  of the bitmap is \<^term>\<open>None\<close>.
\<close>

section \<open>Bits of the use map\<close>

record slot_map =
  total_slots :: u64
  used_slots :: u64
  first_used_slot :: u64
  last_used_slot :: u64
  use_map :: "u8 list"

definition SLOT_BYTE :: "nat \<Rightarrow> nat" where
  "SLOT_BYTE slot = slot div 8"

definition SLOT_BIT :: "nat \<Rightarrow> nat" where
  "SLOT_BIT slot = slot mod 8"

definition BYTE_BIT_TO_SLOT :: "nat \<Rightarrow> nat \<Rightarrow> nat" where
  "BYTE_BIT_TO_SLOT byte b = byte * 8 + b"

definition BYTE_VAL_BIT :: "u8 \<Rightarrow> nat \<Rightarrow> u8" where
  "BYTE_VAL_BIT byte_val b = byte_val AND push_bit b 1"

definition set_usemap_byte_bit :: "u8 list \<Rightarrow> nat \<Rightarrow> nat \<Rightarrow> u8 list option" where
  "set_usemap_byte_bit usemap byte b =
     (if byte < length usemap then Some (usemap[byte := (usemap ! byte) OR push_bit b 1]) else None)"

definition clear_usemap_byte_bit :: "u8 list \<Rightarrow> nat \<Rightarrow> nat \<Rightarrow> u8 list option" where
  "clear_usemap_byte_bit usemap byte b =
     (if byte < length usemap then Some (usemap[byte := (usemap ! byte) AND (0xFF - push_bit b 1)]) else None)"

definition check_slot :: "u8 list \<Rightarrow> nat \<Rightarrow> bool option" where
  "check_slot usemap slot =
     (if SLOT_BYTE slot < length usemap
      then Some (BYTE_VAL_BIT (usemap ! SLOT_BYTE slot) (SLOT_BIT slot) \<noteq> 0) else None)"

definition use_slot :: "u8 list \<Rightarrow> nat \<Rightarrow> u8 list option" where
  "use_slot usemap slot = set_usemap_byte_bit usemap (SLOT_BYTE slot) (SLOT_BIT slot)"

definition release_slot :: "u8 list \<Rightarrow> nat \<Rightarrow> u8 list option" where
  "release_slot usemap slot = clear_usemap_byte_bit usemap (SLOT_BYTE slot) (SLOT_BIT slot)"

definition slot_map_bytes :: "nat \<Rightarrow> nat" where
  "slot_map_bytes total_num = (let map_bytes = SLOT_BYTE total_num in
     if SLOT_BIT total_num \<noteq> 0 then map_bytes + 1 else map_bytes)"

definition get_free_slots :: "slot_map \<Rightarrow> u64" where
  "get_free_slots smap = total_slots smap - used_slots smap"

text \<open>The loops that mark or release the slots from \<open>i\<close> to \<open>end_slot\<close>.\<close>

function use_slots :: "u8 list \<Rightarrow> nat \<Rightarrow> nat \<Rightarrow> u8 list option" where
  "use_slots usemap i end_slot =
     (if i \<le> end_slot then do { usemap \<leftarrow> use_slot usemap i; use_slots usemap (i + 1) end_slot }
      else Some usemap)"
  by pat_completeness auto
termination by (relation "measure (\<lambda>(u, i, e). e + 1 - i)") auto

function release_slots :: "u8 list \<Rightarrow> nat \<Rightarrow> nat \<Rightarrow> u8 list option" where
  "release_slots usemap i end_slot =
     (if i \<le> end_slot then do { usemap \<leftarrow> release_slot usemap i; release_slots usemap (i + 1) end_slot }
      else Some usemap)"
  by pat_completeness auto
termination by (relation "measure (\<lambda>(u, i, e). e + 1 - i)") auto

declare use_slots.simps [simp del] release_slots.simps [simp del]

section \<open>Initialisation\<close>

text \<open>
  \<^verbatim>\<open>slotmap_clear\<close> zeroes the bytes of the map. \<^verbatim>\<open>slotmap_init\<close> is given the size of the region and
  the size of the structure (\<^verbatim>\<open>sizeof(slot_map)\<close>, four 8-byte fields); the subtraction is unsigned.
\<close>

definition slotmap_clear :: "slot_map \<Rightarrow> slot_map" where
  "slotmap_clear smap = smap\<lparr>used_slots := 0, first_used_slot := - 1, last_used_slot := - 1,
     use_map := replicate (slot_map_bytes (unat (total_slots smap))) 0\<rparr>"

definition sizeof_slot_map :: u64 where
  "sizeof_slot_map = 32"

definition slotmap_init :: "u64 \<Rightarrow> u64 \<Rightarrow> slot_map option" where
  "slotmap_init num_slots region_sz =
     (let avail_use_bytes = region_sz - sizeof_slot_map;
          needed_use_bytes = of_nat (slot_map_bytes (unat num_slots))
      in if needed_use_bytes > avail_use_bytes then None
         else Some (slotmap_clear \<lparr>total_slots = num_slots, used_slots = 0, first_used_slot = 0,
                                  last_used_slot = 0, use_map = []\<rparr>))"

section \<open>Reservation\<close>

text \<open>
  \<^verbatim>\<open>find_consecutive_zero_bits\<close>: the longest run of zero bits of a byte, the first one of that length.
  \<open>zero_bits\<close> is the inner loop. The start bit is \<^term>\<open>None\<close> (\<open>- 1\<close> in C) when the run is too short.
\<close>

function zero_bits :: "u8 \<Rightarrow> nat \<Rightarrow> nat" where
  "zero_bits byte_val b =
     (if b < 8 \<and> BYTE_VAL_BIT byte_val b = 0 then 1 + zero_bits byte_val (b + 1) else 0)"
  by pat_completeness auto
termination by (relation "measure (\<lambda>(v, b). 8 - b)") auto

function find_zero_run :: "u8 \<Rightarrow> nat \<Rightarrow> nat \<Rightarrow> nat \<Rightarrow> nat \<times> nat" where
  "find_zero_run byte_val b max_free free_start =
     (if b < 8 then
        let run_max = zero_bits byte_val b in
        if run_max > max_free then find_zero_run byte_val (b + run_max + 1) run_max b
        else find_zero_run byte_val (b + run_max + 1) max_free free_start
      else (max_free, free_start))"
  by pat_completeness auto
termination by (relation "measure (\<lambda>(v, b, m, f). 8 - b)") auto

declare zero_bits.simps [simp del] find_zero_run.simps [simp del]

definition find_consecutive_zero_bits :: "u8 \<Rightarrow> nat \<Rightarrow> nat \<times> nat option" where
  "find_consecutive_zero_bits byte_val num_bits =
     (case find_zero_run byte_val 0 0 0 of
        (max_free, free_start) \<Rightarrow>
          (max_free, if max_free \<ge> num_bits then Some free_start else None))"

text \<open>The number of zero bytes from \<open>byte_ndx\<close> on, at most \<open>n\<close>.\<close>

fun zero_bytes :: "u8 list \<Rightarrow> nat \<Rightarrow> nat \<Rightarrow> nat" where
  "zero_bytes usemap byte_ndx 0 = 0"
| "zero_bytes usemap byte_ndx (Suc n) =
     (if usemap ! byte_ndx = 0 then 1 + zero_bytes usemap (byte_ndx + 1) n else 0)"

text \<open>
  The search for consecutive free slots. The outer \<^term>\<open>None\<close> is a failed \<^verbatim>\<open>assert\<close>, the inner one
  means that no place was found. After an unsuccessful scan of zero bytes the loop goes on behind
  the non-zero byte that ended it.
\<close>

function slotmap_search :: "u8 list \<Rightarrow> nat \<Rightarrow> nat \<Rightarrow> nat \<Rightarrow> nat \<Rightarrow> nat option option" where
  "slotmap_search usemap map_bytes slot_bytes num_slots byte_ndx =
     (if byte_ndx < map_bytes then
        let byte_val = usemap ! byte_ndx in
        if byte_val = 0xFF then slotmap_search usemap map_bytes slot_bytes num_slots (byte_ndx + 1)
        else if slot_bytes > 1 \<and> byte_ndx + slot_bytes \<le> map_bytes then
          (let run_count = zero_bytes usemap byte_ndx slot_bytes in
           if run_count = slot_bytes then Some (Some (BYTE_BIT_TO_SLOT byte_ndx 0))
           else slotmap_search usemap map_bytes slot_bytes num_slots (byte_ndx + run_count + 1))
        else
          (case find_consecutive_zero_bits byte_val num_slots of (free_bits, bit_in_byte) \<Rightarrow>
             if free_bits \<ge> num_slots then
               (case bit_in_byte of
                  None \<Rightarrow> None
                | Some b \<Rightarrow> Some (Some (BYTE_BIT_TO_SLOT byte_ndx b)))
             else if byte_ndx + 1 < map_bytes then
               (case find_consecutive_zero_bits byte_val free_bits of
                  (_, None) \<Rightarrow> None
                | (_, Some b) \<Rightarrow>
                    if b = 8 - free_bits then
                      (case find_consecutive_zero_bits (usemap ! (byte_ndx + 1)) (num_slots - free_bits) of
                         (free_bits2, bit_in_byte2) \<Rightarrow>
                           if free_bits2 \<ge> num_slots - free_bits \<and> bit_in_byte2 = Some 0
                           then Some (Some (BYTE_BIT_TO_SLOT byte_ndx b))
                           else slotmap_search usemap map_bytes slot_bytes num_slots (byte_ndx + 1))
                    else slotmap_search usemap map_bytes slot_bytes num_slots (byte_ndx + 1))
             else slotmap_search usemap map_bytes slot_bytes num_slots (byte_ndx + 1))
      else Some None)"
  by pat_completeness auto
termination by (relation "measure (\<lambda>(u, m, s, n, i). m - i)") auto

declare slotmap_search.simps [simp del]

definition slotmap_reserve :: "slot_map \<Rightarrow> u64 \<Rightarrow> (u64 \<times> slot_map) option" where
  "slotmap_reserve smap num_slots =
     (if num_slots = 0 then Some (- 1, smap)
      else if get_free_slots smap < num_slots then Some (- 1, smap)
      else
        let slot_bytes = slot_map_bytes (unat num_slots);
            search_start = (if last_used_slot smap \<noteq> - 1 \<and> slot_bytes > 1
                            then SLOT_BYTE (unat (last_used_slot smap)) else 0)
        in do {
          found \<leftarrow> slotmap_search (use_map smap) (slot_map_bytes (unat (total_slots smap))) slot_bytes
                     (unat num_slots) search_start;
          case found of
            None \<Rightarrow> Some (- 1, smap)
          | Some start \<Rightarrow>
              let start_slot = of_nat start; end_slot = start_slot + num_slots - 1 in do {
                usemap \<leftarrow> use_slots (use_map smap) (unat start_slot) (unat end_slot);
                Some (start_slot, smap\<lparr>use_map := usemap,
                  first_used_slot := (if first_used_slot smap = - 1 \<or> start_slot < first_used_slot smap
                                      then start_slot else first_used_slot smap),
                  last_used_slot := (if last_used_slot smap = - 1 \<or> end_slot > last_used_slot smap
                                     then end_slot else last_used_slot smap),
                  used_slots := used_slots smap + num_slots\<rparr>)
              }
        })"

section \<open>Release\<close>

text \<open>The loops that look for the next used slot upwards and downwards.\<close>

function next_used :: "u8 list \<Rightarrow> nat \<Rightarrow> nat \<Rightarrow> nat option" where
  "next_used usemap total_num slot =
     (if slot < total_num then do {
        used \<leftarrow> check_slot usemap slot;
        if used then Some slot else next_used usemap total_num (slot + 1)
      } else Some slot)"
  by pat_completeness auto
termination by (relation "measure (\<lambda>(u, t, s). t - s)") auto

text \<open>The argument of \<open>prev_used\<close> is one more than \<^verbatim>\<open>last_slot\<close>, so that 0 stands for \<open>- 1\<close>.\<close>

fun prev_used :: "u8 list \<Rightarrow> nat \<Rightarrow> u64 option" where
  "prev_used usemap 0 = Some (- 1)"
| "prev_used usemap (Suc slot) = do {
     used \<leftarrow> check_slot usemap slot;
     if used then Some (of_nat slot) else prev_used usemap slot
   }"

declare next_used.simps [simp del]

text \<open>
  \<^verbatim>\<open>slotmap_release\<close>. The branch that looks for the new first used slot stores its result in
  \<^verbatim>\<open>last_used_slot\<close>.
\<close>

definition slotmap_release :: "slot_map \<Rightarrow> u64 \<Rightarrow> u64 \<Rightarrow> (unifyfs_rc \<times> slot_map) option" where
  "slotmap_release smap start_index num_slots = do {
     used \<leftarrow> check_slot (use_map smap) (unat start_index);
     if \<not> used then Some (EINVAL, smap)
     else
       let end_slot = start_index + num_slots - 1 in do {
         usemap \<leftarrow> release_slots (use_map smap) (unat start_index) (unat end_slot);
         let smap = smap\<lparr>use_map := usemap, used_slots := used_slots smap - num_slots\<rparr> in
         if used_slots smap = 0 then
           Some (UNIFYFS_SUCCESS, smap\<lparr>first_used_slot := - 1, last_used_slot := - 1\<rparr>)
         else do {
           smap \<leftarrow> (if start_index = first_used_slot smap then do {
                      first_slot \<leftarrow> next_used usemap (unat (total_slots smap)) (unat (end_slot + 1));
                      Some (smap\<lparr>last_used_slot :=
                        (if first_slot = unat (total_slots smap) then - 1 else of_nat first_slot)\<rparr>)
                    } else Some smap);
           smap \<leftarrow> (if end_slot = last_used_slot smap then do {
                      last_slot \<leftarrow> prev_used usemap (unat start_index);
                      Some (smap\<lparr>last_used_slot := last_slot\<rparr>)
                    } else Some smap);
           Some (UNIFYFS_SUCCESS, smap)
         }
       }
   }"

section \<open>The set of used slots\<close>

definition slot_used :: "u8 list \<Rightarrow> nat \<Rightarrow> bool" where
  "slot_used usemap i \<longleftrightarrow> i < 8 * length usemap \<and> bit (usemap ! (i div 8)) (i mod 8)"

lemma BYTE_VAL_BIT_eq_0: "b < 8 \<Longrightarrow> BYTE_VAL_BIT v b = 0 \<longleftrightarrow> \<not> bit v b"
  by (simp add: BYTE_VAL_BIT_def push_bit_eq_mult and_exp_eq_0_iff_not_bit)

lemma bit_clear: "b < 8 \<Longrightarrow> k < 8 \<Longrightarrow> bit ((v::u8) AND (0xFF - 2 ^ b)) k \<longleftrightarrow> bit v k \<and> k \<noteq> b"
proof -
  assume "b < 8" "k < 8"
  have "(0xFF::u8) - 2 ^ b = NOT (2 ^ b)"
    by (simp add: not_eq_complement)
  with \<open>b < 8\<close> \<open>k < 8\<close> show ?thesis by (auto simp: bit_simps)
qed

lemma check_slot_used: "i < 8 * length u \<Longrightarrow> check_slot u i = Some (slot_used u i)"
  by (auto simp: check_slot_def SLOT_BYTE_def SLOT_BIT_def slot_used_def BYTE_VAL_BIT_eq_0)

lemma slot_used_div: "slot_used u i \<longleftrightarrow> i div 8 < length u \<and> bit (u ! (i div 8)) (i mod 8)"
  by (auto simp: slot_used_def div_less_iff_less_mult mult.commute)

lemma same_slot: "j div 8 = i div 8 \<Longrightarrow> j mod 8 = i mod 8 \<longleftrightarrow> j = (i::nat)"
  by (metis div_mod_decomp)

lemma slot_used_update:
  assumes "i div 8 < length u" "\<And>k. k < 8 \<Longrightarrow> bit v k \<longleftrightarrow> (if k = i mod 8 then x else bit (u ! (i div 8)) k)"
  shows "slot_used (u[i div 8 := v]) j \<longleftrightarrow> (if j = i then x else slot_used u j)"
  using assms same_slot [of j i] by (cases "j div 8 = i div 8") (auto simp: slot_used_div)

lemma use_slot_used:
  assumes "i < 8 * length u"
  shows "\<exists>u'. use_slot u i = Some u' \<and> length u' = length u \<and> (\<forall>j. slot_used u' j \<longleftrightarrow> slot_used u j \<or> j = i)"
proof -
  have i: "i div 8 < length u" using assms by auto
  show ?thesis
    using i slot_used_update [OF i, of "(u ! (i div 8)) OR push_bit (i mod 8) 1" True]
    by (auto simp: use_slot_def set_usemap_byte_bit_def SLOT_BYTE_def SLOT_BIT_def bit_simps)
qed

lemma release_slot_used:
  assumes "i < 8 * length u"
  shows "\<exists>u'. release_slot u i = Some u' \<and> length u' = length u \<and> (\<forall>j. slot_used u' j \<longleftrightarrow> slot_used u j \<and> j \<noteq> i)"
proof -
  have i: "i div 8 < length u" using assms by auto
  show ?thesis
    using i slot_used_update [OF i, of "(u ! (i div 8)) AND (0xFF - push_bit (i mod 8) 1)" False]
    by (auto simp: release_slot_def clear_usemap_byte_bit_def SLOT_BYTE_def SLOT_BIT_def bit_clear)
qed

lemma use_slots_used:
  assumes "end_slot < 8 * length u" "i \<le> end_slot + 1"
  shows "\<exists>u'. use_slots u i end_slot = Some u' \<and> length u' = length u \<and>
     (\<forall>j. slot_used u' j \<longleftrightarrow> slot_used u j \<or> (i \<le> j \<and> j \<le> end_slot))"
  using assms
proof (induction "end_slot + 1 - i" arbitrary: u i)
  case 0
  then show ?case by (subst use_slots.simps) auto
next
  case (Suc n)
  have i: "i < 8 * length u" "i \<le> end_slot" "n = end_slot + 1 - (i + 1)"
    using Suc.hyps(2) Suc.prems(1) by linarith+
  obtain u1 where u1: "use_slot u i = Some u1" "length u1 = length u"
    "\<forall>j. slot_used u1 j \<longleftrightarrow> slot_used u j \<or> j = i"
    using use_slot_used [of i u] i(1) by blast
  obtain u2 where u2: "use_slots u1 (i + 1) end_slot = Some u2" "length u2 = length u1"
    "\<forall>j. slot_used u2 j \<longleftrightarrow> slot_used u1 j \<or> (i + 1 \<le> j \<and> j \<le> end_slot)"
    using Suc.hyps(1) [OF i(3), of u1] Suc.prems i(2) u1(2) by auto
  have "slot_used u2 j \<longleftrightarrow> slot_used u j \<or> (i \<le> j \<and> j \<le> end_slot)" for j
    using spec [OF u1(3), of j] spec [OF u2(3), of j] i(2) by auto
  then show ?case using u1(1,2) u2(1,2) i(2) by (subst use_slots.simps) auto
qed

lemma release_slots_used:
  assumes "end_slot < 8 * length u" "i \<le> end_slot + 1"
  shows "\<exists>u'. release_slots u i end_slot = Some u' \<and> length u' = length u \<and>
     (\<forall>j. slot_used u' j \<longleftrightarrow> slot_used u j \<and> \<not> (i \<le> j \<and> j \<le> end_slot))"
  using assms
proof (induction "end_slot + 1 - i" arbitrary: u i)
  case 0
  then show ?case by (subst release_slots.simps) auto
next
  case (Suc n)
  have i: "i < 8 * length u" "i \<le> end_slot" "n = end_slot + 1 - (i + 1)"
    using Suc.hyps(2) Suc.prems(1) by linarith+
  obtain u1 where u1: "release_slot u i = Some u1" "length u1 = length u"
    "\<forall>j. slot_used u1 j \<longleftrightarrow> slot_used u j \<and> j \<noteq> i"
    using release_slot_used [of i u] i(1) by blast
  obtain u2 where u2: "release_slots u1 (i + 1) end_slot = Some u2" "length u2 = length u1"
    "\<forall>j. slot_used u2 j \<longleftrightarrow> slot_used u1 j \<and> \<not> (i + 1 \<le> j \<and> j \<le> end_slot)"
    using Suc.hyps(1) [OF i(3), of u1] Suc.prems i(2) u1(2) by auto
  have "slot_used u2 j \<longleftrightarrow> slot_used u j \<and> \<not> (i \<le> j \<and> j \<le> end_slot)" for j
    using spec [OF u1(3), of j] spec [OF u2(3), of j] i(2) by auto
  then show ?case using u1(1,2) u2(1,2) i(2) by (subst release_slots.simps) auto
qed

section \<open>Soundness of the search\<close>

lemma slot_map_bytes_bounds: "n \<le> 8 * slot_map_bytes n" "8 * slot_map_bytes n < n + 8"
proof -
  have "8 * (n div 8) + n mod 8 = n" "n mod 8 < 8" by simp_all
  moreover have "slot_map_bytes n = n div 8 \<and> n mod 8 = 0 \<or> slot_map_bytes n = n div 8 + 1 \<and> n mod 8 > 0"
    by (simp add: slot_map_bytes_def SLOT_BYTE_def SLOT_BIT_def Let_def)
  ultimately show "n \<le> 8 * slot_map_bytes n" "8 * slot_map_bytes n < n + 8" by linarith+
qed

lemma zero_bits_run:
  "b \<le> 8 \<Longrightarrow> b + zero_bits v b \<le> 8 \<and> (\<forall>k < zero_bits v b. \<not> bit v (b + k))"
proof (induction v b rule: zero_bits.induct)
  case (1 v b)
  show ?case
  proof (cases "b < 8 \<and> BYTE_VAL_BIT v b = 0")
    case True
    then have z: "zero_bits v b = 1 + zero_bits v (b + 1)" by (subst zero_bits.simps) simp
    have "\<not> bit v (b + k)" if "k < zero_bits v b" for k
      using that z 1 True by (cases k) (auto simp: BYTE_VAL_BIT_eq_0)
    then show ?thesis using z 1 True by auto
  next
    case False
    then show ?thesis using 1 by (subst (1 2) zero_bits.simps) auto
  qed
qed

lemma zero_bits_pos: "b < 8 \<Longrightarrow> \<not> bit v b \<Longrightarrow> 0 < zero_bits v b"
  by (subst zero_bits.simps) (simp add: BYTE_VAL_BIT_eq_0)

lemma find_zero_run_sound:
  assumes "find_zero_run v b m f = (m', f')" "f + m \<le> 8" "\<forall>k < m. \<not> bit v (f + k)"
  shows "f' + m' \<le> 8 \<and> (\<forall>k < m'. \<not> bit v (f' + k)) \<and> m \<le> m' \<and>
     ((\<exists>k. b \<le> k \<and> k < 8 \<and> \<not> bit v k) \<longrightarrow> 0 < m')"
  using assms
proof (induction v b m f rule: find_zero_run.induct)
  case (1 v b m f)
  show ?case
  proof (cases "b < 8")
    case False
    then show ?thesis using 1 by (auto simp: find_zero_run.simps [of v b])
  next
    case True
    let ?r = "zero_bits v b"
    note run = zero_bits_run [of b v]
    have later: "(\<exists>k. b \<le> k \<and> k < 8 \<and> \<not> bit v k) \<longrightarrow> 0 < ?r \<or> (\<exists>k. b + ?r + 1 \<le> k \<and> k < 8 \<and> \<not> bit v k)"
      using zero_bits_pos [OF True, of v] by (metis Suc_eq_plus1 add_0_right not_gr_zero le_neq_implies_less Suc_leI)
    show ?thesis
    proof (cases "?r > m")
      case big: True
      then have "find_zero_run v (b + ?r + 1) ?r b = (m', f')"
        using 1(3) True by (subst (asm) find_zero_run.simps) (simp add: Let_def)
      then show ?thesis using 1(1) [OF True refl big] run True big by auto
    next
      case small: False
      then have "find_zero_run v (b + ?r + 1) m f = (m', f')"
        using 1(3) True by (subst (asm) find_zero_run.simps) (simp add: Let_def)
      then show ?thesis using 1(2) [OF True refl small] 1(4,5) later small by auto
    qed
  qed
qed

lemma find_consecutive_sound:
  assumes "find_consecutive_zero_bits v n = (m, start)"
  shows "v \<noteq> 0xFF \<Longrightarrow> 0 < m"
    and "n \<le> m \<Longrightarrow> \<exists>b. start = Some b"
    and "start = Some b \<Longrightarrow> n \<le> m \<and> b + m \<le> 8 \<and> (\<forall>k < m. \<not> bit v (b + k))"
proof -
  obtain f where f: "find_zero_run v 0 0 0 = (m, f)" "start = (if m \<ge> n then Some f else None)"
    using assms by (auto simp: find_consecutive_zero_bits_def split: prod.splits)
  note run = find_zero_run_sound [OF f(1)]
  show "v \<noteq> 0xFF \<Longrightarrow> 0 < m"
  proof -
    assume "v \<noteq> 0xFF"
    moreover have "(0xFF::u8) = - 1" by code_simp
    ultimately have "v \<noteq> - 1" by simp
    then have "\<exists>k < 8. \<not> bit v k"
      using bit_word_eqI [of v "- 1"] by (auto simp: bit_simps)
    then show "0 < m" using run by auto
  qed
  show "n \<le> m \<Longrightarrow> \<exists>b. start = Some b" using f(2) by simp
  show "start = Some b \<Longrightarrow> n \<le> m \<and> b + m \<le> 8 \<and> (\<forall>k < m. \<not> bit v (b + k))"
    using run f(2) by (auto split: if_splits)
qed

lemma zero_bytes_le: "zero_bytes u i n \<le> n"
  by (induction n arbitrary: i) auto

lemma zero_bytes_all: "zero_bytes u i n = n \<Longrightarrow> k < n \<Longrightarrow> u ! (i + k) = 0"
proof (induction n arbitrary: i k)
  case (Suc n)
  then show ?case using Suc.IH [of "i + 1"] by (cases k) (auto split: if_splits)
qed simp

lemma slot_used_byte: "k < 8 \<Longrightarrow> slot_used u (i * 8 + k) \<longleftrightarrow> i < length u \<and> bit (u ! i) k"
  by (simp add: slot_used_div)

text \<open>A place for \<open>n\<close> slots at \<open>s\<close> below the end of the map.\<close>

definition free_run :: "u8 list \<Rightarrow> nat \<Rightarrow> nat \<Rightarrow> nat \<Rightarrow> bool" where
  "free_run u map_bytes n s \<longleftrightarrow> s + n \<le> 8 * map_bytes \<and> (\<forall>k < n. \<not> slot_used u (s + k))"

lemma free_run_bytes:
  assumes "zero_bytes u i sb = sb" "n \<le> 8 * sb" "i + sb \<le> mb"
  shows "free_run u mb n (i * 8)"
proof -
  have "\<not> slot_used u (i * 8 + k)" if "k < n" for k
  proof -
    have "k div 8 < sb" using that assms(2) by auto
    then have "u ! (i + k div 8) = 0" using zero_bytes_all [OF assms(1)] by simp
    then show ?thesis by (simp add: slot_used_div)
  qed
  then show ?thesis using assms by (simp add: free_run_def)
qed

lemma free_run_in_byte:
  assumes "b + m \<le> 8" "\<forall>k < m. \<not> bit (u ! i) (b + k)" "n \<le> m" "i < mb"
  shows "free_run u mb n (i * 8 + b)"
proof -
  have "\<not> slot_used u (i * 8 + (b + k))" if "k < n" for k
    using slot_used_byte [of "b + k" u i] that assms by auto
  then show ?thesis using assms by (auto simp: free_run_def add.assoc)
qed

lemma free_run_two_bytes:
  assumes "b + m = 8" "\<forall>k < m. \<not> bit (u ! i) (b + k)"
    "\<forall>k < m2. \<not> bit (u ! (i + 1)) k" "n - m \<le> m2" "m2 \<le> 8" "i + 1 < mb"
  shows "free_run u mb n (i * 8 + b)"
proof -
  have "\<not> slot_used u (i * 8 + b + k)" if "k < n" for k
  proof (cases "k < m")
    case True
    then show ?thesis using slot_used_byte [of "b + k" u i] assms(1,2) by (auto simp: add.assoc)
  next
    case False
    then have e: "i * 8 + b + k = (i + 1) * 8 + (k - m)" and "k - m < m2" using assms(1,4) that by auto
    then show ?thesis unfolding e using slot_used_byte [of "k - m" u "i + 1"] assms(3,5) by auto
  qed
  then show ?thesis using assms by (auto simp: free_run_def)
qed

lemma slotmap_search_sound:
  assumes "0 < n" "sb = slot_map_bytes n"
  shows "\<exists>r. slotmap_search u mb sb n i = Some r \<and> (\<forall>s. r = Some s \<longrightarrow> free_run u mb n s)"
proof (induction "mb - i" arbitrary: i rule: less_induct)
  case less
  let ?next = "\<lambda>i. \<exists>r. slotmap_search u mb sb n i = Some r \<and> (\<forall>s. r = Some s \<longrightarrow> free_run u mb n s)"
  show ?case
  proof (cases "i < mb")
    case False
    then show ?thesis by (subst slotmap_search.simps) simp
  next
    case i: True
    have IH: "?next (i + d + 1)" for d using less [of "i + d + 1"] i by simp
    obtain m st where f: "find_consecutive_zero_bits (u ! i) n = (m, st)" by fastforce
    obtain m' st' where f': "find_consecutive_zero_bits (u ! i) m = (m', st')" by fastforce
    obtain m2 st2 where f2: "find_consecutive_zero_bits (u ! (i + 1)) (n - m) = (m2, st2)" by fastforce
    have m': "m' = m" using f f' by (auto simp: find_consecutive_zero_bits_def split: prod.splits)
    consider (full) "u ! i = 0xFF" | (bytes) "u ! i \<noteq> 0xFF" "sb > 1" "i + sb \<le> mb"
      | (bits) "u ! i \<noteq> 0xFF" "\<not> (sb > 1 \<and> i + sb \<le> mb)" by blast
    then show ?thesis
    proof cases
      case full
      then show ?thesis using IH [of 0] i by (subst slotmap_search.simps) simp
    next
      case bytes
      have "free_run u mb n (i * 8)" if "zero_bytes u i sb = sb"
        by (rule free_run_bytes [OF that]) (use bytes assms(2) slot_map_bytes_bounds(1) in auto)
      then show ?thesis using bytes i IH [of "zero_bytes u i sb"]
        by (subst slotmap_search.simps) (auto simp: Let_def BYTE_BIT_TO_SLOT_def)
    next
      case bits
      have one: "st = Some b \<Longrightarrow> n \<le> m \<Longrightarrow> free_run u mb n (i * 8 + b)" for b
        using find_consecutive_sound(3) [OF f, of b] i by (intro free_run_in_byte [of b m]) auto
      obtain b' where b': "st' = Some b'" using find_consecutive_sound(2) [OF f'] m' by auto
      have two: "free_run u mb n (i * 8 + b')"
        if "b' = 8 - m" "n - m \<le> m2" "st2 = Some 0" "i + 1 < mb"
        using find_consecutive_sound(3) [OF f' b'] find_consecutive_sound(3) [OF f2 that(3)] m' that
        by (intro free_run_two_bytes [of b' m u i m2]) auto
      show ?thesis
        using bits i f f' f2 m' b' one two IH [of 0] find_consecutive_sound(2) [OF f]
        by (subst slotmap_search.simps) (auto simp: Let_def BYTE_BIT_TO_SLOT_def)
    qed
  qed
qed

section \<open>Invariant\<close>

definition used_set :: "slot_map \<Rightarrow> nat set" where
  "used_set m = {i. slot_used (use_map m) i}"

definition slot_inv :: "slot_map \<Rightarrow> bool" where
  "slot_inv m \<longleftrightarrow>
     length (use_map m) = slot_map_bytes (unat (total_slots m)) \<and>
     unat (used_slots m) = card (used_set m) \<and> used_slots m \<le> total_slots m \<and>
     unat (total_slots m) < 2 ^ 63 \<and> (used_slots m = 0 \<longrightarrow> last_used_slot m = - 1)"

lemma finite_used [simp]: "finite (used_set m)"
  by (rule finite_subset [of _ "{..<8 * length (use_map m)}"]) (auto simp: used_set_def slot_used_def)

lemma used_set_bound: "i \<in> used_set m \<Longrightarrow> i < 8 * length (use_map m)"
  by (simp add: used_set_def slot_used_def)

lemma slot_clear_inv:
  assumes "unat (total_slots m) < 2 ^ 63"
  shows "slot_inv (slotmap_clear m)" "used_set (slotmap_clear m) = {}"
proof -
  show empty: "used_set (slotmap_clear m) = {}"
    by (auto simp: slotmap_clear_def used_set_def slot_used_div)
  show "slot_inv (slotmap_clear m)"
    using assms empty unfolding slot_inv_def by (simp add: slotmap_clear_def)
qed

lemma unat_end_slot:
  fixes s n :: u64
  assumes "0 < unat n" "unat s + unat n \<le> 2 ^ 64 - 1"
  shows "unat (s + n - 1) = unat s + unat n - 1"
proof -
  have "unat (s + n) = unat s + unat n" using assms by (intro unat_plus_simple [THEN iffD1] no_olen_add_nat [THEN iffD2]) auto
  then show ?thesis using assms by (subst unat_minus_one) (auto simp: unat_eq_0 [symmetric])
qed

lemma reserve_found:
  assumes inv: "slot_inv m" and n: "0 < unat n" "\<not> get_free_slots m < n"
    and search: "slotmap_search (use_map m) (slot_map_bytes (unat (total_slots m))) (slot_map_bytes (unat n)) (unat n)
      (if last_used_slot m \<noteq> - 1 \<and> slot_map_bytes (unat n) > 1 then SLOT_BYTE (unat (last_used_slot m)) else 0) =
      Some (Some s)"
    and s: "s + unat n \<le> 8 * length (use_map m)" "s + unat n < 2 ^ 64"
  shows "\<exists>u m'. use_slots (use_map m) s (s + unat n - 1) = Some u \<and>
    slotmap_reserve m n = Some (of_nat s, m') \<and> use_map m' = u \<and>
    used_slots m' = used_slots m + n \<and> total_slots m' = total_slots m"
proof -
  have us: "unat (of_nat s :: u64) = s" using s(2) by (intro u64_of_nat) simp
  have ue: "unat (of_nat s + n - 1 :: u64) = s + unat n - 1"
    using unat_end_slot [OF n(1), of "of_nat s"] us s(2) by simp
  have "s + unat n - 1 < 8 * length (use_map m)" "s \<le> s + unat n - 1 + 1" using s(1) n(1) by linarith+
  from use_slots_used [OF this] obtain u where "use_slots (use_map m) s (s + unat n - 1) = Some u" by blast
  with search n us ue show ?thesis by (simp add: slotmap_reserve_def Let_def unat_gt_0)
qed

lemma used_slots_add:
  assumes "slot_inv m" "\<not> get_free_slots m < n"
  shows "unat (used_slots m + n) = unat (used_slots m) + unat n" "used_slots m + n \<le> total_slots m"
proof -
  have "n \<le> total_slots m - used_slots m" "used_slots m \<le> total_slots m"
    using assms by (auto simp: get_free_slots_def slot_inv_def)
  then show "unat (used_slots m + n) = unat (used_slots m) + unat n" "used_slots m + n \<le> total_slots m"
    by (unat_arith, unat_arith)
qed

lemma reserve_cases:
  assumes inv: "slot_inv m"
  obtains (full) "slotmap_reserve m n = Some (- 1, m)"
  | (ok) s m' where "slotmap_reserve m n = Some (s, m')" "0 < unat n" "slot_inv m'"
      "unat s + unat n \<le> 8 * length (use_map m)" "unat s + unat n < 2 ^ 64"
      "used_set m \<inter> {unat s..<unat s + unat n} = {}"
      "used_set m' = used_set m \<union> {unat s..<unat s + unat n}" "total_slots m' = total_slots m"
proof (cases "n = 0 \<or> get_free_slots m < n")
  case True
  then show thesis using full by (auto simp: slotmap_reserve_def)
next
  case False
  let ?mb = "slot_map_bytes (unat (total_slots m))" and ?sb = "slot_map_bytes (unat n)"
  let ?st = "if last_used_slot m \<noteq> - 1 \<and> ?sb > 1 then SLOT_BYTE (unat (last_used_slot m)) else 0"
  have n: "0 < unat n" "\<not> get_free_slots m < n" using False by (simp_all add: unat_gt_0)
  have len: "length (use_map m) = ?mb" using inv by (simp add: slot_inv_def)
  obtain r where r: "slotmap_search (use_map m) ?mb ?sb (unat n) ?st = Some r"
    "\<forall>s. r = Some s \<longrightarrow> free_run (use_map m) ?mb (unat n) s"
    using slotmap_search_sound [OF n(1) refl] by metis
  show thesis
  proof (cases r)
    case None
    then show thesis using full False r(1) by (simp add: slotmap_reserve_def Let_def)
  next
    case (Some s)
    have s: "s + unat n \<le> 8 * length (use_map m)" "\<forall>k < unat n. \<not> slot_used (use_map m) (s + k)"
      using r(2) Some len by (auto simp: free_run_def)
    have s64: "s + unat n < 2 ^ 64"
      using s(1) inv slot_map_bytes_bounds(2) [of "unat (total_slots m)"] by (simp add: slot_inv_def)
    obtain u m' where m': "use_slots (use_map m) s (s + unat n - 1) = Some u"
      "slotmap_reserve m n = Some (of_nat s, m')" "use_map m' = u"
      "used_slots m' = used_slots m + n" "total_slots m' = total_slots m"
      using reserve_found [OF inv n r(1) [unfolded Some] s(1) s64] by blast
    have "s + unat n - 1 < 8 * length (use_map m)" "s \<le> s + unat n - 1 + 1" using s(1) n(1) by linarith+
    from use_slots_used [OF this] m'(1) len
    have u: "length u = ?mb" "slot_used u j \<longleftrightarrow> slot_used (use_map m) j \<or> (s \<le> j \<and> j \<le> s + unat n - 1)" for j
      by auto
    have dis: "used_set m \<inter> {s..<s + unat n} = {}"
    proof -
      have "\<not> slot_used (use_map m) j" if "s \<le> j" "j < s + unat n" for j
        using s(2) [rule_format, of "j - s"] that by simp
      then show ?thesis by (auto simp: used_set_def)
    qed
    have set: "used_set m' = used_set m \<union> {s..<s + unat n}"
      unfolding used_set_def m'(3) u(2) using n(1) by auto
    have "card (used_set m') = card (used_set m) + unat n"
      unfolding set using dis by (subst card_Un_disjoint) auto
    then have "slot_inv m'"
      using inv u(1) used_slots_add [OF inv n(2)] n m' by (auto simp: slot_inv_def unat_eq_0 [symmetric])
    then show thesis using ok [OF m'(2) n(1)] u64_of_nat [of s] s(1) s64 dis set m'(5) by simp
  qed
qed

lemma next_used_returns:
  assumes "total_num \<le> 8 * length u"
  shows "\<exists>r. next_used u total_num slot = Some r"
  using assms
proof (induction "total_num - slot" arbitrary: slot)
  case 0
  then show ?case by (subst next_used.simps) simp
next
  case (Suc n)
  then show ?case using Suc.hyps(1) [of "slot + 1"] check_slot_used [of slot u]
    by (subst next_used.simps) simp
qed

lemma prev_used_returns: "n \<le> 8 * length u \<Longrightarrow> \<exists>r. prev_used u n = Some r"
  by (induction n) (auto simp: check_slot_used)

lemma release_spec:
  assumes inv: "slot_inv m" and n: "0 < unat n" and used: "{unat s..<unat s + unat n} \<subseteq> used_set m"
  shows "\<exists>m'. slotmap_release m s n = Some (UNIFYFS_SUCCESS, m') \<and> slot_inv m' \<and>
     used_set m' = used_set m - {unat s..<unat s + unat n} \<and> total_slots m' = total_slots m"
proof -
  let ?e = "unat s + unat n - 1"
  have mem: "unat s \<in> used_set m" "?e \<in> used_set m" using used n by auto
  have e: "?e < 8 * length (use_map m)" "unat s \<le> ?e + 1" "unat s \<le> 8 * length (use_map m)"
    using used_set_bound [OF mem(2)] n by linarith+
  have small: "8 * length (use_map m) < 2 ^ 63 + 8"
    using inv slot_map_bytes_bounds(2) [of "unat (total_slots m)"] by (simp add: slot_inv_def)
  have ue: "unat (s + n - 1) = ?e" by (rule unat_end_slot [OF n]) (use e(1) small n in simp)
  have chk: "check_slot (use_map m) (unat s) = Some True"
    using check_slot_used [of "unat s" "use_map m"] used_set_bound [OF mem(1)] mem(1) by (simp add: used_set_def)
  from release_slots_used [OF e(1,2)] obtain u where
    u: "release_slots (use_map m) (unat s) ?e = Some u" "length u = length (use_map m)"
      "\<And>j. slot_used u j \<longleftrightarrow> slot_used (use_map m) j \<and> \<not> (unat s \<le> j \<and> j \<le> ?e)" by auto
  obtain f where f: "next_used u (unat (total_slots m)) (unat (s + n)) = Some f"
    using next_used_returns [of "unat (total_slots m)" u] u(2) inv slot_map_bytes_bounds(1) by (auto simp: slot_inv_def)
  obtain l where l: "prev_used u (unat s) = Some l"
    using prev_used_returns [of "unat s" u] u(2) e(3) by auto
  have "\<exists>m'. slotmap_release m s n = Some (UNIFYFS_SUCCESS, m') \<and> use_map m' = u \<and>
      used_slots m' = used_slots m - n \<and> total_slots m' = total_slots m \<and>
      (used_slots m' = 0 \<longrightarrow> last_used_slot m' = - 1)"
    using chk u(1) ue f l
    by (cases "used_slots m - n = 0"; cases "s = first_used_slot m") (auto simp: slotmap_release_def Let_def)
  then obtain m' where m': "slotmap_release m s n = Some (UNIFYFS_SUCCESS, m')" "use_map m' = u"
    "used_slots m' = used_slots m - n" "total_slots m' = total_slots m"
    "used_slots m' = 0 \<longrightarrow> last_used_slot m' = - 1" by blast
  have set: "used_set m' = used_set m - {unat s..<unat s + unat n}"
    unfolding used_set_def m'(2) u(3) using n by auto
  have "unat n \<le> unat (used_slots m)"
    using card_mono [OF _ used] inv by (simp add: slot_inv_def)
  then have "unat (used_slots m - n) = unat (used_slots m) - unat n" "used_slots m - n \<le> used_slots m"
    by (simp_all add: unat_sub word_sub_le word_le_nat_alt)
  moreover have "card (used_set m') = card (used_set m) - unat n"
    unfolding set using used by (subst card_Diff_subset) auto
  ultimately have "slot_inv m'"
    using inv u(2) m' by (auto simp: slot_inv_def intro: order.trans)
  then show ?thesis using m'(1,4) set by blast
qed

section \<open>Blocks handed out by an allocator\<close>

text \<open>
  The contract of an allocator of consecutive units: a reservation hands out units that were free, a
  release gives them back. \<open>pool_reach\<close> are the states a client can reach by reserving and
  releasing, with the blocks it holds.
\<close>

definition block :: "u64 \<Rightarrow> u64 \<Rightarrow> nat set" where
  "block s n = {unat s..<unat s + unat n}"

inductive pool_reach ::
  "('p \<Rightarrow> u64 \<Rightarrow> (u64 \<times> 'p) option) \<Rightarrow> ('p \<Rightarrow> u64 \<Rightarrow> u64 \<Rightarrow> (unifyfs_rc \<times> 'p) option)
   \<Rightarrow> 'p \<Rightarrow> 'p \<Rightarrow> (u64 \<times> u64) list \<Rightarrow> bool"
  for reserve release p0 where
  start: "pool_reach reserve release p0 p0 []"
| alloc: "pool_reach reserve release p0 p bs \<Longrightarrow> reserve p n = Some (s, p') \<Longrightarrow> s \<noteq> - 1
     \<Longrightarrow> pool_reach reserve release p0 p' ((s, n) # bs)"
| fail: "pool_reach reserve release p0 p bs \<Longrightarrow> reserve p n = Some (- 1, p')
     \<Longrightarrow> pool_reach reserve release p0 p' bs"
| free: "pool_reach reserve release p0 p (as @ (s, n) # bs) \<Longrightarrow> release p s n = Some (rc, p')
     \<Longrightarrow> pool_reach reserve release p0 p' (as @ bs)"

locale block_pool =
  fixes inv :: "'p \<Rightarrow> bool"
    and used :: "'p \<Rightarrow> nat set"
    and reserve :: "'p \<Rightarrow> u64 \<Rightarrow> (u64 \<times> 'p) option"
    and release :: "'p \<Rightarrow> u64 \<Rightarrow> u64 \<Rightarrow> (unifyfs_rc \<times> 'p) option"
  assumes reserve_law: "inv p \<Longrightarrow> reserve p n = Some (s, p') \<Longrightarrow> s \<noteq> - 1 \<Longrightarrow>
      inv p' \<and> 0 < unat n \<and> used p \<inter> block s n = {} \<and> used p' = used p \<union> block s n"
    and reserve_fail: "inv p \<Longrightarrow> reserve p n = Some (- 1, p') \<Longrightarrow> p' = p"
    and release_law: "inv p \<Longrightarrow> 0 < unat n \<Longrightarrow> block s n \<subseteq> used p \<Longrightarrow>
      \<exists>p'. release p s n = Some (UNIFYFS_SUCCESS, p') \<and> inv p' \<and> used p' = used p - block s n"
begin

lemma blocks_disjoint:
  assumes "pool_reach reserve release p0 p bs" "inv p0" "used p0 = {}"
  shows "inv p \<and> used p = (\<Union>(s, n) \<in> set bs. block s n) \<and>
     sorted_wrt (\<lambda>(s, n) (s', n'). block s n \<inter> block s' n' = {}) bs \<and> (\<forall>(s, n) \<in> set bs. 0 < unat n)"
  using assms(1)
proof (induction rule: pool_reach.induct)
  case start
  then show ?case using assms by simp
next
  case (alloc p bs n s p')
  then show ?case using reserve_law [of p n s p'] by auto
next
  case (fail p bs n p')
  then show ?case using reserve_fail by metis
next
  case (free p as s n bs rc p')
  then have IH: "inv p" "used p = (\<Union>(s, n) \<in> set (as @ (s, n) # bs). block s n)" "0 < unat n"
    "sorted_wrt (\<lambda>(s, n) (s', n'). block s n \<inter> block s' n' = {}) (as @ (s, n) # bs)" by auto
  have "block s n \<subseteq> used p" unfolding IH(2) by auto
  from release_law [OF IH(1,3) this] have p': "inv p'" "used p' = used p - block s n"
    using free.hyps(2) by auto
  have "(\<Union>(s, n) \<in> set (as @ bs). block s n) \<inter> block s n = {}"
    using IH(4) by (auto simp: sorted_wrt_append)
  then have "used p' = (\<Union>(s, n) \<in> set (as @ bs). block s n)"
    unfolding p'(2) IH(2) by auto
  then show ?case using p'(1) free.IH by (auto simp: sorted_wrt_append)
qed

end

interpretation slots: block_pool slot_inv used_set slotmap_reserve slotmap_release
proof
  fix m n s m' assume a: "slot_inv m" "slotmap_reserve m n = Some (s, m')" "s \<noteq> - 1"
  show "slot_inv m' \<and> 0 < unat n \<and> used_set m \<inter> block s n = {} \<and> used_set m' = used_set m \<union> block s n"
    by (rule reserve_cases [OF a(1), of n]) (use a(2,3) in \<open>auto simp: block_def\<close>)
next
  fix m n m' assume a: "slot_inv m" "slotmap_reserve m n = Some (- 1, m')"
  show "m' = m"
  proof (rule reserve_cases [OF a(1), of n])
    fix s m'' assume "slotmap_reserve m n = Some (s, m'')" "unat s + unat n < 2 ^ 64" "0 < unat n"
    moreover have "unat (- 1 :: u64) = 2 ^ 64 - 1" by (simp add: unsigned_minus_1_eq_mask mask_eq_exp_minus_1)
    ultimately show ?thesis using a(2) by auto
  qed (use a in auto)
next
  fix m n s assume "slot_inv m" "0 < unat n" "block s n \<subseteq> used_set m"
  then show "\<exists>m'. slotmap_release m s n = Some (UNIFYFS_SUCCESS, m') \<and> slot_inv m' \<and> used_set m' = used_set m - block s n"
    using release_spec [of m n s] by (auto simp: block_def)
qed

section \<open>Properties\<close>

text \<open>
  (C17) Starting from a cleared slot map, whatever a client reserves and releases in whatever order,
  the reservations it holds are pairwise disjoint, none is empty, and the slots marked as used are
  exactly the slots of these reservations.
\<close>

theorem slotmap_blocks_disjoint:
  assumes "unat (total_slots m0) < 2 ^ 63"
    and "pool_reach slotmap_reserve slotmap_release (slotmap_clear m0) m bs"
  shows "slot_inv m \<and> used_set m = (\<Union>(s, n) \<in> set bs. block s n) \<and>
     sorted_wrt (\<lambda>(s, n) (s', n'). block s n \<inter> block s' n' = {}) bs \<and> (\<forall>(s, n) \<in> set bs. 0 < unat n)"
  by (rule slots.blocks_disjoint [OF assms(2) slot_clear_inv [OF assms(1)]])

theorem slotmap_blocks_disjoint_witness:
  "\<exists>m m' s. pool_reach slotmap_reserve slotmap_release
       (slotmap_clear \<lparr>total_slots = 16, used_slots = 0, first_used_slot = 0, last_used_slot = 0, use_map = []\<rparr>) m' [(s, 3)] \<and>
     used_set m' = block s 3"
proof -
  let ?m0 = "\<lparr>total_slots = 16, used_slots = 0, first_used_slot = 0, last_used_slot = 0, use_map = []\<rparr>"
  let ?m' = "\<lparr>total_slots = 16, used_slots = 3, first_used_slot = 0, last_used_slot = 2, use_map = [7, 0]\<rparr>"
  have "slotmap_reserve (slotmap_clear ?m0) 3 = Some (0, ?m')" by code_simp
  then have "pool_reach slotmap_reserve slotmap_release (slotmap_clear ?m0) ?m' [(0, 3)]"
    by (intro pool_reach.alloc [OF pool_reach.start]) simp_all
  moreover from slotmap_blocks_disjoint [OF _ this] have "used_set ?m' = block 0 3" by simp
  ultimately show ?thesis by blast
qed

text \<open>
  (C24) A reservation always returns (neither an \<^verbatim>\<open>assert\<close> fails nor an access leaves the map) and keeps
  the map consistent. It fails without a change, or it marks consecutive slots that were free before
  and changes no other slot. If the number of slots is a multiple of 8, the reserved slots are below
  the number of slots.
\<close>

theorem slotmap_reserve_sound:
  assumes "slot_inv m"
  shows "\<exists>s m'. slotmap_reserve m n = Some (s, m') \<and> slot_inv m' \<and>
     (s = - 1 \<and> m' = m \<or>
      0 < unat n \<and> used_set m \<inter> block s n = {} \<and> used_set m' = used_set m \<union> block s n \<and>
      (unat (total_slots m) mod 8 = 0 \<longrightarrow> unat s + unat n \<le> unat (total_slots m)))"
proof (rule reserve_cases [OF assms, of n])
  fix s m'
  assume *: "slotmap_reserve m n = Some (s, m')" "slot_inv m'" "0 < unat n"
    "used_set m \<inter> {unat s..<unat s + unat n} = {}" "used_set m' = used_set m \<union> {unat s..<unat s + unat n}"
    and len: "unat s + unat n \<le> 8 * length (use_map m)"
  have "unat s + unat n \<le> unat (total_slots m)" if "unat (total_slots m) mod 8 = 0"
  proof -
    have "8 * slot_map_bytes (unat (total_slots m)) = unat (total_slots m)"
      using that by (auto simp: slot_map_bytes_def SLOT_BYTE_def SLOT_BIT_def Let_def)
    then show ?thesis using len assms by (simp add: slot_inv_def)
  qed
  then show ?thesis using * by (auto simp: block_def)
qed (use assms in auto)

theorem slotmap_reserve_sound_witness:
  "\<exists>s m'. slotmap_reserve \<lparr>total_slots = 16, used_slots = 0, first_used_slot = - 1, last_used_slot = - 1, use_map = [0, 0]\<rparr> 9 =
     Some (s, m') \<and> slot_inv m'"
proof -
  let ?m = "slotmap_clear \<lparr>total_slots = 16, used_slots = 0, first_used_slot = 0, last_used_slot = 0, use_map = []\<rparr>"
  have "?m = \<lparr>total_slots = 16, used_slots = 0, first_used_slot = - 1, last_used_slot = - 1, use_map = [0, 0]\<rparr>"
    by code_simp
  moreover have "slot_inv ?m" by (rule slot_clear_inv) simp
  ultimately show ?thesis using slotmap_reserve_sound [of ?m 9] by auto
qed


text \<open>
  Releasing slots that are in use undoes their reservation: the call succeeds, exactly these
  slots become free, and the map stays consistent. Reserving slots and releasing them again gives
  back the old set of used slots.
\<close>

theorem slotmap_release_roundtrip:
  assumes "slot_inv m" and "slotmap_reserve m n = Some (s, m')" and "s \<noteq> - 1"
  shows "\<exists>m''. slotmap_release m' s n = Some (UNIFYFS_SUCCESS, m'') \<and> slot_inv m'' \<and> used_set m'' = used_set m"
proof -
  have r: "slot_inv m'" "0 < unat n" "used_set m \<inter> block s n = {}" "used_set m' = used_set m \<union> block s n"
    using slots.reserve_law [OF assms] by auto
  from slots.release_law [OF r(1,2), of s] r(3,4) show ?thesis by auto
qed

theorem slotmap_release_roundtrip_witness:
  "\<exists>m''. slotmap_release \<lparr>total_slots = 16, used_slots = 3, first_used_slot = 0, last_used_slot = 2, use_map = [7, 0]\<rparr> 0 3 =
     Some (UNIFYFS_SUCCESS, m'') \<and> used_set m'' = {}"
proof -
  let ?m0 = "\<lparr>total_slots = 16, used_slots = 0, first_used_slot = 0, last_used_slot = 0, use_map = []\<rparr>"
  have "slotmap_reserve (slotmap_clear ?m0) 3 =
      Some (0, \<lparr>total_slots = 16, used_slots = 3, first_used_slot = 0, last_used_slot = 2, use_map = [7, 0]\<rparr>)"
    by code_simp
  from slotmap_release_roundtrip [OF slot_clear_inv(1) this] slot_clear_inv(2) [of ?m0] show ?thesis by auto
qed

lemma zero_bytes_zero: "(\<And>k. k < n \<Longrightarrow> u ! (i + k) = 0) \<Longrightarrow> zero_bytes u i n = n"
proof (induction n arbitrary: i)
  case (Suc n)
  have "u ! i = 0" using Suc.prems [of 0] by simp
  moreover have "zero_bytes u (i + 1) n = n" using Suc.IH [of "i + 1"] Suc.prems [of "Suc _"] by simp
  ultimately show ?case by simp
qed simp

lemma search_empty:
  assumes "\<And>i. i < mb \<Longrightarrow> u ! i = 0" "0 < n" "n \<le> 8 * mb"
  shows "slotmap_search u mb (slot_map_bytes n) n 0 = Some (Some 0)"
proof -
  have mb: "0 < mb" using assms(2,3) by simp
  have run: "find_consecutive_zero_bits 0 n = (8, if 8 \<ge> n then Some 0 else None)"
  proof -
    have "find_zero_run 0 0 0 0 = (8, 0)" by code_simp
    then show ?thesis by (simp add: find_consecutive_zero_bits_def)
  qed
  show ?thesis
  proof (cases "slot_map_bytes n > 1")
    case True
    have "slot_map_bytes n \<le> mb" using assms(3) slot_map_bytes_bounds(2) [of n] by linarith
    moreover from this have "zero_bytes u 0 (slot_map_bytes n) = slot_map_bytes n"
      using assms(1) by (intro zero_bytes_zero) simp
    ultimately show ?thesis using True mb assms(1)
      by (subst slotmap_search.simps) (simp add: Let_def BYTE_BIT_TO_SLOT_def)
  next
    case False
    then have "n \<le> 8" using slot_map_bytes_bounds(1) [of n] by linarith
    then show ?thesis using False mb assms(1) run
      by (subst slotmap_search.simps) (simp add: Let_def BYTE_BIT_TO_SLOT_def)
  qed
qed

text \<open>
  In an empty map a reservation of at most all slots succeeds, and starts at slot 0.
\<close>

theorem slotmap_reserve_empty:
  assumes "slot_inv m" and "used_set m = {}" and "0 < n" and "n \<le> total_slots m"
  shows "\<exists>m'. slotmap_reserve m n = Some (0, m') \<and> used_set m' = block 0 n"
proof -
  let ?mb = "slot_map_bytes (unat (total_slots m))"
  have u0: "used_slots m = 0" "last_used_slot m = - 1"
    using assms(1,2) by (auto simp: slot_inv_def unat_eq_0)
  have len: "length (use_map m) = ?mb" using assms(1) by (simp add: slot_inv_def)
  have "use_map m ! i = 0" if "i < ?mb" for i
  proof (rule bit_word_eqI)
    fix k assume "k < LENGTH(8)"
    then show "bit (use_map m ! i) k = bit (0::u8) k"
      using slot_used_byte [of k "use_map m" i] that len assms(2) by (auto simp: used_set_def)
  qed
  moreover have n: "0 < unat n" "unat n \<le> 8 * ?mb"
    using assms(3,4) slot_map_bytes_bounds(1) [of "unat (total_slots m)"]
    by (simp_all add: unat_gt_0 word_gt_0 word_le_nat_alt)
  ultimately have search: "slotmap_search (use_map m) ?mb (slot_map_bytes (unat n)) (unat n) 0 = Some (Some 0)"
    by (rule search_empty)
  have free: "\<not> get_free_slots m < n" using assms(4) u0 by (simp add: get_free_slots_def)
  have n64: "unat n < 2 ^ 64"
    using assms(1,4) by (simp add: slot_inv_def word_le_nat_alt)
  from reserve_found [OF assms(1) n(1) free, of 0] search u0(2) len n obtain m' where
    m': "slotmap_reserve m n = Some (0, m')" using n64 by auto
  moreover have "(0::u64) \<noteq> - 1" by simp
  from slots.reserve_law [OF assms(1) m' this] assms(2) have "used_set m' = block 0 n" by simp
  ultimately show ?thesis by blast
qed

theorem slotmap_reserve_empty_witness:
  "\<exists>m'. slotmap_reserve (slotmap_clear \<lparr>total_slots = 12, used_slots = 0, first_used_slot = 0, last_used_slot = 0,
      use_map = []\<rparr>) 12 = Some (0, m') \<and> used_set m' = block 0 12"
  by (rule slotmap_reserve_empty) (simp_all add: slot_clear_inv, simp add: slotmap_clear_def)

end
