(* ===== verification/Free_Stack.thy ===== *)
theory Free_Stack
  imports Prelude
begin

text \<open>
  The stack of free indices of \<^verbatim>\<open>common/src/unifyfs-stack.c\<close>, with which the client hands out file
  ids, file descriptors, stream and directory indices. The structure and its entries are one memory
  block; here the entries are a field of the record.
\<close>

section \<open>Operations\<close>

record unifyfs_stack =
  stack_size :: int
  stack_last :: int
  stack_entries :: "int list"

definition unifyfs_stack_bytes :: "int \<Rightarrow> int" where
  "unifyfs_stack_bytes num = 8 + num * 4"

definition unifyfs_stack_init :: "int \<Rightarrow> unifyfs_stack" where
  "unifyfs_stack_init num =
     \<lparr>stack_size = num, stack_last = num, stack_entries = map (\<lambda>i. num - 1 - int i) [0..<nat num]\<rparr>"

text \<open>An access outside of the entries is \<^term>\<open>None\<close>; an empty stack pops \<open>- 1\<close>.\<close>

definition unifyfs_stack_pop :: "unifyfs_stack \<Rightarrow> (int \<times> unifyfs_stack) option" where
  "unifyfs_stack_pop stack =
     (if stack_last stack > 0 then
        let idx = stack_last stack - 1 in
        if nat idx < length (stack_entries stack)
        then Some (stack_entries stack ! nat idx, stack\<lparr>stack_last := idx\<rparr>) else None
      else Some (- 1, stack))"

definition unifyfs_stack_push :: "unifyfs_stack \<Rightarrow> int \<Rightarrow> unifyfs_stack option" where
  "unifyfs_stack_push stack value =
     (if stack_last stack < stack_size stack then
        let idx = stack_last stack in
        if 0 \<le> idx \<and> nat idx < length (stack_entries stack)
        then Some (stack\<lparr>stack_entries := (stack_entries stack)[nat idx := value], stack_last := idx + 1\<rparr>)
        else None
      else Some stack)"

section \<open>A pool of indices\<close>

text \<open>
  What the clients of the stack rely on. \<open>avail p\<close> are the indices that can be handed out. A state
  \<open>id_reach\<close> can be reached by taking and returning indices; \<open>held\<close> are the indices in use, and only
  a held index is returned.
\<close>

inductive id_reach :: "('p \<Rightarrow> (int \<times> 'p) option) \<Rightarrow> ('p \<Rightarrow> int \<Rightarrow> 'p option) \<Rightarrow> 'p \<Rightarrow> 'p \<Rightarrow> int list \<Rightarrow> bool"
  for take_id put_id p0 where
  start: "id_reach take_id put_id p0 p0 []"
| pop: "id_reach take_id put_id p0 p held \<Longrightarrow> take_id p = Some (i, p') \<Longrightarrow> i \<noteq> - 1
     \<Longrightarrow> id_reach take_id put_id p0 p' (i # held)"
| empty: "id_reach take_id put_id p0 p held \<Longrightarrow> take_id p = Some (- 1, p')
     \<Longrightarrow> id_reach take_id put_id p0 p' held"
| push: "id_reach take_id put_id p0 p (as @ i # bs) \<Longrightarrow> put_id p i = Some p'
     \<Longrightarrow> id_reach take_id put_id p0 p' (as @ bs)"

locale id_pool =
  fixes inv :: "'p \<Rightarrow> bool"
    and ids :: "'p \<Rightarrow> int set"
    and avail :: "'p \<Rightarrow> int set"
    and take_id :: "'p \<Rightarrow> (int \<times> 'p) option"
    and put_id :: "'p \<Rightarrow> int \<Rightarrow> 'p option"
  assumes ids_range: "- 1 \<notin> ids p" "inv p \<Longrightarrow> avail p \<subseteq> ids p"
    and take_empty: "inv p \<Longrightarrow> avail p = {} \<Longrightarrow> take_id p = Some (- 1, p)"
    and take_law: "inv p \<Longrightarrow> avail p \<noteq> {} \<Longrightarrow>
      \<exists>i p'. take_id p = Some (i, p') \<and> i \<in> avail p \<and> inv p' \<and> ids p' = ids p \<and> avail p' = avail p - {i}"
    and put_law: "inv p \<Longrightarrow> i \<in> ids p \<Longrightarrow> i \<notin> avail p \<Longrightarrow>
      \<exists>p'. put_id p i = Some p' \<and> inv p' \<and> ids p' = ids p \<and> avail p' = insert i (avail p)"
begin

lemma take_cases:
  assumes "inv p" "take_id p = Some (i, p')"
  shows "i = - 1 \<and> p' = p \<and> avail p = {} \<or>
    i \<noteq> - 1 \<and> i \<in> avail p \<and> inv p' \<and> ids p' = ids p \<and> avail p' = avail p - {i}"
  using take_empty [OF assms(1)] take_law [OF assms(1)] ids_range [of p] assms
  by (cases "avail p = {}") auto

lemma held_distinct:
  assumes "id_reach take_id put_id p0 p held" "inv p0" "avail p0 = ids p0"
  shows "inv p \<and> ids p = ids p0 \<and> distinct held \<and> set held \<inter> avail p = {} \<and> set held \<union> avail p = ids p0"
  using assms(1)
proof (induction rule: id_reach.induct)
  case start
  then show ?case using assms by simp
next
  case (pop p held i p')
  then show ?case using take_cases [of p i p'] by auto
next
  case (empty p held p')
  then show ?case using take_cases [of p "- 1" p'] by auto
next
  case (push p as i bs p')
  then have "inv p" "i \<in> ids p" "i \<notin> avail p" by auto
  from put_law [OF this] push show ?case by auto
qed

end

section \<open>The stack is such a pool\<close>

definition free_ids :: "unifyfs_stack \<Rightarrow> int list" where
  "free_ids s = take (nat (stack_last s)) (stack_entries s)"

definition stack_inv :: "unifyfs_stack \<Rightarrow> bool" where
  "stack_inv s \<longleftrightarrow> 0 \<le> stack_last s \<and> stack_last s \<le> stack_size s \<and>
     length (stack_entries s) = nat (stack_size s) \<and> distinct (free_ids s) \<and>
     set (free_ids s) \<subseteq> {0..<stack_size s}"

lemma stack_invD:
  assumes "stack_inv s"
  shows "0 \<le> stack_last s" "stack_last s \<le> stack_size s" "length (stack_entries s) = nat (stack_size s)"
    "distinct (free_ids s)" "set (free_ids s) \<subseteq> {0..<stack_size s}" "length (free_ids s) = nat (stack_last s)"
  using assms by (auto simp: stack_inv_def free_ids_def)

lemma stack_init_ok:
  assumes "0 \<le> num"
  shows "stack_inv (unifyfs_stack_init num)" "set (free_ids (unifyfs_stack_init num)) = {0..<num}"
proof -
  have all: "free_ids (unifyfs_stack_init num) = map (\<lambda>i. num - 1 - int i) [0..<nat num]"
    by (simp add: free_ids_def unifyfs_stack_init_def)
  show set: "set (free_ids (unifyfs_stack_init num)) = {0..<num}"
    unfolding all by (auto intro!: image_eqI [of _ _ "nat (num - 1 - _)"])
  show "stack_inv (unifyfs_stack_init num)"
    using assms set all by (auto simp: stack_inv_def unifyfs_stack_init_def distinct_map inj_on_def)
qed

lemma stack_pop_ok:
  assumes inv: "stack_inv s" and pos: "0 < stack_last s"
  shows "\<exists>i s'. unifyfs_stack_pop s = Some (i, s') \<and> free_ids s = free_ids s' @ [i] \<and>
    stack_inv s' \<and> stack_size s' = stack_size s"
proof -
  note D = stack_invD [OF inv]
  let ?n = "nat (stack_last s - 1)"
  have n: "nat (stack_last s) = Suc ?n" "?n < length (stack_entries s)" using pos D(2,3) by auto
  let ?s = "s\<lparr>stack_last := stack_last s - 1\<rparr>"
  have split: "free_ids s = free_ids ?s @ [stack_entries s ! ?n]"
    unfolding free_ids_def n(1) using n(2) by (simp add: take_Suc_conv_app_nth)
  have "stack_inv ?s"
    using D(2-5) pos unfolding split stack_inv_def by auto
  then show ?thesis using pos n(2) split by (auto simp: unifyfs_stack_pop_def Let_def)
qed

lemma stack_push_ok:
  assumes inv: "stack_inv s" and i: "i \<in> {0..<stack_size s}" "i \<notin> set (free_ids s)"
  shows "\<exists>s'. unifyfs_stack_push s i = Some s' \<and> free_ids s' = free_ids s @ [i] \<and>
    stack_inv s' \<and> stack_size s' = stack_size s"
proof -
  note D = stack_invD [OF inv]
  have "card (insert i (set (free_ids s))) \<le> card {0..<stack_size s}"
    using D(5) i(1) by (intro card_mono) auto
  then have room: "stack_last s < stack_size s"
    using i(2) distinct_card [OF D(4)] D(1,6) by simp
  let ?s = "s\<lparr>stack_entries := (stack_entries s)[nat (stack_last s) := i], stack_last := stack_last s + 1\<rparr>"
  have n: "nat (stack_last s + 1) = Suc (nat (stack_last s))" "nat (stack_last s) < length (stack_entries s)"
    using D(1-3) room by auto
  have split: "free_ids ?s = free_ids s @ [i]"
    using n by (simp add: free_ids_def take_Suc_conv_app_nth)
  have "stack_inv ?s"
    using D room i split by (auto simp: stack_inv_def)
  then show ?thesis using room D(1) n(2) split by (auto simp: unifyfs_stack_push_def Let_def)
qed

interpretation stack_pool: id_pool stack_inv "\<lambda>s. {0..<stack_size s}" "\<lambda>s. set (free_ids s)"
  unifyfs_stack_pop unifyfs_stack_push
proof
  fix s assume inv: "stack_inv s"
  show "set (free_ids s) \<subseteq> {0..<stack_size s}" using stack_invD(5) [OF inv] .
  show "unifyfs_stack_pop s = Some (- 1, s)" if "set (free_ids s) = {}"
    using that stack_invD(1,6) [OF inv] by (simp add: unifyfs_stack_pop_def)
  show "\<exists>i s'. unifyfs_stack_pop s = Some (i, s') \<and> i \<in> set (free_ids s) \<and> stack_inv s' \<and>
      {0..<stack_size s'} = {0..<stack_size s} \<and> set (free_ids s') = set (free_ids s) - {i}"
    if "set (free_ids s) \<noteq> {}"
  proof -
    have "0 < stack_last s" using that stack_invD(1,6) [OF inv] by (cases "stack_last s = 0") auto
    from stack_pop_ok [OF inv this] show ?thesis using stack_invD(4) [OF inv] by fastforce
  qed
  show "\<exists>s'. unifyfs_stack_push s i = Some s' \<and> stack_inv s' \<and> {0..<stack_size s'} = {0..<stack_size s} \<and>
      set (free_ids s') = insert i (set (free_ids s))"
    if "i \<in> {0..<stack_size s}" "i \<notin> set (free_ids s)" for i
    using stack_push_ok [OF inv that] by auto
qed auto

text \<open>
  (C27) Starting from an initialised stack of \<open>n\<close> indices, whatever sequence of pops and pushes of held
  indices is performed, the indices in use are pairwise different, none of them is also free, and
  together with the free ones they are exactly \<open>0\<close> to \<open>n - 1\<close>.
\<close>

theorem stack_ids_unique:
  assumes "0 \<le> n" and "id_reach unifyfs_stack_pop unifyfs_stack_push (unifyfs_stack_init n) s held"
  shows "stack_inv s \<and> distinct held \<and> set held \<inter> set (free_ids s) = {} \<and>
    set held \<union> set (free_ids s) = {0..<n}"
proof -
  have n: "stack_size (unifyfs_stack_init n) = n" by (simp add: unifyfs_stack_init_def)
  from stack_pool.held_distinct [OF assms(2) stack_init_ok(1) [OF assms(1)]]
  show ?thesis using stack_init_ok(2) [OF assms(1)] n by simp
qed

theorem stack_ids_unique_witness:
  "\<exists>s. id_reach unifyfs_stack_pop unifyfs_stack_push (unifyfs_stack_init 2) s [1, 0] \<and> set (free_ids s) = {}"
proof -
  let ?s = "\<lparr>stack_size = 2, stack_last = 0, stack_entries = [1, 0]\<rparr>"
  have "unifyfs_stack_pop (unifyfs_stack_init 2) = Some (0, \<lparr>stack_size = 2, stack_last = 1, stack_entries = [1, 0]\<rparr>)"
    "unifyfs_stack_pop \<lparr>stack_size = 2, stack_last = 1, stack_entries = [1, 0]\<rparr> = Some (1, ?s)"
    by code_simp+
  then have r: "id_reach unifyfs_stack_pop unifyfs_stack_push (unifyfs_stack_init 2) ?s [1, 0]"
    by (intro id_reach.pop [OF id_reach.pop [OF id_reach.start]]) simp_all
  have "(0::int) \<le> 2" by simp
  from stack_ids_unique [OF this r] r show ?thesis by (auto simp: free_ids_def)
qed

end
