(* ===== verification/Kary_Tree.thy ===== *)
theory Kary_Tree
  imports Prelude "HOL-Library.Signed_Division"
begin

text \<open>
  The k-ary tree over the server ranks of \<^verbatim>\<open>server/src/unifyfs_tree.c\<close>, along which the servers
  broadcast and reduce. Each rank computes its parent and its children on its own; the theorems show
  that the ranks agree with each other. A null pointer is \<^term>\<open>None\<close>, undefined behaviour (integer
  overflow, division by zero, a write outside of the child array) gives the result \<^term>\<open>None\<close>.
\<close>

section \<open>Construction\<close>

record unifyfs_tree =
  t_rank :: int
  t_ranks :: int
  t_parent_rank :: int
  t_child_count :: int
  t_child_ranks :: "int list option"

definition fill_children :: "int list option \<Rightarrow> int \<Rightarrow> int \<Rightarrow> int list option option" where
  "fill_children arr left count =
     (if count \<le> 0 then Some arr
      else case arr of
        None \<Rightarrow> None
      | Some xs \<Rightarrow>
          if nat count \<le> length xs
          then Some (Some (map (\<lambda>i. left + int i) [0..<nat count] @ drop (nat count) xs)) else None)"

definition rotate_rank :: "int \<Rightarrow> int \<Rightarrow> int \<Rightarrow> int option" where
  "rotate_rank root ranks r = do {
     r \<leftarrow> c_int (r + root);
     Some (if r \<ge> ranks then r - ranks else r)
   }"

fun rotate_ranks :: "int \<Rightarrow> int \<Rightarrow> nat \<Rightarrow> int list \<Rightarrow> int list option" where
  "rotate_ranks root ranks 0 xs = Some xs"
| "rotate_ranks root ranks (Suc n) [] = None"
| "rotate_ranks root ranks (Suc n) (x # xs) = do {
     x \<leftarrow> rotate_rank root ranks x;
     xs \<leftarrow> rotate_ranks root ranks n xs;
     Some (x # xs)
   }"

definition unifyfs_tree_init :: "bool \<Rightarrow> int \<Rightarrow> int \<Rightarrow> int \<Rightarrow> int \<Rightarrow> (unifyfs_rc \<times> unifyfs_tree) option" where
  "unifyfs_tree_init ok rank ranks root k = do {
     rank \<leftarrow> c_int (rank - root);
     rank \<leftarrow> (if rank < 0 then c_int (rank + ranks) else Some rank);
     if k > 0 \<and> \<not> ok
     then Some (ENOMEM, \<lparr>t_rank = rank, t_ranks = ranks, t_parent_rank = - 1, t_child_count = 0, t_child_ranks = None\<rparr>)
     else do {
       let children = (if k > 0 then Some (replicate (nat k) (- 1)) else None);
       parent \<leftarrow> (if rank > 0 then if k = 0 then None else Some ((rank - 1) sdiv k) else Some (- 1));
       base \<leftarrow> c_int (rank * k);
       left \<leftarrow> c_int (base + 1);
       right \<leftarrow> c_int (base + k);
       let count = (if left < ranks then (if right \<ge> ranks then ranks - 1 else right) - left + 1 else 0);
       children \<leftarrow> fill_children children left count;
       rank \<leftarrow> rotate_rank root ranks rank;
       parent \<leftarrow> (if parent \<noteq> - 1 then rotate_rank root ranks parent else Some parent);
       children \<leftarrow> (case children of
           None \<Rightarrow> Some None
         | Some xs \<Rightarrow> map_option Some (rotate_ranks root ranks (nat count) xs));
       Some (UNIFYFS_SUCCESS, \<lparr>t_rank = rank, t_ranks = ranks, t_parent_rank = parent,
         t_child_count = count, t_child_ranks = children\<rparr>)
     }
   }"

definition unifyfs_tree_free :: "unifyfs_tree \<Rightarrow> unifyfs_tree" where
  "unifyfs_tree_free t =
     \<lparr>t_rank = 0, t_ranks = 0, t_parent_rank = 0, t_child_count = 0, t_child_ranks = None\<rparr>"

section \<open>The tree in terms of the distance to the root\<close>

text \<open>
  \<open>dist\<close> is the rank rotated so that the root is 0; the parent of a node at distance \<open>d > 0\<close> is at
  distance \<open>(d - 1) div k\<close>.
\<close>

definition valid_tree :: "int \<Rightarrow> int \<Rightarrow> int \<Rightarrow> bool" where
  "valid_tree ranks root k \<longleftrightarrow> 0 \<le> root \<and> root < ranks \<and> 1 \<le> k \<and> ranks * k < 2 ^ 30"

definition dist :: "int \<Rightarrow> int \<Rightarrow> int \<Rightarrow> int" where
  "dist ranks root r = (r - root) mod ranks"

definition unrotate :: "int \<Rightarrow> int \<Rightarrow> int \<Rightarrow> int" where
  "unrotate ranks root d = (d + root) mod ranks"

definition tree_parent :: "int \<Rightarrow> int \<Rightarrow> int \<Rightarrow> int \<Rightarrow> int" where
  "tree_parent ranks root k r =
     (if r = root then - 1 else unrotate ranks root ((dist ranks root r - 1) div k))"

definition tree_children :: "int \<Rightarrow> int \<Rightarrow> int \<Rightarrow> int \<Rightarrow> int list" where
  "tree_children ranks root k r =
     map (unrotate ranks root)
       (let left = dist ranks root r * k + 1 in [left..min (ranks - 1) (left + k - 1)])"

lemma rotate_rank_unrotate:
  assumes "0 \<le> root" "root < ranks" "0 \<le> d" "d < ranks" "ranks < 2 ^ 30"
  shows "rotate_rank root ranks d = Some (unrotate ranks root d)"
proof -
  have "(d + root) mod ranks = (if d + root \<ge> ranks then d + root - ranks else d + root)"
  proof (cases "d + root \<ge> ranks")
    case True
    have "(d + root - ranks) mod ranks = d + root - ranks" using True assms by (intro mod_pos_pos_trivial) auto
    then show ?thesis using True by simp
  qed (use assms in simp)
  then show ?thesis using assms by (simp add: rotate_rank_def unrotate_def c_int_def)
qed

lemma rotate_ranks_map:
  assumes "\<forall>x \<in> set (take n xs). rotate_rank root ranks x = Some (f x)" "n \<le> length xs"
  shows "rotate_ranks root ranks n xs = Some (map f (take n xs) @ drop n xs)"
  using assms
proof (induction n arbitrary: xs)
  case (Suc n)
  then show ?case by (cases xs) auto
qed simp

lemma unrotate_dist:
  assumes "0 \<le> root" "root < ranks"
  shows "0 \<le> r \<Longrightarrow> r < ranks \<Longrightarrow> unrotate ranks root (dist ranks root r) = r"
    and "0 \<le> d \<Longrightarrow> d < ranks \<Longrightarrow> dist ranks root (unrotate ranks root d) = d"
  using assms by (simp_all add: unrotate_def dist_def mod_simps)

lemma upt_map: "map (\<lambda>i. left + int i) [0..<nat n] = [left..left + n - 1]"
proof (cases "n \<le> 0")
  case False
  have "[left..left + n - 1] = map (\<lambda>i. left + int i) [0..<nat n]"
    by (rule nth_equalityI) (use False in \<open>auto simp: nth_upto\<close>)
  then show ?thesis by simp
qed simp

lemma valid_bounds:
  assumes v: "valid_tree ranks root k" and d: "0 \<le> d" "d < ranks"
  shows "ranks < 2 ^ 30" "k < 2 ^ 30" "0 \<le> d * k" "d * k + k < 2 ^ 30" "0 \<le> d div k" "d div k \<le> d"
proof -
  have k: "1 \<le> k" and rk: "ranks * k < 2 ^ 30" "0 < ranks" using v d by (auto simp: valid_tree_def)
  have "ranks \<le> ranks * k" "k \<le> ranks * k" "(d + 1) * k \<le> ranks * k"
    using k d mult_left_mono [of 1 k ranks] mult_right_mono [of 1 ranks k] by (auto intro!: mult_right_mono)
  moreover have "(d + 1) * k = d * k + k" by (simp add: algebra_simps)
  ultimately show "ranks < 2 ^ 30" "k < 2 ^ 30" "d * k + k < 2 ^ 30" using rk by linarith+
  show "0 \<le> d * k" "0 \<le> d div k" using k d by (auto simp: pos_imp_zdiv_nonneg_iff)
  show "d div k \<le> d" using k d zdiv_mono2 [of d 1 k] by simp
qed

lemma dist_bounds:
  assumes "0 \<le> root" "root < ranks" "0 \<le> r" "r < ranks"
  shows "dist ranks root r = (if r < root then r - root + ranks else r - root)"
    "0 \<le> dist ranks root r" "dist ranks root r < ranks" "dist ranks root r = 0 \<longleftrightarrow> r = root"
proof -
  show *: "dist ranks root r = (if r < root then r - root + ranks else r - root)"
  proof (cases "r < root")
    case True
    have "(r - root + ranks) mod ranks = r - root + ranks" using True assms by (intro mod_pos_pos_trivial) auto
    then show ?thesis using True by (simp add: dist_def)
  qed (use assms in \<open>simp add: dist_def\<close>)
  show "0 \<le> dist ranks root r" "dist ranks root r < ranks" "dist ranks root r = 0 \<longleftrightarrow> r = root"
    unfolding * using assms by auto
qed

lemma fill_children_replicate:
  assumes "count \<le> k"
  shows "fill_children (Some (replicate (nat k) x)) left count =
    Some (Some ([left..left + count - 1] @ replicate (nat k - nat (max 0 count)) x))"
  using assms upt_map [of left count] by (auto simp: fill_children_def max_def)

lemma tree_init_spec:
  assumes v: "valid_tree ranks root k" and r: "0 \<le> r" "r < ranks"
  shows "\<exists>pad. unifyfs_tree_init True r ranks root k = Some (UNIFYFS_SUCCESS,
    \<lparr>t_rank = r, t_ranks = ranks, t_parent_rank = tree_parent ranks root k r,
     t_child_count = int (length (tree_children ranks root k r)),
     t_child_ranks = Some (tree_children ranks root k r @ pad)\<rparr>)"
proof -
  have root: "0 \<le> root" "root < ranks" "1 \<le> k" using v by (auto simp: valid_tree_def)
  define d where "d = dist ranks root r"
  note d = dist_bounds [OF root(1,2) r, folded d_def]
  note b = valid_bounds [OF v d(2,3)]
  have rot: "rotate_rank root ranks x = Some (unrotate ranks root x)" if "0 \<le> x" "x < ranks" for x
    by (rule rotate_rank_unrotate [OF root(1,2) that b(1)])
  define left where "left = d * k + 1"
  define count where "count = (if left < ranks then (if d * k + k \<ge> ranks then ranks - 1 else d * k + k) - left + 1 else 0)"
  have right: "(if d * k + k \<ge> ranks then ranks - 1 else d * k + k) = min (ranks - 1) (left + k - 1)"
    by (auto simp: left_def min_def)
  have count: "0 \<le> count" "count \<le> k" "[left..left + count - 1] = [left..min (ranks - 1) (left + k - 1)]"
    unfolding count_def right using root(3) by auto
  define pad where "pad = replicate (nat k - nat (max 0 count)) (- 1 :: int)"
  have fill: "fill_children (Some (replicate (nat k) (- 1))) left count = Some (Some ([left..left + count - 1] @ pad))"
    unfolding pad_def by (rule fill_children_replicate [OF count(2)])
  have inr: "\<forall>x \<in> set [left..left + count - 1]. 0 \<le> x \<and> x < ranks"
    using count(3) b(3) by (auto simp: left_def)
  have len: "length [left..left + count - 1] = nat count" using count(1) by simp
  have rots: "rotate_ranks root ranks (nat count) ([left..left + count - 1] @ pad) =
      Some (map (unrotate ranks root) [left..left + count - 1] @ pad)"
    using rotate_ranks_map [of "nat count" "[left..left + count - 1] @ pad" root ranks "unrotate ranks root"] inr rot len
    by (simp del: length_upto)
  have ch: "tree_children ranks root k r = map (unrotate ranks root) [left..left + count - 1]"
    using count(3) by (simp add: tree_children_def d_def [symmetric] left_def [symmetric] Let_def)
  have par: "0 < d \<Longrightarrow> 0 \<le> (d - 1) div k \<and> (d - 1) div k < ranks"
    using valid_bounds(5,6) [OF v, of "d - 1"] d(3) by auto
  have sdiv: "0 < d \<Longrightarrow> (d - 1) sdiv k = (d - 1) div k"
    using root(3) by (cases "d = 1") (auto simp: signed_divide_int_def)
  have rr: "rotate_rank root ranks d = Some r"
    using rot [OF d(2,3)] unrotate_dist(1) [OF root(1,2) r] by (simp add: d_def)
  have start: "c_int (r - root) = Some (r - root)" "r < root \<Longrightarrow> c_int (r - root + ranks) = Some d"
    "\<not> r < root \<Longrightarrow> d = r - root"
    using d(1) r root b(1) by (auto simp: c_int_def)
  have head: "c_int (r - root) \<bind> (\<lambda>rank. (if rank < 0 then c_int (rank + ranks) else Some rank) \<bind> f) = f d" for f
    using start by (cases "r < root") auto
  have at_root: "r = root \<longleftrightarrow> \<not> 0 < d" using d(2,4) by auto
  have ci: "c_int (d * k) = Some (d * k)" "c_int (d * k + 1) = Some left" "c_int (d * k + k) = Some (d * k + k)"
    using b(3,4) root(3) by (auto simp: c_int_def left_def)
  have "unifyfs_tree_init True r ranks root k = Some (UNIFYFS_SUCCESS,
    \<lparr>t_rank = r, t_ranks = ranks, t_parent_rank = tree_parent ranks root k r,
     t_child_count = count, t_child_ranks = Some (map (unrotate ranks root) [left..left + count - 1] @ pad)\<rparr>)"
    unfolding unifyfs_tree_init_def head using par sdiv rot root(3) at_root
    by (cases "0 < d")
      (simp_all add: Let_def ci fill rr rots tree_parent_def d_def [symmetric] count_def [symmetric])
  then show ?thesis using ch count(1) len by (auto simp del: length_upto)
qed

section \<open>Properties\<close>

lemma div_interval: "1 \<le> k \<Longrightarrow> q * k \<le> x \<and> x < q * k + k \<longleftrightarrow> x div k = (q::int)"
proof
  assume k: "1 \<le> k" and "q * k \<le> x \<and> x < q * k + k"
  then show "x div k = q" by (intro div_pos_pos_trivial [THEN trans, of "x - q * k"] int_div_pos_eq [of _ _ _ "x - q * k"]) auto
next
  assume k: "1 \<le> k" and q: "x div k = q"
  have "q * k + x mod k = x" unfolding q [symmetric] by simp
  moreover have "0 \<le> x mod k" "x mod k < k" using k by simp_all
  ultimately show "q * k \<le> x \<and> x < q * k + k" by linarith
qed

lemma child_iff_parent:
  assumes v: "valid_tree ranks root k" and r: "0 \<le> r" "r < ranks" and c: "0 \<le> c" "c < ranks"
  shows "c \<in> set (tree_children ranks root k r) \<longleftrightarrow> tree_parent ranks root k c = r"
proof -
  have root: "0 \<le> root" "root < ranks" "1 \<le> k" using v by (auto simp: valid_tree_def)
  define d e where "d = dist ranks root r" and "e = dist ranks root c"
  note d = dist_bounds [OF root(1,2) r, folded d_def] and e = dist_bounds [OF root(1,2) c, folded e_def]
  note b = valid_bounds [OF v d(2,3)]
  have "c \<in> set (tree_children ranks root k r) \<longleftrightarrow> d * k + 1 \<le> e \<and> e \<le> d * k + k"
  proof
    assume "c \<in> set (tree_children ranks root k r)"
    then obtain x where x: "c = unrotate ranks root x" "d * k + 1 \<le> x" "x \<le> d * k + k" "x < ranks"
      by (auto simp: tree_children_def Let_def d_def)
    then have "e = x" using unrotate_dist(2) [OF root(1,2), of x] b(3) by (simp add: e_def)
    with x show "d * k + 1 \<le> e \<and> e \<le> d * k + k" by simp
  next
    assume "d * k + 1 \<le> e \<and> e \<le> d * k + k"
    moreover have "c = unrotate ranks root e" using unrotate_dist(1) [OF root(1,2) c] by (simp add: e_def)
    ultimately show "c \<in> set (tree_children ranks root k r)"
      using e(3) by (auto simp: tree_children_def Let_def d_def)
  qed
  also have "\<dots> \<longleftrightarrow> 0 < e \<and> (e - 1) div k = d"
    using div_interval [OF root(3), of d "e - 1"] b(3) by auto
  also have "\<dots> \<longleftrightarrow> tree_parent ranks root k c = r"
  proof (cases "c = root")
    case True
    then show ?thesis using e(4) r by (simp add: tree_parent_def)
  next
    case False
    then have pos: "0 < e" "0 \<le> (e - 1) div k" "(e - 1) div k < ranks"
      using e valid_bounds(5,6) [OF v, of "e - 1"] by auto
    have "unrotate ranks root ((e - 1) div k) = r \<longleftrightarrow> (e - 1) div k = d"
      using unrotate_dist(1) [OF root(1,2) r] unrotate_dist(2) [OF root(1,2) pos(2,3)] by (auto simp: d_def)
    then show ?thesis using False pos(1) by (simp add: tree_parent_def e_def)
  qed
  finally show ?thesis .
qed

lemma unrotate_inj:
  assumes "0 \<le> root" "root < ranks" "A \<subseteq> {0..<ranks}"
  shows "inj_on (unrotate ranks root) A"
  by (rule inj_on_inverseI [of _ "dist ranks root"]) (use unrotate_dist(2) [OF assms(1,2)] assms(3) in auto)

text \<open>
  (C22) The trees that the ranks compute independently fit together: a rank lists another one among its
  children exactly when that one computes it as its parent, and no rank lists a child twice.
\<close>

theorem unifyfs_tree_consistent:
  assumes "valid_tree ranks root k" and "0 \<le> r" and "r < ranks" and "0 \<le> c" and "c < ranks"
  shows "\<exists>t u children. unifyfs_tree_init True r ranks root k = Some (UNIFYFS_SUCCESS, t) \<and>
     unifyfs_tree_init True c ranks root k = Some (UNIFYFS_SUCCESS, u) \<and>
     t_child_ranks t = Some children \<and> distinct (take (nat (t_child_count t)) children) \<and>
     (c \<in> set (take (nat (t_child_count t)) children) \<longleftrightarrow> t_parent_rank u = r)"
proof -
  obtain pad pad' where
    t: "unifyfs_tree_init True r ranks root k = Some (UNIFYFS_SUCCESS,
      \<lparr>t_rank = r, t_ranks = ranks, t_parent_rank = tree_parent ranks root k r,
       t_child_count = int (length (tree_children ranks root k r)),
       t_child_ranks = Some (tree_children ranks root k r @ pad)\<rparr>)" and
    u: "unifyfs_tree_init True c ranks root k = Some (UNIFYFS_SUCCESS,
      \<lparr>t_rank = c, t_ranks = ranks, t_parent_rank = tree_parent ranks root k c,
       t_child_count = int (length (tree_children ranks root k c)),
       t_child_ranks = Some (tree_children ranks root k c @ pad')\<rparr>)"
    using tree_init_spec [OF assms(1-3)] tree_init_spec [OF assms(1,4,5)] by blast
  have "0 \<le> root" "root < ranks" using assms(1) by (auto simp: valid_tree_def)
  moreover have "0 \<le> dist ranks root r * k"
    using valid_bounds(3) [OF assms(1) dist_bounds(2,3) [OF calculation assms(2,3)]] .
  ultimately have "distinct (tree_children ranks root k r)"
    by (auto simp: tree_children_def distinct_map Let_def intro!: unrotate_inj)
  then show ?thesis using t u child_iff_parent [OF assms] by simp
qed

theorem unifyfs_tree_consistent_witness:
  "\<exists>t u. unifyfs_tree_init True 3 7 2 2 = Some (UNIFYFS_SUCCESS, t) \<and>
     unifyfs_tree_init True 5 7 2 2 = Some (UNIFYFS_SUCCESS, u) \<and> t_parent_rank u = 3"
proof -
  have "valid_tree 7 2 2" by (simp add: valid_tree_def)
  from unifyfs_tree_consistent [OF this, of 3 5] obtain t u where
    "unifyfs_tree_init True 3 7 2 2 = Some (UNIFYFS_SUCCESS, t)"
    "unifyfs_tree_init True 5 7 2 2 = Some (UNIFYFS_SUCCESS, u)" by auto
  moreover have "map_option (t_parent_rank \<circ> snd) (unifyfs_tree_init True 5 7 2 2) = Some 3" by code_simp
  ultimately show ?thesis by auto
qed

text \<open>
  (C23) The tree spans all ranks: following the computed parents from any rank leads to the root, so
  a message sent down the tree reaches every rank.
\<close>

theorem unifyfs_tree_spans:
  assumes "valid_tree ranks root k" and "0 \<le> r" and "r < ranks"
  shows "\<exists>n. ((\<lambda>r. t_parent_rank (snd (the (unifyfs_tree_init True r ranks root k)))) ^^ n) r = root"
  using assms(2,3)
proof (induction "nat (dist ranks root r)" arbitrary: r rule: less_induct)
  case less
  have root: "0 \<le> root" "root < ranks" "1 \<le> k" using assms(1) by (auto simp: valid_tree_def)
  let ?p = "\<lambda>r. t_parent_rank (snd (the (unifyfs_tree_init True r ranks root k)))"
  note d = dist_bounds [OF root(1,2) less.prems]
  show ?case
  proof (cases "r = root")
    case True
    then show ?thesis by (intro exI [of _ 0]) simp
  next
    case False
    let ?q = "(dist ranks root r - 1) div k"
    have q: "0 \<le> ?q" "?q < dist ranks root r"
      using False d valid_bounds(5,6) [OF assms(1), of "dist ranks root r - 1"] by auto
    have p: "?p r = unrotate ranks root ?q"
      using tree_init_spec [OF assms(1) less.prems] False by (auto simp: tree_parent_def)
    have e: "dist ranks root (?p r) = ?q" unfolding p by (rule unrotate_dist(2)) (use root q d in auto)
    have "0 \<le> ?p r" "?p r < ranks" unfolding p unrotate_def using root by auto
    then obtain n where "(?p ^^ n) (?p r) = root" using less.hyps [of "?p r"] e q by auto
    then show ?thesis by (intro exI [of _ "Suc n"]) (simp only: funpow_Suc_right o_apply)
  qed
qed

theorem unifyfs_tree_spans_witness:
  "\<exists>n. ((\<lambda>r. t_parent_rank (snd (the (unifyfs_tree_init True r 7 2 2)))) ^^ n) 1 = 2"
  by (rule unifyfs_tree_spans) (simp_all add: valid_tree_def)

end
