(* ===== verification/Logio.thy ===== *)
theory Logio
  imports Slotmap
begin

text \<open>
  The write log of a client, \<^verbatim>\<open>common/src/unifyfs_logio.c\<close>: a shared memory region and a spill-over
  file, each with a header, a slot map of its chunks and the data. Log offsets below the data size
  of the shared memory are in memory, the others in the file.

  A region is a record of its header and its bytes, indexed from the start of the region; the slot
  map that follows the header in memory is a field of the header. Offsets (\<^verbatim>\<open>off_t\<close>) are 64-bit
  words like the sizes: the code compares and divides them as unsigned values.

  \<^verbatim>\<open>LOCK_LOG_HEADER\<close> waits until the flag \<^verbatim>\<open>updating\<close> is clear. The operations are modelled one at
  a time, so that waiting for a flag that is set means not returning, \<^term>\<open>None\<close>.
\<close>

section \<open>Headers and regions\<close>

record log_header =
  hdr_sz :: u64
  data_sz :: u64
  reserved_sz :: u64
  chunk_sz :: u64
  data_offset :: u64
  updating :: bool
  chunk_map :: slot_map

record log_region =
  lr_header :: log_header
  lr_mapped :: nat \<comment> \<open>bytes that are mapped into memory\<close>
  lr_size :: nat \<comment> \<open>bytes of the shared memory or the file\<close>
  lr_bytes :: "nat \<Rightarrow> u8"

record logio_context =
  lc_shmem :: "log_region option"
  lc_spill_hdr :: "log_region option"
  lc_spill_file :: "string option"
  lc_spill_sz :: u64
  lc_spill_fd :: int

definition LOCK_LOG_HEADER :: "log_header \<Rightarrow> log_header option" where
  "LOCK_LOG_HEADER hdr = (if updating hdr then None else Some (hdr\<lparr>updating := True\<rparr>))"

definition UNLOCK_LOG_HEADER :: "log_header \<Rightarrow> log_header option" where
  "UNLOCK_LOG_HEADER hdr = (if updating hdr then Some (hdr\<lparr>updating := False\<rparr>) else None)"

text \<open>The result of \<^verbatim>\<open>sysconf\<close> is a parameter, \<^term>\<open>None\<close> for its error value.\<close>

definition get_page_size :: "u64 option \<Rightarrow> u64" where
  "get_page_size sysconf = (case sysconf of Some sz \<Rightarrow> sz | None \<Rightarrow> 4096)"

text \<open>A division by zero is \<^term>\<open>None\<close>.\<close>

definition bytes_to_chunks :: "u64 \<Rightarrow> u64 \<Rightarrow> u64 option" where
  "bytes_to_chunks bytes chunk_size =
     (if chunk_size = 0 then None
      else Some (if bytes mod chunk_size \<noteq> 0 then bytes div chunk_size + 1 else bytes div chunk_size))"

text \<open>The sizes in memory and in the spill file and the offset in the spill file.\<close>

definition get_log_sizes :: "u64 \<Rightarrow> u64 \<Rightarrow> u64 \<Rightarrow> u64 \<times> u64 \<times> u64" where
  "get_log_sizes log_offset nbytes shmem_data_sz =
     (if log_offset + nbytes \<le> shmem_data_sz then (nbytes, 0, 0)
      else if log_offset < shmem_data_sz
      then (shmem_data_sz - log_offset, nbytes - (shmem_data_sz - log_offset), 0)
      else (0, nbytes, log_offset - shmem_data_sz))"

section \<open>Initialisation\<close>

text \<open>
  \<^verbatim>\<open>init_log_header\<close>: the number of header pages grows until the slot map of the remaining chunks
  fits. The slot map is written behind the header, \<open>sizeof_log_header\<close> bytes into the region; when
  it ends beyond the mapped bytes the write faults (\<^term>\<open>None\<close>). The division by the chunk size is
  undefined for 0.
\<close>

definition sizeof_log_header :: u64 where
  "sizeof_log_header = 48"

definition slotmap_end :: "u64 \<Rightarrow> nat" where
  "slotmap_end n_chunks = unat sizeof_log_header + unat sizeof_slot_map + slot_map_bytes (unat n_chunks)"

partial_function (option) init_header_pages ::
  "u64 \<Rightarrow> u64 \<Rightarrow> u64 \<Rightarrow> u64 \<Rightarrow> (u64 \<times> u64 \<times> slot_map) option option" where
  "init_header_pages pgsz region_size chunk_size hdr_pages =
     (let hdr_size = hdr_pages * pgsz in
      if hdr_size \<ge> region_size then Some None
      else
        let n_chunks = (region_size - hdr_size) div chunk_size in
        (case slotmap_init n_chunks (hdr_size - sizeof_log_header) of
           None \<Rightarrow> init_header_pages pgsz region_size chunk_size (hdr_pages + 1)
         | Some chunkmap \<Rightarrow> Some (Some (hdr_size, n_chunks, chunkmap))))"

definition init_log_header :: "u64 \<Rightarrow> log_region \<Rightarrow> u64 \<Rightarrow> u64 \<Rightarrow> (unifyfs_rc \<times> log_region) option" where
  "init_log_header pgsz region region_size chunk_size =
     (if chunk_size = 0 then None
      else do {
        pages \<leftarrow> init_header_pages pgsz region_size chunk_size 1;
        case pages of
          None \<Rightarrow> Some (UNIFYFS_FAILURE, region)
        | Some (hdr_size, n_chunks, chunkmap) \<Rightarrow>
            if slotmap_end n_chunks > lr_mapped region then None
            else Some (UNIFYFS_SUCCESS, region\<lparr>lr_header :=
              \<lparr>hdr_sz = hdr_size, data_sz = n_chunks * chunk_size, reserved_sz = 0, chunk_sz = chunk_size,
               data_offset = hdr_size, updating = False, chunk_map = chunkmap\<rparr>\<rparr>)
      })"

text \<open>
  \<^verbatim>\<open>map_spillfile\<close>: the first pages of the spill file are mapped; the server maps more when the
  header in them says that it is longer. \<open>mmap\<close> and \<open>mremap\<close> are the outcomes of the system calls.
\<close>

definition map_spillfile :: "bool \<Rightarrow> bool \<Rightarrow> u64 \<Rightarrow> log_region \<Rightarrow> u64 \<Rightarrow> bool \<Rightarrow> log_region option" where
  "map_spillfile mmap mremap pgsz file n_pages server =
     (let mapsz = pgsz * n_pages in
      if \<not> mmap then None
      else if server \<and> hdr_sz (lr_header file) > mapsz
      then (if mremap then Some (file\<lparr>lr_mapped := unat (hdr_sz (lr_header file))\<rparr>) else None)
      else Some (file\<lparr>lr_mapped := unat mapsz\<rparr>))"

text \<open>
  \<^verbatim>\<open>unifyfs_logio_init_client\<close>. The configuration values are the results of \<^verbatim>\<open>configurator_int_val\<close>
  (\<^term>\<open>None\<close> when the option is not set or is not a number). What the operating system provides are
  parameters: \<open>shm\<close> the shared memory region, \<open>spill_fd\<close> the descriptor of the spill file
  (negative on failure), \<open>file\<close> the spill file, \<open>mmap\<close> whether it can be mapped, \<open>ok\<close> whether the
  context can be allocated.
\<close>

record logio_cfg =
  cfg_shmem_size :: "u64 option"
  cfg_chunk_size :: "u64 option"
  cfg_spill_size :: "u64 option"
  cfg_spill_dir :: "string option"

definition UNIFYFS_LOGIO_CHUNK_SIZE :: u64 where
  "UNIFYFS_LOGIO_CHUNK_SIZE = 4 * 1024 * 1024"

definition spill_header_pages :: "u64 \<Rightarrow> u64 \<Rightarrow> u64 \<Rightarrow> u64" where
  "spill_header_pages pgsz spill_size chunk_size = spill_size div chunk_size div (pgsz * 8) + 1"

definition unifyfs_logio_init_client ::
  "u64 \<Rightarrow> log_region option \<Rightarrow> int \<Rightarrow> log_region \<Rightarrow> bool \<Rightarrow> bool \<Rightarrow> logio_cfg
   \<Rightarrow> (unifyfs_rc \<times> logio_context option) option" where
  "unifyfs_logio_init_client pgsz shm spill_fd file mmap ok cfg =
     (let memlog_size = (case cfg_shmem_size cfg of Some l \<Rightarrow> l | None \<Rightarrow> 0);
          chunk_size = (case cfg_chunk_size cfg of Some l \<Rightarrow> l | None \<Rightarrow> UNIFYFS_LOGIO_CHUNK_SIZE);
          spill_size = (case cfg_spill_size cfg of Some l \<Rightarrow> l | None \<Rightarrow> 0)
      in do {
        (rc, shm_ctx) \<leftarrow> (if memlog_size \<noteq> 0 then
             (case shm of
                None \<Rightarrow> Some (UNIFYFS_ERROR_SHMEM, None)
              | Some region \<Rightarrow> do {
                  (rc, region) \<leftarrow> init_log_header pgsz region memlog_size chunk_size;
                  Some (rc, Some region)
                })
           else Some (UNIFYFS_SUCCESS, None));
        if rc \<noteq> UNIFYFS_SUCCESS then Some (rc, None)
        else do {
          (rc, spill_mapping, fd) \<leftarrow> (if spill_size > 0 then
               (if cfg_spill_dir cfg = None then Some (UNIFYFS_ERROR_BADCONFIG, None, - 1)
                else if spill_fd < 0 then Some (UNIFYFS_FAILURE, None, spill_fd)
                else if chunk_size = 0 then None
                else (case map_spillfile mmap False pgsz file (spill_header_pages pgsz spill_size chunk_size) False of
                   None \<Rightarrow> Some (UNIFYFS_FAILURE, None, spill_fd)
                 | Some region \<Rightarrow> do {
                     (rc, region) \<leftarrow> init_log_header pgsz region spill_size chunk_size;
                     Some (rc, Some region, spill_fd)
                   }))
             else Some (UNIFYFS_SUCCESS, None, - 1));
          if rc \<noteq> UNIFYFS_SUCCESS then Some (rc, None)
          else if \<not> ok then Some (ENOMEM, None)
          else Some (UNIFYFS_SUCCESS, Some \<lparr>lc_shmem = shm_ctx, lc_spill_hdr = spill_mapping,
                 lc_spill_file = None, lc_spill_sz = spill_size, lc_spill_fd = fd\<rparr>)
        }
      })"

text \<open>
  \<^verbatim>\<open>unifyfs_logio_init\<close> of the server attaches to the regions that the client has initialised. The
  parameters are as above.
\<close>

definition unifyfs_logio_init ::
  "u64 \<Rightarrow> log_region option \<Rightarrow> int \<Rightarrow> log_region \<Rightarrow> bool \<Rightarrow> bool \<Rightarrow> bool \<Rightarrow> string \<Rightarrow> u64 \<Rightarrow> u64 \<Rightarrow> bool
   \<Rightarrow> unifyfs_rc \<times> logio_context option" where
  "unifyfs_logio_init pgsz shm spill_fd file mmap mremap ok spillfile mem_size spill_size has_spill_dir =
     (let spill = map_spillfile mmap mremap pgsz file 1 True in
      if mem_size \<noteq> 0 \<and> shm = None then (UNIFYFS_ERROR_SHMEM, None)
      else if spill_size \<noteq> 0 \<and> \<not> has_spill_dir then (EINVAL, None)
      else if spill_size \<noteq> 0 \<and> (spill_fd < 0 \<or> spill = None) then (UNIFYFS_FAILURE, None)
      else if \<not> ok then (ENOMEM, None)
      else (UNIFYFS_SUCCESS, Some
        \<lparr>lc_shmem = (if mem_size \<noteq> 0 then shm else None),
         lc_spill_hdr = (if spill_size \<noteq> 0 then spill else None),
         lc_spill_file = (if spill_size \<noteq> 0 then Some spillfile else None),
         lc_spill_sz = spill_size,
         lc_spill_fd = (if spill_size \<noteq> 0 then spill_fd else - 1)\<rparr>))"

section \<open>Allocation\<close>

text \<open>
  The first part of \<^verbatim>\<open>unifyfs_logio_alloc\<close>, in the shared memory. \<^term>\<open>Inl off\<close> is the offset when all
  chunks fit. Otherwise, with a spill file, the chunks behind the last used slot are reserved:
  \<^term>\<open>Inr (Some (slot, n))\<close>, and then the header stays locked.
\<close>

definition logio_alloc_shmem ::
  "log_header \<Rightarrow> bool \<Rightarrow> u64 \<Rightarrow> (log_header \<times> (u64 + (u64 \<times> u64) option)) option" where
  "logio_alloc_shmem hdr has_spill nbytes = do {
     hdr \<leftarrow> LOCK_LOG_HEADER hdr;
     needed_chunks \<leftarrow> bytes_to_chunks nbytes (chunk_sz hdr);
     (res_slot, m) \<leftarrow> slotmap_reserve (chunk_map hdr) needed_chunks;
     if res_slot \<noteq> - 1 then do {
       hdr \<leftarrow> UNLOCK_LOG_HEADER (hdr\<lparr>chunk_map := m, reserved_sz := reserved_sz hdr + needed_chunks * chunk_sz hdr\<rparr>);
       Some (hdr, Inl (res_slot * chunk_sz hdr))
     }
     else
       let log_end_chunks = total_slots m - (last_used_slot m + 1) in
       if has_spill \<and> log_end_chunks > 0 then do {
         (res_slot, m) \<leftarrow> slotmap_reserve m log_end_chunks;
         if res_slot \<noteq> - 1 then Some (hdr\<lparr>chunk_map := m\<rparr>, Inr (Some (res_slot, log_end_chunks)))
         else do { hdr \<leftarrow> UNLOCK_LOG_HEADER (hdr\<lparr>chunk_map := m\<rparr>); Some (hdr, Inr None) }
       }
       else do { hdr \<leftarrow> UNLOCK_LOG_HEADER (hdr\<lparr>chunk_map := m\<rparr>); Some (hdr, Inr None) }
   }"

text \<open>A failed allocation gives back the chunks at the end of the shared memory.\<close>

definition logio_rollback :: "log_header option \<Rightarrow> (u64 \<times> u64) option \<Rightarrow> log_header option option" where
  "logio_rollback shmem mem_res =
     (case (shmem, mem_res) of
        (Some hdr, Some (slot, nchk)) \<Rightarrow> do {
          (rc, m) \<leftarrow> slotmap_release (chunk_map hdr) slot nchk;
          hdr \<leftarrow> UNLOCK_LOG_HEADER (hdr\<lparr>chunk_map := m\<rparr>);
          Some (Some hdr)
        }
      | _ \<Rightarrow> Some shmem)"

text \<open>
  A reservation of \<open>nbytes\<close> in the spill file alone. When it fails the header is returned as it is.
\<close>

definition logio_spill_reserve :: "log_header option \<Rightarrow> log_header \<Rightarrow> u64 \<Rightarrow> (u64 option \<times> log_header) option" where
  "logio_spill_reserve shmem spill nbytes = do {
     needed_chunks \<leftarrow> bytes_to_chunks nbytes (chunk_sz spill);
     (res_slot, m) \<leftarrow> slotmap_reserve (chunk_map spill) needed_chunks;
     if res_slot \<noteq> - 1 then do {
       spill \<leftarrow> UNLOCK_LOG_HEADER
         (spill\<lparr>chunk_map := m, reserved_sz := reserved_sz spill + needed_chunks * chunk_sz spill\<rparr>);
       Some (Some (res_slot * chunk_sz spill + (case shmem of Some hdr \<Rightarrow> data_sz hdr | None \<Rightarrow> 0)), spill)
     }
     else Some (None, spill\<lparr>chunk_map := m\<rparr>)
   }"

text \<open>
  The second part, in the spill file: all of the chunks, or the rest of them when chunks of the shared
  memory are reserved. These two must meet: the spill chunks have to start at slot 0; otherwise both
  reservations are released and all chunks are taken from the spill file. When that fails, the spill
  header is not unlocked.
\<close>

definition logio_alloc_spill ::
  "log_header option \<Rightarrow> log_header \<Rightarrow> (u64 \<times> u64) option \<Rightarrow> u64
   \<Rightarrow> (unifyfs_rc \<times> u64 option \<times> log_header option \<times> log_header) option" where
  "logio_alloc_spill shmem spill mem_res nbytes = do {
     spill \<leftarrow> LOCK_LOG_HEADER spill;
     case (shmem, mem_res) of
       (Some hdr, Some (slot, nchk)) \<Rightarrow> do {
         needed_chunks \<leftarrow> bytes_to_chunks (nbytes - nchk * chunk_sz hdr) (chunk_sz spill);
         (res_slot, m) \<leftarrow> slotmap_reserve (chunk_map spill) needed_chunks;
         if res_slot = - 1 then do {
           spill \<leftarrow> UNLOCK_LOG_HEADER (spill\<lparr>chunk_map := m\<rparr>);
           shmem \<leftarrow> logio_rollback shmem mem_res;
           Some (ENOSPC, None, shmem, spill)
         }
         else if res_slot \<noteq> 0 then do {
           (rc, m) \<leftarrow> slotmap_release m res_slot needed_chunks;
           shmem \<leftarrow> logio_rollback shmem mem_res;
           (off, spill) \<leftarrow> logio_spill_reserve shmem (spill\<lparr>chunk_map := m\<rparr>) nbytes;
           Some (if off = None then ENOSPC else UNIFYFS_SUCCESS, off, shmem, spill)
         }
         else do {
           hdr \<leftarrow> UNLOCK_LOG_HEADER (hdr\<lparr>reserved_sz := reserved_sz hdr + nchk * chunk_sz hdr\<rparr>);
           spill \<leftarrow> UNLOCK_LOG_HEADER
             (spill\<lparr>chunk_map := m, reserved_sz := reserved_sz spill + needed_chunks * chunk_sz spill\<rparr>);
           Some (UNIFYFS_SUCCESS, Some (slot * chunk_sz hdr), Some hdr, spill)
         }
       }
     | _ \<Rightarrow> do {
         (off, spill) \<leftarrow> logio_spill_reserve shmem spill nbytes;
         spill \<leftarrow> (if off = None then UNLOCK_LOG_HEADER spill else Some spill);
         Some (if off = None then ENOSPC else UNIFYFS_SUCCESS, off, shmem, spill)
       }
   }"

definition set_hdr :: "log_region option \<Rightarrow> log_header option \<Rightarrow> log_region option" where
  "set_hdr region hdr = (case (region, hdr) of (Some r, Some h) \<Rightarrow> Some (r\<lparr>lr_header := h\<rparr>) | _ \<Rightarrow> region)"

text \<open>\<^verbatim>\<open>unifyfs_logio_alloc\<close>; the output offset is \<^term>\<open>None\<close> when it is not assigned.\<close>

definition unifyfs_logio_alloc ::
  "logio_context \<Rightarrow> u64 \<Rightarrow> (unifyfs_rc \<times> u64 option \<times> logio_context) option" where
  "unifyfs_logio_alloc ctx nbytes =
     (if nbytes = 0 then Some (UNIFYFS_SUCCESS, None, ctx)
      else do {
        (shmem, res) \<leftarrow> (case lc_shmem ctx of
            None \<Rightarrow> Some (None, Inr None)
          | Some region \<Rightarrow> do {
              (hdr, res) \<leftarrow> logio_alloc_shmem (lr_header region) (lc_spill_hdr ctx \<noteq> None) nbytes;
              Some (Some hdr, res)
            });
        case res of
          Inl off \<Rightarrow> Some (UNIFYFS_SUCCESS, Some off, ctx\<lparr>lc_shmem := set_hdr (lc_shmem ctx) shmem\<rparr>)
        | Inr mem_res \<Rightarrow> (case lc_spill_hdr ctx of
              None \<Rightarrow> do {
                shmem \<leftarrow> logio_rollback shmem mem_res;
                Some (ENOSPC, None, ctx\<lparr>lc_shmem := set_hdr (lc_shmem ctx) shmem\<rparr>)
              }
            | Some region \<Rightarrow> do {
                (rc, off, shmem, spill) \<leftarrow> logio_alloc_spill shmem (lr_header region) mem_res nbytes;
                Some (rc, off, ctx\<lparr>lc_shmem := set_hdr (lc_shmem ctx) shmem,
                                   lc_spill_hdr := Some (region\<lparr>lr_header := spill\<rparr>)\<rparr>)
              })
      })"

section \<open>Release\<close>

definition mem_data_sz :: "logio_context \<Rightarrow> u64" where
  "mem_data_sz ctx = (case lc_shmem ctx of Some region \<Rightarrow> data_sz (lr_header region) | None \<Rightarrow> 0)"

definition logio_free_chunks :: "log_header \<Rightarrow> u64 \<Rightarrow> u64 \<Rightarrow> (unifyfs_rc \<times> log_header) option" where
  "logio_free_chunks hdr off sz = do {
     hdr \<leftarrow> LOCK_LOG_HEADER hdr;
     num_chunks \<leftarrow> bytes_to_chunks sz (chunk_sz hdr);
     (rc, m) \<leftarrow> slotmap_release (chunk_map hdr) (off div chunk_sz hdr) num_chunks;
     hdr \<leftarrow> UNLOCK_LOG_HEADER (hdr\<lparr>chunk_map := m, reserved_sz := reserved_sz hdr - chunk_sz hdr * num_chunks\<rparr>);
     Some (rc, hdr)
   }"

definition unifyfs_logio_free :: "logio_context \<Rightarrow> u64 \<Rightarrow> u64 \<Rightarrow> (unifyfs_rc \<times> logio_context) option" where
  "unifyfs_logio_free ctx log_offset nbytes =
     (if nbytes = 0 then Some (UNIFYFS_SUCCESS, ctx)
      else case get_log_sizes log_offset nbytes (mem_data_sz ctx) of (sz_in_mem, sz_in_spill, spill_offset) \<Rightarrow> do {
        (rc, ctx) \<leftarrow> (if sz_in_mem > 0 then (case lc_shmem ctx of
            None \<Rightarrow> None
          | Some region \<Rightarrow> do {
              (rc, hdr) \<leftarrow> logio_free_chunks (lr_header region) log_offset sz_in_mem;
              Some (rc, ctx\<lparr>lc_shmem := Some (region\<lparr>lr_header := hdr\<rparr>)\<rparr>)
            }) else Some (UNIFYFS_SUCCESS, ctx));
        if sz_in_spill > 0 then (case lc_spill_hdr ctx of
            None \<Rightarrow> None
          | Some region \<Rightarrow> do {
              (rc, hdr) \<leftarrow> logio_free_chunks (lr_header region) spill_offset sz_in_spill;
              Some (rc, ctx\<lparr>lc_spill_hdr := Some (region\<lparr>lr_header := hdr\<rparr>)\<rparr>)
            })
        else Some (rc, ctx)
      })"

section \<open>Data\<close>

text \<open>
  Bytes of a region: \<open>region_read\<close> and \<open>region_write\<close> are \<^verbatim>\<open>memcpy\<close> from and to mapped memory,
  \<^term>\<open>None\<close> when the range is not mapped. \<open>file_pread\<close> and \<open>file_pwrite\<close> are the system calls on
  the spill file. Their outcome \<open>io\<close> is a parameter, an error or a bound on the bytes transferred; a
  read stops at the end of the file and a write may extend it.
\<close>

definition put_bytes :: "(nat \<Rightarrow> u8) \<Rightarrow> nat \<Rightarrow> u8 list \<Rightarrow> nat \<Rightarrow> u8" where
  "put_bytes f pos buf i = (if pos \<le> i \<and> i < pos + length buf then buf ! (i - pos) else f i)"

definition region_read :: "log_region \<Rightarrow> nat \<Rightarrow> nat \<Rightarrow> u8 list option" where
  "region_read region pos n =
     (if pos + n \<le> lr_mapped region then Some (map (lr_bytes region) [pos..<pos + n]) else None)"

definition region_write :: "log_region \<Rightarrow> nat \<Rightarrow> u8 list \<Rightarrow> log_region option" where
  "region_write region pos buf =
     (if pos + length buf \<le> lr_mapped region
      then Some (region\<lparr>lr_bytes := put_bytes (lr_bytes region) pos buf\<rparr>) else None)"

type_synonym io_outcome = "unifyfs_rc + nat"

definition file_pread :: "io_outcome \<Rightarrow> log_region \<Rightarrow> nat \<Rightarrow> nat \<Rightarrow> unifyfs_rc + u8 list" where
  "file_pread io region pos n =
     (case io of Inl e \<Rightarrow> Inl e
      | Inr k \<Rightarrow> Inr (map (lr_bytes region) [pos..<pos + min k (min n (lr_size region - pos))]))"

definition file_pwrite :: "io_outcome \<Rightarrow> log_region \<Rightarrow> nat \<Rightarrow> u8 list \<Rightarrow> unifyfs_rc + (nat \<times> log_region)" where
  "file_pwrite io region pos buf =
     (case io of Inl e \<Rightarrow> Inl e
      | Inr k \<Rightarrow> let buf = take k buf in
          Inr (length buf, region\<lparr>lr_bytes := put_bytes (lr_bytes region) pos buf,
                                  lr_size := (if buf = [] then lr_size region else max (lr_size region) (pos + length buf))\<rparr>))"

definition region_data :: "log_region \<Rightarrow> u64 \<Rightarrow> nat" where
  "region_data region off = unat (off + data_offset (lr_header region))"

text \<open>
  \<^verbatim>\<open>unifyfs_logio_read\<close> gives the bytes that it stores in the buffer; their number is \<^verbatim>\<open>*obytes\<close>. After a
  failed \<^verbatim>\<open>pread\<close> the bytes from the shared memory are still delivered.
\<close>

definition unifyfs_logio_read ::
  "io_outcome \<Rightarrow> logio_context \<Rightarrow> u64 \<Rightarrow> u64 \<Rightarrow> (unifyfs_rc \<times> u8 list) option" where
  "unifyfs_logio_read io ctx log_offset nbytes =
     (if nbytes = 0 then Some (UNIFYFS_SUCCESS, [])
      else case get_log_sizes log_offset nbytes (mem_data_sz ctx) of (sz_in_mem, sz_in_spill, spill_offset) \<Rightarrow> do {
        mem \<leftarrow> (if sz_in_mem > 0 then (case lc_shmem ctx of
            None \<Rightarrow> None
          | Some region \<Rightarrow> region_read region (region_data region log_offset) (unat sz_in_mem)) else Some []);
        (err_rc, file) \<leftarrow> (if sz_in_spill > 0 then (case lc_spill_hdr ctx of
            None \<Rightarrow> None
          | Some region \<Rightarrow> (case file_pread io region (region_data region spill_offset) (unat sz_in_spill) of
                Inl e \<Rightarrow> Some (e, [])
              | Inr bytes \<Rightarrow> Some (UNIFYFS_SUCCESS, bytes))) else Some (UNIFYFS_SUCCESS, []));
        if mem @ file \<noteq> [] then Some (UNIFYFS_SUCCESS, mem @ file) else Some (err_rc, [])
      })"

text \<open>
  \<^verbatim>\<open>unifyfs_logio_write\<close> of the first \<open>nbytes\<close> of \<open>ibuf\<close>; the number is \<^verbatim>\<open>*obytes\<close>. Reading beyond the
  end of \<open>ibuf\<close> is \<^term>\<open>None\<close>.
\<close>

definition unifyfs_logio_write ::
  "io_outcome \<Rightarrow> logio_context \<Rightarrow> u64 \<Rightarrow> u64 \<Rightarrow> u8 list \<Rightarrow> (unifyfs_rc \<times> nat \<times> logio_context) option" where
  "unifyfs_logio_write io ctx log_offset nbytes ibuf =
     (if nbytes = 0 then Some (UNIFYFS_SUCCESS, 0, ctx)
      else if length ibuf < unat nbytes then None
      else case get_log_sizes log_offset nbytes (mem_data_sz ctx) of (sz_in_mem, sz_in_spill, spill_offset) \<Rightarrow> do {
        ctx \<leftarrow> (if sz_in_mem > 0 then (case lc_shmem ctx of
            None \<Rightarrow> None
          | Some region \<Rightarrow> do {
              region \<leftarrow> region_write region (region_data region log_offset) (take (unat sz_in_mem) ibuf);
              Some (ctx\<lparr>lc_shmem := Some region\<rparr>)
            }) else Some ctx);
        (err_rc, n, ctx) \<leftarrow> (if sz_in_spill > 0 then (case lc_spill_hdr ctx of
            None \<Rightarrow> None
          | Some region \<Rightarrow>
              (case file_pwrite io region (region_data region spill_offset)
                      (take (unat sz_in_spill) (drop (unat sz_in_mem) ibuf)) of
                 Inl e \<Rightarrow> Some (e, 0, ctx)
               | Inr (n, region) \<Rightarrow> Some (UNIFYFS_SUCCESS, n, ctx\<lparr>lc_spill_hdr := Some region\<rparr>)))
          else Some (UNIFYFS_SUCCESS, 0, ctx));
        let nwrite = unat sz_in_mem + n in
        if nwrite \<noteq> 0 then Some (UNIFYFS_SUCCESS, nwrite, ctx) else Some (err_rc, 0, ctx)
      })"

text \<open>\<open>fsync\<close> is the outcome of the system call.\<close>

definition unifyfs_logio_sync :: "unifyfs_rc option \<Rightarrow> logio_context \<Rightarrow> unifyfs_rc" where
  "unifyfs_logio_sync fsync ctx =
     (if lc_spill_sz ctx \<noteq> 0 \<and> lc_spill_fd ctx \<noteq> - 1
      then (case fsync of Some err \<Rightarrow> err | None \<Rightarrow> UNIFYFS_SUCCESS) else UNIFYFS_SUCCESS)"

text \<open>What \<^verbatim>\<open>unifyfs_logio_close\<close> gives back to the system, in order. Failures are only logged.\<close>

datatype logio_release =
  ShmUnlink | ShmFree | SpillUnmap u64 | SpillClose int | SpillUnlink string

definition unifyfs_logio_close :: "u64 \<Rightarrow> logio_context option \<Rightarrow> bool \<Rightarrow> unifyfs_rc \<times> logio_release list" where
  "unifyfs_logio_close pgsz ctx clean_storage =
     (case ctx of None \<Rightarrow> (EINVAL, [])
      | Some ctx \<Rightarrow> (UNIFYFS_SUCCESS,
          (if lc_shmem ctx \<noteq> None then (if clean_storage then [ShmUnlink] else []) @ [ShmFree] else []) @
          (if lc_spill_sz ctx \<noteq> 0 then
             (if lc_spill_hdr ctx \<noteq> None then [SpillUnmap pgsz] else []) @
             (if lc_spill_fd ctx \<noteq> - 1 then [SpillClose (lc_spill_fd ctx)] else []) @
             (case lc_spill_file ctx of Some f \<Rightarrow> if clean_storage then [SpillUnlink f] else [] | None \<Rightarrow> [])
           else [])))"

definition unifyfs_logio_get_sizes :: "logio_context \<Rightarrow> unifyfs_rc \<times> u64 \<times> u64" where
  "unifyfs_logio_get_sizes ctx =
     (UNIFYFS_SUCCESS, mem_data_sz ctx,
      (case lc_spill_hdr ctx of Some region \<Rightarrow> data_sz (lr_header region) | None \<Rightarrow> 0))"

lemmas init_header_pages_code [code] = init_header_pages.simps

section \<open>Chunks and bytes\<close>

text \<open>
  A header is in order when its slot map is, its chunks fill the data region, and it is not locked.
  The number of chunks is a multiple of 8: otherwise the slot map hands out chunks behind the data.
\<close>

definition hdr_ok :: "log_header \<Rightarrow> bool" where
  "hdr_ok h \<longleftrightarrow> slot_inv (chunk_map h) \<and> 0 < unat (chunk_sz h) \<and> unat (total_slots (chunk_map h)) mod 8 = 0 \<and>
     unat (data_sz h) = unat (total_slots (chunk_map h)) * unat (chunk_sz h) \<and> unat (data_sz h) < 2 ^ 62"

definition hdr_bytes :: "log_header \<Rightarrow> nat set" where
  "hdr_bytes h = {i. i div unat (chunk_sz h) \<in> used_set (chunk_map h)}"

lemma div_range: "0 < c \<Longrightarrow> {i. i div c \<in> {a..<b}} = {a * c..<b * (c::nat)}"
  by (auto simp: less_eq_div_iff_mult_less_eq div_less_iff_less_mult)

lemma hdr_okD:
  assumes "hdr_ok h"
  shows "length (use_map (chunk_map h)) * 8 = unat (total_slots (chunk_map h))"
    "i \<in> used_set (chunk_map h) \<Longrightarrow> i < unat (total_slots (chunk_map h))"
    "hdr_bytes h \<subseteq> {..<unat (data_sz h)}"
    "chunk_sz h \<noteq> 0"
proof -
  have len: "length (use_map (chunk_map h)) = slot_map_bytes (unat (total_slots (chunk_map h)))"
    and m: "unat (total_slots (chunk_map h)) mod 8 = 0" using assms by (auto simp: hdr_ok_def slot_inv_def)
  then show l: "length (use_map (chunk_map h)) * 8 = unat (total_slots (chunk_map h))"
    by (auto simp: slot_map_bytes_def SLOT_BYTE_def SLOT_BIT_def)
  show u: "i \<in> used_set (chunk_map h) \<Longrightarrow> i < unat (total_slots (chunk_map h))" for i
    using used_set_bound l by (metis mult.commute)
  show "hdr_bytes h \<subseteq> {..<unat (data_sz h)}"
    using assms by (auto simp: hdr_bytes_def hdr_ok_def div_less_iff_less_mult [symmetric] dest!: u)
  show "chunk_sz h \<noteq> 0" using assms by (auto simp: hdr_ok_def)
qed

lemma bytes_to_chunks_bounds:
  assumes "0 < unat c" "bytes_to_chunks b c = Some n"
  shows "unat b \<le> unat n * unat c" "unat n * unat c < unat b + unat c"
proof -
  have d: "unat b = unat (b div c) * unat c + unat (b mod c)" "unat (b mod c) < unat c"
    using assms(1) by (simp_all add: unat_div unat_mod)
  have "unat b \<le> unat n * unat c \<and> unat n * unat c < unat b + unat c"
  proof (cases "b mod c = 0")
    case True
    then have "n = b div c" using assms by (auto simp: bytes_to_chunks_def split: if_splits)
    then show ?thesis using d True assms(1) by simp
  next
    case False
    then have pos: "0 < unat (b mod c)" by (simp add: unat_gt_0)
    then have c2: "2 \<le> unat c" using d(2) by linarith
    have "unat (b div c) * 2 \<le> unat (b div c) * unat c" using c2 by (rule mult_le_mono2)
    moreover have "unat b < 18446744073709551616" using unsigned_less [of b, where 'a = nat] by simp
    ultimately have "unat (b div c) < 9223372036854775808" using d(1) by linarith
    then have "unat (b div c + 1) = unat (b div c) + 1" by (simp add: unat_word_ariths)
    moreover have "n = b div c + 1" using assms False by (auto simp: bytes_to_chunks_def split: if_splits)
    ultimately show ?thesis using d pos by (simp add: distrib_right)
  qed
  then show "unat b \<le> unat n * unat c" "unat n * unat c < unat b + unat c" by simp_all
qed

lemma bytes_to_chunks_pos:
  assumes "0 < unat c" "bytes_to_chunks b c = Some n" "0 < unat b"
  shows "0 < unat n"
  using bytes_to_chunks_bounds(1) [OF assms(1,2)] assms(3) by (cases "unat n") auto

lemma hdr_ok_simps [simp]:
  "hdr_ok (h\<lparr>reserved_sz := r\<rparr>) = hdr_ok h" "hdr_ok (h\<lparr>updating := l\<rparr>) = hdr_ok h"
  "hdr_bytes (h\<lparr>reserved_sz := r\<rparr>) = hdr_bytes h" "hdr_bytes (h\<lparr>updating := l\<rparr>) = hdr_bytes h"
  by (simp_all add: hdr_ok_def hdr_bytes_def)

text \<open>
  Two headers of the same layout, and a header \<open>h'\<close> in which \<open>n\<close> chunks that are free in \<open>h\<close> are
  taken from slot \<open>s\<close> on.
\<close>

definition same_layout :: "log_header \<Rightarrow> log_header \<Rightarrow> bool" where
  "same_layout h h' \<longleftrightarrow> hdr_ok h' \<and> chunk_sz h' = chunk_sz h \<and> data_sz h' = data_sz h \<and>
     data_offset h' = data_offset h \<and> total_slots (chunk_map h') = total_slots (chunk_map h)"

definition took :: "log_header \<Rightarrow> log_header \<Rightarrow> u64 \<Rightarrow> u64 \<Rightarrow> bool" where
  "took h h' s n \<longleftrightarrow> same_layout h h' \<and> 0 < unat n \<and> unat s + unat n \<le> unat (total_slots (chunk_map h)) \<and>
     used_set (chunk_map h) \<inter> block s n = {} \<and> used_set (chunk_map h') = used_set (chunk_map h) \<union> block s n"

lemma layout_simps [simp]:
  "same_layout h (h'\<lparr>reserved_sz := r\<rparr>) = same_layout h h'" "same_layout h (h'\<lparr>updating := l\<rparr>) = same_layout h h'"
  "same_layout (h\<lparr>reserved_sz := r\<rparr>) h' = same_layout h h'" "same_layout (h\<lparr>updating := l\<rparr>) h' = same_layout h h'"
  "took h (h'\<lparr>reserved_sz := r\<rparr>) s n = took h h' s n" "took h (h'\<lparr>updating := l\<rparr>) s n = took h h' s n"
  "took (h\<lparr>reserved_sz := r\<rparr>) h' s n = took h h' s n" "took (h\<lparr>updating := l\<rparr>) h' s n = took h h' s n"
  "same_layout h (h'\<lparr>updating := l, chunk_map := m\<rparr>) = same_layout h (h'\<lparr>chunk_map := m\<rparr>)"
  "took h (h'\<lparr>updating := l, chunk_map := m\<rparr>) s n = took h (h'\<lparr>chunk_map := m\<rparr>) s n"
  by (simp_all add: same_layout_def took_def hdr_ok_def)

lemma same_layout_refl [simp]: "same_layout h h = hdr_ok h"
  by (simp add: same_layout_def)

lemma unat_mult_small: "unat (a::u64) * unat b < 2 ^ 64 \<Longrightarrow> unat (a * b) = unat a * unat b"
  by (simp add: unat_word_ariths)

lemma block_bytes:
  assumes "0 < unat c"
  shows "{i. i div unat c \<in> block s n} = {unat s * unat c..<(unat s + unat n) * unat c}"
  unfolding block_def by (rule div_range [OF assms])

lemma took_bytes:
  assumes "hdr_ok h" "took h h' s n"
  shows "hdr_bytes h' = hdr_bytes h \<union> {unat s * unat (chunk_sz h)..<(unat s + unat n) * unat (chunk_sz h)}"
    "hdr_bytes h \<inter> {unat s * unat (chunk_sz h)..<(unat s + unat n) * unat (chunk_sz h)} = {}"
    "(unat s + unat n) * unat (chunk_sz h) \<le> unat (data_sz h)"
    "unat (s * chunk_sz h) = unat s * unat (chunk_sz h)"
    "unat (n * chunk_sz h) = unat n * unat (chunk_sz h)"
proof -
  have c: "0 < unat (chunk_sz h)" and d: "unat (data_sz h) = unat (total_slots (chunk_map h)) * unat (chunk_sz h)"
    "unat (data_sz h) < 2 ^ 64" using assms(1) by (auto simp: hdr_ok_def)
  have t: "unat s + unat n \<le> unat (total_slots (chunk_map h))" "chunk_sz h' = chunk_sz h"
    "used_set (chunk_map h') = used_set (chunk_map h) \<union> block s n" "used_set (chunk_map h) \<inter> block s n = {}"
    using assms(2) by (auto simp: took_def same_layout_def)
  show "hdr_bytes h' = hdr_bytes h \<union> {unat s * unat (chunk_sz h)..<(unat s + unat n) * unat (chunk_sz h)}"
    unfolding block_bytes [OF c, symmetric] by (auto simp: hdr_bytes_def t)
  show "hdr_bytes h \<inter> {unat s * unat (chunk_sz h)..<(unat s + unat n) * unat (chunk_sz h)} = {}"
    unfolding block_bytes [OF c, symmetric] using t(4) by (auto simp: hdr_bytes_def)
  show le: "(unat s + unat n) * unat (chunk_sz h) \<le> unat (data_sz h)"
    unfolding d(1) by (rule mult_le_mono1 [OF t(1)])
  then show "unat (s * chunk_sz h) = unat s * unat (chunk_sz h)" "unat (n * chunk_sz h) = unat n * unat (chunk_sz h)"
    using d(2) by (intro unat_mult_small; simp only: distrib_right; linarith)+
qed

lemma hdr_reserve:
  assumes "hdr_ok h"
  obtains (full) "slotmap_reserve (chunk_map h) n = Some (- 1, chunk_map h)"
  | (ok) s m where "slotmap_reserve (chunk_map h) n = Some (s, m)" "s \<noteq> - 1"
      "took h (h\<lparr>chunk_map := m\<rparr>) s n"
proof -
  have inv: "slot_inv (chunk_map h)" using assms by (auto simp: hdr_ok_def)
  show thesis
  proof (rule reserve_cases [OF inv, of n])
    fix s m
    assume r: "slotmap_reserve (chunk_map h) n = Some (s, m)" "0 < unat n" "slot_inv m"
      "unat s + unat n \<le> 8 * length (use_map (chunk_map h))" "unat s + unat n < 2 ^ 64"
      "used_set (chunk_map h) \<inter> {unat s..<unat s + unat n} = {}"
      "used_set m = used_set (chunk_map h) \<union> {unat s..<unat s + unat n}" "total_slots m = total_slots (chunk_map h)"
    have "s \<noteq> - 1" using r(2,5) by (auto simp: unsigned_minus_1_eq_mask mask_eq_exp_minus_1)
    then show thesis
      by (rule ok [OF r(1)])
        (use r hdr_okD(1) [OF assms] assms in \<open>auto simp: took_def same_layout_def hdr_ok_def block_def\<close>)
  qed (use full in blast)
qed

lemma hdr_release:
  assumes "hdr_ok h" "0 < unat n" "block s n \<subseteq> used_set (chunk_map h)"
  obtains m where "slotmap_release (chunk_map h) s n = Some (UNIFYFS_SUCCESS, m)"
    "used_set m = used_set (chunk_map h) - block s n"
    "same_layout h (h\<lparr>chunk_map := m\<rparr>)"
proof -
  have inv: "slot_inv (chunk_map h)" using assms by (auto simp: hdr_ok_def)
  obtain m where m: "slotmap_release (chunk_map h) s n = Some (UNIFYFS_SUCCESS, m)" "slot_inv m"
    "used_set m = used_set (chunk_map h) - block s n" "total_slots m = total_slots (chunk_map h)"
    using release_spec [OF inv assms(2)] assms(3) unfolding block_def by blast
  show thesis by (rule that [OF m(1,3)]) (use m assms(1) in \<open>auto simp: same_layout_def hdr_ok_def\<close>)
qed

section \<open>What an allocation does\<close>

lemma bytes_to_chunks_Some: "c \<noteq> 0 \<Longrightarrow> \<exists>n. bytes_to_chunks b c = Some n"
  by (simp add: bytes_to_chunks_def)

lemma alloc_shmem_cases:
  assumes "hdr_ok h" "\<not> updating h"
  obtains (fits) s n h' where "logio_alloc_shmem h sp nbytes = Some (h', Inl (s * chunk_sz h))"
      "took h h' s n" "\<not> updating h'" "bytes_to_chunks nbytes (chunk_sz h) = Some n"
  | (none) h' where "logio_alloc_shmem h sp nbytes = Some (h', Inr None)" "same_layout h h'" "\<not> updating h'"
      "used_set (chunk_map h') = used_set (chunk_map h)"
  | (tail) s h' where "sp" "updating h'"
      "logio_alloc_shmem h sp nbytes =
         Some (h', Inr (Some (s, total_slots (chunk_map h) - (last_used_slot (chunk_map h) + 1))))"
      "took h h' s (total_slots (chunk_map h) - (last_used_slot (chunk_map h) + 1))"
proof -
  let ?h = "h\<lparr>updating := True\<rparr>" and ?k = "total_slots (chunk_map h) - (last_used_slot (chunk_map h) + 1)"
  have ok: "hdr_ok ?h" using assms(1) by simp
  obtain n where n: "bytes_to_chunks nbytes (chunk_sz h) = Some n"
    using bytes_to_chunks_Some hdr_okD(4) [OF assms(1)] by blast
  note defs = logio_alloc_shmem_def LOCK_LOG_HEADER_def UNLOCK_LOG_HEADER_def Let_def
  show thesis
  proof (rule hdr_reserve [OF ok, of n])
    fix s m assume r: "slotmap_reserve (chunk_map ?h) n = Some (s, m)" "s \<noteq> - 1" "took ?h (?h\<lparr>chunk_map := m\<rparr>) s n"
    then show thesis
      by (intro fits [of "h\<lparr>updating := False, chunk_map := m, reserved_sz := reserved_sz h + n * chunk_sz h\<rparr>" s n])
        (use assms n in \<open>simp_all add: defs took_def same_layout_def hdr_ok_def\<close>)
  next
    assume full: "slotmap_reserve (chunk_map ?h) n = Some (- 1, chunk_map ?h)"
    show thesis
    proof (rule hdr_reserve [OF ok, of ?k])
      assume "slotmap_reserve (chunk_map ?h) ?k = Some (- 1, chunk_map ?h)"
      then show thesis using full assms n by (intro none [of h]) (auto simp: defs)
    next
      fix s m assume "slotmap_reserve (chunk_map ?h) ?k = Some (s, m)" "s \<noteq> - 1" "took ?h (?h\<lparr>chunk_map := m\<rparr>) s ?k"
      then show thesis using full assms n
        by (cases "sp \<and> 0 < ?k")
          (intro tail [of "h\<lparr>updating := True, chunk_map := m\<rparr>" s] none [of h]; auto simp: defs)+
    qed
  qed
qed

lemma rollback_spec:
  assumes "took h h' s k" "updating h'"
  shows "\<exists>h''. logio_rollback (Some h') (Some (s, k)) = Some (Some h'') \<and> same_layout h h'' \<and> \<not> updating h'' \<and>
    used_set (chunk_map h'') = used_set (chunk_map h)"
proof -
  have t: "hdr_ok h'" "0 < unat k" "block s k \<subseteq> used_set (chunk_map h')"
    "used_set (chunk_map h') - block s k = used_set (chunk_map h)"
    using assms(1) by (auto simp: took_def same_layout_def)
  obtain m where m: "slotmap_release (chunk_map h') s k = Some (UNIFYFS_SUCCESS, m)"
    "used_set m = used_set (chunk_map h') - block s k" "same_layout h' (h'\<lparr>chunk_map := m\<rparr>)"
    using hdr_release [OF t(1-3)] by blast
  then have "same_layout h (h'\<lparr>chunk_map := m\<rparr>)" using assms(1) by (simp add: took_def same_layout_def)
  then show ?thesis using m assms(2) t(4) by (simp add: logio_rollback_def UNLOCK_LOG_HEADER_def)
qed

lemma spill_reserve_cases:
  assumes "hdr_ok h" "updating h"
  obtains (ok) s n h' where
      "logio_spill_reserve shm h nbytes = Some (Some (s * chunk_sz h + (case shm of Some g \<Rightarrow> data_sz g | None \<Rightarrow> 0)), h')"
      "took h h' s n" "\<not> updating h'" "bytes_to_chunks nbytes (chunk_sz h) = Some n"
  | (full) "logio_spill_reserve shm h nbytes = Some (None, h)"
proof -
  obtain n where n: "bytes_to_chunks nbytes (chunk_sz h) = Some n"
    using bytes_to_chunks_Some hdr_okD(4) [OF assms(1)] by blast
  note defs = logio_spill_reserve_def UNLOCK_LOG_HEADER_def
  show thesis
  proof (rule hdr_reserve [OF assms(1), of n])
    assume "slotmap_reserve (chunk_map h) n = Some (- 1, chunk_map h)"
    then show thesis using n by (intro full) (simp add: defs)
  next
    fix s m assume "slotmap_reserve (chunk_map h) n = Some (s, m)" "s \<noteq> - 1" "took h (h\<lparr>chunk_map := m\<rparr>) s n"
    then show thesis
      by (intro ok [of s "h\<lparr>chunk_map := m, reserved_sz := reserved_sz h + n * chunk_sz h, updating := False\<rparr>" n])
        (use assms n in \<open>simp_all add: defs took_def same_layout_def hdr_ok_def\<close>)
  qed
qed

text \<open>Without chunks of the shared memory the spill file takes everything.\<close>

lemma alloc_spill_alone:
  assumes "hdr_ok h" "\<not> updating h"
  obtains (ok) s n h' where
      "logio_alloc_spill shm h None nbytes =
         Some (UNIFYFS_SUCCESS, Some (s * chunk_sz h + (case shm of Some g \<Rightarrow> data_sz g | None \<Rightarrow> 0)), shm, h')"
      "took h h' s n" "\<not> updating h'" "bytes_to_chunks nbytes (chunk_sz h) = Some n"
  | (full) h' where "logio_alloc_spill shm h None nbytes = Some (ENOSPC, None, shm, h')" "same_layout h h'"
      "used_set (chunk_map h') = used_set (chunk_map h)"
proof -
  have l: "hdr_ok (h\<lparr>updating := True\<rparr>)" "updating (h\<lparr>updating := True\<rparr>)" using assms by simp_all
  note defs = logio_alloc_spill_def LOCK_LOG_HEADER_def UNLOCK_LOG_HEADER_def
  show thesis
  proof (rule spill_reserve_cases [OF l, of shm nbytes])
    fix s n h'
    assume "logio_spill_reserve shm (h\<lparr>updating := True\<rparr>) nbytes =
        Some (Some (s * chunk_sz (h\<lparr>updating := True\<rparr>) + (case shm of None \<Rightarrow> 0 | Some g \<Rightarrow> data_sz g)), h')"
      "took (h\<lparr>updating := True\<rparr>) h' s n" "\<not> updating h'"
      "bytes_to_chunks nbytes (chunk_sz (h\<lparr>updating := True\<rparr>)) = Some n"
    then show thesis using assms by (intro ok [of s h' n]) (cases shm; simp add: defs)+
  next
    assume "logio_spill_reserve shm (h\<lparr>updating := True\<rparr>) nbytes = Some (None, h\<lparr>updating := True\<rparr>)"
    then show thesis using assms by (intro full [of h]) (cases shm; simp add: defs)+
  qed
qed

text \<open>
  With chunks at the end of the shared memory: both parts are kept when the spill part starts at
  slot 0, otherwise everything goes to the spill file, or nothing is taken.
\<close>

lemma alloc_spill_rest:
  assumes h: "hdr_ok h" "\<not> updating h" and g: "took g g' s k" "updating g'"
  obtains (span) n g'' h' where
      "logio_alloc_spill (Some g') h (Some (s, k)) nbytes = Some (UNIFYFS_SUCCESS, Some (s * chunk_sz g), Some g'', h')"
      "took g g'' s k" "\<not> updating g''" "took h h' 0 n" "\<not> updating h'"
      "bytes_to_chunks (nbytes - k * chunk_sz g) (chunk_sz h) = Some n"
  | (alone) t n g'' h' where
      "logio_alloc_spill (Some g') h (Some (s, k)) nbytes =
         Some (UNIFYFS_SUCCESS, Some (t * chunk_sz h + data_sz g), Some g'', h')"
      "same_layout g g''" "used_set (chunk_map g'') = used_set (chunk_map g)" "\<not> updating g''"
      "took h h' t n" "\<not> updating h'" "bytes_to_chunks nbytes (chunk_sz h) = Some n"
  | (full) g'' h' where "logio_alloc_spill (Some g') h (Some (s, k)) nbytes = Some (ENOSPC, None, Some g'', h')"
      "same_layout g g''" "used_set (chunk_map g'') = used_set (chunk_map g)" "\<not> updating g''"
      "same_layout h h'" "used_set (chunk_map h') = used_set (chunk_map h)"
proof -
  let ?h = "h\<lparr>updating := True\<rparr>"
  have c: "chunk_sz g' = chunk_sz g" using g by (simp add: took_def same_layout_def)
  obtain n where n: "bytes_to_chunks (nbytes - k * chunk_sz g) (chunk_sz h) = Some n"
    using bytes_to_chunks_Some hdr_okD(4) [OF h(1)] by blast
  obtain g'' where g'': "logio_rollback (Some g') (Some (s, k)) = Some (Some g'')" "same_layout g g''"
    "\<not> updating g''" "used_set (chunk_map g'') = used_set (chunk_map g)"
    using rollback_spec [OF g] by blast
  note defs = logio_alloc_spill_def LOCK_LOG_HEADER_def UNLOCK_LOG_HEADER_def
  show thesis
  proof (rule hdr_reserve [of ?h n])
    show "hdr_ok ?h" using h by simp
  next
    assume "slotmap_reserve (chunk_map ?h) n = Some (- 1, chunk_map ?h)"
    then show thesis using h g'' n c by (intro full [of g'' h]) (simp_all add: defs)
  next
    fix t m assume r: "slotmap_reserve (chunk_map ?h) n = Some (t, m)" "t \<noteq> - 1" "took ?h (?h\<lparr>chunk_map := m\<rparr>) t n"
    show thesis
    proof (cases "t = 0")
      case True
      then show thesis
        by (intro span [of "g'\<lparr>reserved_sz := reserved_sz g' + k * chunk_sz g, updating := False\<rparr>"
                "h\<lparr>chunk_map := m, reserved_sz := reserved_sz h + n * chunk_sz h, updating := False\<rparr>" n])
          (use h g n c r True in \<open>simp_all add: defs\<close>)
    next
      case False
      let ?h1 = "?h\<lparr>chunk_map := m\<rparr>"
      have t: "hdr_ok ?h1" "0 < unat n" "block t n \<subseteq> used_set (chunk_map ?h1)"
        "used_set m - block t n = used_set (chunk_map h)"
        using r(3) by (auto simp: took_def same_layout_def)
      obtain m' where m': "slotmap_release (chunk_map ?h1) t n = Some (UNIFYFS_SUCCESS, m')"
        "used_set m' = used_set (chunk_map ?h1) - block t n" "same_layout ?h1 (?h1\<lparr>chunk_map := m'\<rparr>)"
        by (rule hdr_release [OF t(1-3)])
      let ?h2 = "?h\<lparr>chunk_map := m'\<rparr>"
      have h2: "same_layout h ?h2" "used_set m' = used_set (chunk_map h)"
        using m' r(3) t(4) by (auto simp: took_def same_layout_def)
      have d: "data_sz g'' = data_sz g" using g''(2) by (simp add: same_layout_def)
      have took2: "took ?h2 h' t' n' = took h h' t' n'" for h' t' n'
        using h2 by (simp add: took_def same_layout_def)
      show thesis
      proof (rule spill_reserve_cases [of ?h2 "Some g''" nbytes])
        show "hdr_ok ?h2" "updating ?h2" using h2(1) by (simp_all add: same_layout_def)
      next
        fix t' n' h'
        assume "logio_spill_reserve (Some g'') ?h2 nbytes = Some (Some (t' * chunk_sz ?h2 +
            (case Some g'' of None \<Rightarrow> 0 | Some g \<Rightarrow> data_sz g)), h')" "took ?h2 h' t' n'" "\<not> updating h'"
          "bytes_to_chunks nbytes (chunk_sz ?h2) = Some n'"
        then show thesis using h g'' n c r False m' d
          by (intro alone [of t' g'' h' n']) (simp_all add: defs took2)
      next
        assume "logio_spill_reserve (Some g'') ?h2 nbytes = Some (None, ?h2)"
        then show thesis using h g'' n c r False m' h2
          by (intro full [of g'' ?h2]) (simp_all add: defs)
      qed
    qed
  qed
qed

text \<open>
  A context is in order when its headers are and none is locked. \<open>kept\<close> relates a region before and
  after a call that takes no chunks of it; \<open>locked\<close> allows that its header stays locked.
\<close>

definition region_ok :: "log_region \<Rightarrow> bool" where
  "region_ok r \<longleftrightarrow> hdr_ok (lr_header r) \<and> \<not> updating (lr_header r)"

definition ctx_ok :: "logio_context \<Rightarrow> bool" where
  "ctx_ok ctx \<longleftrightarrow> pred_option region_ok (lc_shmem ctx) \<and> pred_option region_ok (lc_spill_hdr ctx)"

definition kept :: "bool \<Rightarrow> log_region option \<Rightarrow> log_region option \<Rightarrow> bool" where
  "kept locked = rel_option (\<lambda>r r'. \<exists>h. r' = r\<lparr>lr_header := h\<rparr> \<and> same_layout (lr_header r) h \<and>
     used_set (chunk_map h) = used_set (chunk_map (lr_header r)) \<and> (\<not> locked \<longrightarrow> \<not> updating h))"

lemma kept_simps [simp]: "kept l None None" "kept l (Some r) (Some (r\<lparr>lr_header := h\<rparr>)) \<longleftrightarrow> same_layout (lr_header r) h \<and>
     used_set (chunk_map h) = used_set (chunk_map (lr_header r)) \<and> (\<not> l \<longrightarrow> \<not> updating h)"
proof -
  have "r\<lparr>lr_header := h\<rparr> = r\<lparr>lr_header := h'\<rparr> \<longleftrightarrow> h = h'" for h'
    by (metis log_region.select_convs(1) log_region.surjective log_region.update_convs(1))
  then show "kept l None None" "kept l (Some r) (Some (r\<lparr>lr_header := h\<rparr>)) \<longleftrightarrow> same_layout (lr_header r) h \<and>
     used_set (chunk_map h) = used_set (chunk_map (lr_header r)) \<and> (\<not> l \<longrightarrow> \<not> updating h)"
    by (auto simp: kept_def)
qed

lemma logio_alloc_cases:
  assumes ok: "ctx_ok ctx" and n0: "nbytes \<noteq> 0"
  obtains (mem) r h s n where "lc_shmem ctx = Some r"
      "unifyfs_logio_alloc ctx nbytes =
         Some (UNIFYFS_SUCCESS, Some (s * chunk_sz (lr_header r)), ctx\<lparr>lc_shmem := Some (r\<lparr>lr_header := h\<rparr>)\<rparr>)"
      "took (lr_header r) h s n" "\<not> updating h" "bytes_to_chunks nbytes (chunk_sz (lr_header r)) = Some n"
  | (spill) shm r h s n where "kept False (lc_shmem ctx) shm" "lc_spill_hdr ctx = Some r"
      "unifyfs_logio_alloc ctx nbytes =
         Some (UNIFYFS_SUCCESS, Some (s * chunk_sz (lr_header r) + mem_data_sz ctx),
               ctx\<lparr>lc_shmem := shm, lc_spill_hdr := Some (r\<lparr>lr_header := h\<rparr>)\<rparr>)"
      "took (lr_header r) h s n" "\<not> updating h" "bytes_to_chunks nbytes (chunk_sz (lr_header r)) = Some n"
  | (span) q g s r h n where "lc_shmem ctx = Some q" "lc_spill_hdr ctx = Some r"
      "unifyfs_logio_alloc ctx nbytes =
         Some (UNIFYFS_SUCCESS, Some (s * chunk_sz (lr_header q)),
               ctx\<lparr>lc_shmem := Some (q\<lparr>lr_header := g\<rparr>), lc_spill_hdr := Some (r\<lparr>lr_header := h\<rparr>)\<rparr>)"
      "took (lr_header q) g s (total_slots (chunk_map (lr_header q)) - (last_used_slot (chunk_map (lr_header q)) + 1))"
      "\<not> updating g" "took (lr_header r) h 0 n" "\<not> updating h"
      "bytes_to_chunks (nbytes - (total_slots (chunk_map (lr_header q)) -
         (last_used_slot (chunk_map (lr_header q)) + 1)) * chunk_sz (lr_header q)) (chunk_sz (lr_header r)) = Some n"
  | (full) shm sp where "kept False (lc_shmem ctx) shm" "kept True (lc_spill_hdr ctx) sp"
      "unifyfs_logio_alloc ctx nbytes = Some (ENOSPC, None, ctx\<lparr>lc_shmem := shm, lc_spill_hdr := sp\<rparr>)"
proof -
  note defs = unifyfs_logio_alloc_def set_hdr_def n0 mem_data_sz_def
  have alone: thesis
    if shm: "kept False (lc_shmem ctx) (set_hdr (lc_shmem ctx) g)" "map_option (\<lambda>r. data_sz (lr_header r)) (lc_shmem ctx) = map_option data_sz g"
      and alloc: "unifyfs_logio_alloc ctx nbytes = (case lc_spill_hdr ctx of
           None \<Rightarrow> Some (ENOSPC, None, ctx\<lparr>lc_shmem := set_hdr (lc_shmem ctx) g\<rparr>)
         | Some region \<Rightarrow> do {
             (rc, off, shmem, spill) \<leftarrow> logio_alloc_spill g (lr_header region) None nbytes;
             Some (rc, off, ctx\<lparr>lc_shmem := set_hdr (lc_shmem ctx) shmem, lc_spill_hdr := Some (region\<lparr>lr_header := spill\<rparr>)\<rparr>)
           })" for g
  proof (cases "lc_spill_hdr ctx")
    case None
    then show thesis using shm alloc by (intro full [of "set_hdr (lc_shmem ctx) g" None]) auto
  next
    case (Some r)
    then have r: "hdr_ok (lr_header r)" "\<not> updating (lr_header r)" using ok by (auto simp: ctx_ok_def region_ok_def)
    have d: "(case g of None \<Rightarrow> 0 | Some g \<Rightarrow> data_sz g) = mem_data_sz ctx"
      using shm(2) by (cases g; cases "lc_shmem ctx") (auto simp: mem_data_sz_def)
    show thesis
      by (rule alloc_spill_alone [OF r, of g nbytes])
        ((rule spill [OF shm(1) Some], use Some alloc in \<open>simp_all add: d\<close>)[1],
         (rule full [OF shm(1)], use Some alloc in \<open>simp_all add: d\<close>))
  qed
  show thesis
  proof (cases "lc_shmem ctx")
    case None
    then show thesis by (intro alone [of None]) (auto simp: defs logio_rollback_def split: option.splits)
  next
    case (Some q)
    then have q: "hdr_ok (lr_header q)" "\<not> updating (lr_header q)" using ok by (auto simp: ctx_ok_def region_ok_def)
    let ?k = "total_slots (chunk_map (lr_header q)) - (last_used_slot (chunk_map (lr_header q)) + 1)"
    show thesis
    proof (rule alloc_shmem_cases [OF q, of "lc_spill_hdr ctx \<noteq> None" nbytes])
      fix s n h
      assume "logio_alloc_shmem (lr_header q) (lc_spill_hdr ctx \<noteq> None) nbytes = Some (h, Inl (s * chunk_sz (lr_header q)))"
        "took (lr_header q) h s n" "\<not> updating h" "bytes_to_chunks nbytes (chunk_sz (lr_header q)) = Some n"
      then show thesis using Some by (intro mem [of q s h n]) (simp_all add: defs)
    next
      fix h
      assume "logio_alloc_shmem (lr_header q) (lc_spill_hdr ctx \<noteq> None) nbytes = Some (h, Inr None)"
        "same_layout (lr_header q) h" "\<not> updating h" "used_set (chunk_map h) = used_set (chunk_map (lr_header q))"
      then show thesis using Some
        by (intro alone [of "Some h"]) (auto simp: defs logio_rollback_def same_layout_def split: option.splits)
    next
      fix s g'
      assume a: "lc_spill_hdr ctx \<noteq> None" "updating g'" "took (lr_header q) g' s ?k"
        "logio_alloc_shmem (lr_header q) (lc_spill_hdr ctx \<noteq> None) nbytes = Some (g', Inr (Some (s, ?k)))"
      then obtain r where r: "lc_spill_hdr ctx = Some r" by auto
      then have ok': "hdr_ok (lr_header r)" "\<not> updating (lr_header r)" using ok by (auto simp: ctx_ok_def region_ok_def)
      have alloc: "unifyfs_logio_alloc ctx nbytes = do {
          (rc, off, shmem, spill) \<leftarrow> logio_alloc_spill (Some g') (lr_header r) (Some (s, ?k)) nbytes;
          Some (rc, off, ctx\<lparr>lc_shmem := set_hdr (lc_shmem ctx) shmem, lc_spill_hdr := Some (r\<lparr>lr_header := spill\<rparr>)\<rparr>)
        }" using a(4) Some r by (simp add: defs)
      have d: "mem_data_sz ctx = data_sz (lr_header q)" using Some by (simp add: mem_data_sz_def)
      show thesis
      proof (rule alloc_spill_rest [OF ok' a(3,2), of nbytes], goal_cases)
        case (1 n g h)
        then show ?case using alloc Some by (intro span [OF Some r, of s h g n]) (simp_all add: set_hdr_def)
      next
        case (2 t n g h)
        then show ?case using alloc Some d
          by (intro spill [of "Some (q\<lparr>lr_header := g\<rparr>)" r t h n]) (simp_all add: set_hdr_def r)
      next
        case (3 g h)
        then show ?case using alloc Some r
          by (intro full [of "Some (q\<lparr>lr_header := g\<rparr>)" "Some (r\<lparr>lr_header := h\<rparr>)"]) (simp_all add: set_hdr_def)
      qed
    qed
  qed
qed

section \<open>Allocated bytes of the log\<close>

definition region_bytes :: "log_region option \<Rightarrow> nat set" where
  "region_bytes region = (case region of Some r \<Rightarrow> hdr_bytes (lr_header r) | None \<Rightarrow> {})"

text \<open>The log offsets in allocated chunks.\<close>

definition log_used :: "logio_context \<Rightarrow> nat set" where
  "log_used ctx = region_bytes (lc_shmem ctx) \<union> (\<lambda>i. unat (mem_data_sz ctx) + i) ` region_bytes (lc_spill_hdr ctx)"

text \<open>
  The only place for as many chunks as there are behind the last used one is behind the last used
  one.
\<close>

definition tail_only :: "slot_map \<Rightarrow> bool" where
  "tail_only m \<longleftrightarrow> (\<forall>s. free_run (use_map m) (slot_map_bytes (unat (total_slots m)))
     (unat (total_slots m - (last_used_slot m + 1))) s \<longrightarrow> s = unat (last_used_slot m + 1))"

definition tail_ok :: "logio_context \<Rightarrow> bool" where
  "tail_ok ctx \<longleftrightarrow> lc_spill_hdr ctx = None \<or> pred_option (\<lambda>r. tail_only (chunk_map (lr_header r))) (lc_shmem ctx)"

lemma kept_bytes:
  assumes "kept l a b"
  shows "region_bytes b = region_bytes a"
    "map_option (\<lambda>r. data_sz (lr_header r)) b = map_option (\<lambda>r. data_sz (lr_header r)) a"
  using assms unfolding kept_def
  by (cases a; cases b; clarsimp simp: region_bytes_def hdr_bytes_def same_layout_def)+

lemma mem_data_sz_cong:
  "map_option (\<lambda>r. data_sz (lr_header r)) (lc_shmem c) = map_option (\<lambda>r. data_sz (lr_header r)) (lc_shmem c') \<Longrightarrow>
   mem_data_sz c = mem_data_sz c'"
  by (auto simp: mem_data_sz_def split: option.splits)

lemma ctx_bytes_bound:
  assumes "ctx_ok ctx"
  shows "region_bytes (lc_shmem ctx) \<subseteq> {..<unat (mem_data_sz ctx)}"
  using assms hdr_okD(3)
  by (cases "lc_shmem ctx") (simp_all add: ctx_ok_def region_ok_def region_bytes_def mem_data_sz_def)

lemma shift_range: "(\<lambda>i. c + i) ` {a..<b} = {c + a..<c + (b::nat)}"
  by (simp add: image_add_atLeastLessThan add.commute)

lemma tail_span:
  assumes "hdr_ok h" "tail_only (chunk_map h)"
    and "took h h' s (total_slots (chunk_map h) - (last_used_slot (chunk_map h) + 1))"
  shows "unat s + unat (total_slots (chunk_map h) - (last_used_slot (chunk_map h) + 1)) = unat (total_slots (chunk_map h))"
proof -
  let ?t = "total_slots (chunk_map h)" and ?l = "last_used_slot (chunk_map h) + 1"
  have b: "unat s + unat (?t - ?l) \<le> unat ?t" "used_set (chunk_map h) \<inter> block s (?t - ?l) = {}"
    using assms(3) by (auto simp: took_def)
  have "length (use_map (chunk_map h)) = slot_map_bytes (unat ?t)" using assms(1) by (simp add: hdr_ok_def slot_inv_def)
  then have "free_run (use_map (chunk_map h)) (slot_map_bytes (unat ?t)) (unat (?t - ?l)) (unat s)"
    using b hdr_okD(1) [OF assms(1)] by (auto simp: free_run_def used_set_def block_def)
  then have s: "unat s = unat ?l" using assms(2) by (simp add: tail_only_def)
  show ?thesis
  proof (cases "?l \<le> ?t")
    case True
    then show ?thesis using s by (simp add: unat_sub word_le_nat_alt)
  next
    case False
    then show ?thesis using s b(1) by (simp add: word_le_nat_alt)
  qed
qed

lemma rest_chunks:
  assumes "hdr_ok g" "took g g' s k" "hdr_ok h" "took h h' t n" "unat nbytes < 2 ^ 62"
    and n: "bytes_to_chunks (nbytes - k * chunk_sz g) (chunk_sz h) = Some n"
  shows "unat k * unat (chunk_sz g) < unat nbytes" "unat (nbytes - k * chunk_sz g) = unat nbytes - unat k * unat (chunk_sz g)"
proof -
  have c: "0 < unat (chunk_sz h)" "unat (data_sz h) < 2 ^ 62" "unat (data_sz g) < 2 ^ 62"
    using assms(1,3) by (auto simp: hdr_ok_def)
  note b = bytes_to_chunks_bounds [OF c(1) n]
  have up: "unat n * unat (chunk_sz h) < 2 ^ 62" and pos: "0 < unat n"
    using took_bytes(3) [OF assms(3,4)] c(2) assms(4) by (auto simp: took_def distrib_right)
  have k: "unat (k * chunk_sz g) = unat k * unat (chunk_sz g)" "unat k * unat (chunk_sz g) < 2 ^ 62"
    using took_bytes(3,5) [OF assms(1,2)] c(3) by (auto simp: distrib_right)
  show less: "unat k * unat (chunk_sz g) < unat nbytes"
  proof (rule ccontr)
    assume "\<not> unat k * unat (chunk_sz g) < unat nbytes"
    then have le: "unat nbytes \<le> unat (k * chunk_sz g)" using k by simp
    show False
    proof (cases "nbytes = k * chunk_sz g")
      case True
      then show False using n pos c(1) by (auto simp: bytes_to_chunks_def split: if_splits)
    next
      case False
      then have "unat nbytes < unat (k * chunk_sz g)" using le by (simp add: order_less_le word_unat_eq_iff)
      then have "unat (nbytes - k * chunk_sz g) = 2 ^ 64 + unat nbytes - unat (k * chunk_sz g)"
        by (subst unat_sub_if') auto
      then show False using b(1) up k by simp
    qed
  qed
  then show "unat (nbytes - k * chunk_sz g) = unat nbytes - unat k * unat (chunk_sz g)"
    using k by (subst unat_sub) (auto simp: word_le_nat_alt)
qed

text \<open>The sets of bytes after chunks have been taken in one of the regions or in both.\<close>

lemma log_used_mem:
  assumes ok: "ctx_ok ctx" and r: "lc_shmem ctx = Some r" and t: "took (lr_header r) h s n"
  defines "B \<equiv> {unat s * unat (chunk_sz (lr_header r))..<(unat s + unat n) * unat (chunk_sz (lr_header r))}"
  shows "log_used (ctx\<lparr>lc_shmem := Some (r\<lparr>lr_header := h\<rparr>)\<rparr>) = log_used ctx \<union> B" "B \<inter> log_used ctx = {}"
    "mem_data_sz (ctx\<lparr>lc_shmem := Some (r\<lparr>lr_header := h\<rparr>)\<rparr>) = mem_data_sz ctx"
proof -
  have h: "hdr_ok (lr_header r)" using ok r by (simp add: ctx_ok_def region_ok_def)
  note B = took_bytes [OF h t, folded B_def]
  show d: "mem_data_sz (ctx\<lparr>lc_shmem := Some (r\<lparr>lr_header := h\<rparr>)\<rparr>) = mem_data_sz ctx"
    using t r by (simp add: mem_data_sz_def took_def same_layout_def)
  show "log_used (ctx\<lparr>lc_shmem := Some (r\<lparr>lr_header := h\<rparr>)\<rparr>) = log_used ctx \<union> B"
    unfolding log_used_def d using B(1) r by (auto simp: region_bytes_def)
  have "B \<subseteq> {..<unat (mem_data_sz ctx)}" using B(3) r by (auto simp: B_def mem_data_sz_def)
  then show "B \<inter> log_used ctx = {}" using B(2) r by (auto simp: log_used_def region_bytes_def)
qed

lemma log_used_spill:
  assumes ok: "ctx_ok ctx" and r: "lc_spill_hdr ctx = Some r" and t: "took (lr_header r) h s n"
  defines "B \<equiv> {unat (mem_data_sz ctx) + unat s * unat (chunk_sz (lr_header r))..<
    unat (mem_data_sz ctx) + (unat s + unat n) * unat (chunk_sz (lr_header r))}"
  shows "log_used (ctx\<lparr>lc_spill_hdr := Some (r\<lparr>lr_header := h\<rparr>)\<rparr>) = log_used ctx \<union> B" "B \<inter> log_used ctx = {}"
proof -
  have h: "hdr_ok (lr_header r)" using ok r by (simp add: ctx_ok_def region_ok_def)
  note b = took_bytes [OF h t]
  have d: "mem_data_sz (ctx\<lparr>lc_spill_hdr := Some (r\<lparr>lr_header := h\<rparr>)\<rparr>) = mem_data_sz ctx" by (simp add: mem_data_sz_def)
  show "log_used (ctx\<lparr>lc_spill_hdr := Some (r\<lparr>lr_header := h\<rparr>)\<rparr>) = log_used ctx \<union> B"
    unfolding log_used_def d B_def using r by (simp add: region_bytes_def b(1) image_Un shift_range Un_assoc add.commute)
  have "B \<inter> (\<lambda>i. unat (mem_data_sz ctx) + i) ` hdr_bytes (lr_header r) = {}"
    using b(2) unfolding B_def shift_range [symmetric] by auto
  moreover have "B \<inter> {..<unat (mem_data_sz ctx)} = {}" by (auto simp: B_def)
  ultimately show "B \<inter> log_used ctx = {}"
    using ctx_bytes_bound [OF ok] r by (auto simp: log_used_def region_bytes_def)
qed

lemma log_used_kept:
  assumes "kept l (lc_shmem ctx) shm" "kept l' (lc_spill_hdr ctx) sp"
  shows "log_used (ctx\<lparr>lc_shmem := shm\<rparr>) = log_used ctx" "mem_data_sz (ctx\<lparr>lc_shmem := shm\<rparr>) = mem_data_sz ctx"
    "log_used (ctx\<lparr>lc_shmem := shm, lc_spill_hdr := sp\<rparr>) = log_used ctx"
proof -
  have d: "mem_data_sz (ctx\<lparr>lc_shmem := shm\<rparr>) = mem_data_sz ctx"
    "mem_data_sz (ctx\<lparr>lc_shmem := shm, lc_spill_hdr := sp\<rparr>) = mem_data_sz ctx"
    using kept_bytes(2) [OF assms(1)] by (auto intro!: mem_data_sz_cong)
  then show "mem_data_sz (ctx\<lparr>lc_shmem := shm\<rparr>) = mem_data_sz ctx" by simp
  show "log_used (ctx\<lparr>lc_shmem := shm\<rparr>) = log_used ctx"
    "log_used (ctx\<lparr>lc_shmem := shm, lc_spill_hdr := sp\<rparr>) = log_used ctx"
    using kept_bytes(1) [OF assms(1)] kept_bytes(1) [OF assms(2)] d by (simp_all add: log_used_def)
qed

lemma region_ok_took: "took (lr_header r) h s n \<Longrightarrow> \<not> updating h \<Longrightarrow> region_ok (r\<lparr>lr_header := h\<rparr>)"
  by (simp add: region_ok_def took_def same_layout_def)

lemma region_ok_kept: "kept False a b \<Longrightarrow> pred_option region_ok b"
  by (auto simp: kept_def region_ok_def same_layout_def elim!: option.rel_cases)

text \<open>
  What a successful allocation at \<open>pos\<close> promises: the context stays in order, and the bytes from
  \<open>pos\<close> on lie in a set that was free before and is all that was added.
\<close>

definition fresh_alloc :: "logio_context \<Rightarrow> u64 \<Rightarrow> u64 \<Rightarrow> logio_context \<Rightarrow> bool" where
  "fresh_alloc ctx nbytes pos ctx' \<longleftrightarrow> ctx_ok ctx' \<and>
     (\<exists>new. {unat pos..<unat pos + unat nbytes} \<subseteq> new \<and> new \<inter> log_used ctx = {} \<and> log_used ctx' = log_used ctx \<union> new)"

lemma fresh_allocI:
  assumes "ctx_ok ctx'" "log_used ctx' = log_used ctx \<union> {a..<b}" "{a..<b} \<inter> log_used ctx = {}"
    "unat pos = a" "a + unat nbytes \<le> b"
  shows "fresh_alloc ctx nbytes pos ctx'"
  unfolding fresh_alloc_def using assms by (intro conjI exI [of _ "{a..<b}"]) auto

lemma alloc_mem_fresh:
  assumes ok: "ctx_ok ctx" and r: "lc_shmem ctx = Some r" and t: "took (lr_header r) h s k" "\<not> updating h"
    and k: "bytes_to_chunks nbytes (chunk_sz (lr_header r)) = Some k"
  shows "fresh_alloc ctx nbytes (s * chunk_sz (lr_header r)) (ctx\<lparr>lc_shmem := Some (r\<lparr>lr_header := h\<rparr>)\<rparr>)"
proof -
  have h: "hdr_ok (lr_header r)" "0 < unat (chunk_sz (lr_header r))"
    using ok r by (auto simp: ctx_ok_def region_ok_def hdr_ok_def)
  show ?thesis
  proof (rule fresh_allocI [OF _ log_used_mem(1,2) [OF ok r t(1)]])
    show "ctx_ok (ctx\<lparr>lc_shmem := Some (r\<lparr>lr_header := h\<rparr>)\<rparr>)"
      using ok region_ok_took [OF t] by (simp add: ctx_ok_def)
    show "unat (s * chunk_sz (lr_header r)) = unat s * unat (chunk_sz (lr_header r))" by (rule took_bytes(4) [OF h(1) t(1)])
    show "unat s * unat (chunk_sz (lr_header r)) + unat nbytes \<le> (unat s + unat k) * unat (chunk_sz (lr_header r))"
      using bytes_to_chunks_bounds(1) [OF h(2) k] by (simp add: distrib_right)
  qed
qed

lemma spill_offset:
  assumes ok: "ctx_ok ctx" and r: "lc_spill_hdr ctx = Some r" and t: "took (lr_header r) h s k"
  shows "unat (s * chunk_sz (lr_header r) + mem_data_sz ctx) = unat (mem_data_sz ctx) + unat s * unat (chunk_sz (lr_header r))"
proof -
  have h: "hdr_ok (lr_header r)" using ok r by (simp add: ctx_ok_def region_ok_def)
  have "unat s * unat (chunk_sz (lr_header r)) \<le> unat (data_sz (lr_header r))"
    using took_bytes(3) [OF h t] by (simp add: distrib_right)
  moreover have "unat (data_sz (lr_header r)) < 2 ^ 62" using h by (simp add: hdr_ok_def)
  moreover have "unat (mem_data_sz ctx) < 2 ^ 62"
    using ok by (cases "lc_shmem ctx") (auto simp: ctx_ok_def region_ok_def hdr_ok_def mem_data_sz_def)
  ultimately show ?thesis using took_bytes(4) [OF h t] by (simp add: unat_word_ariths)
qed

lemma alloc_spill_fresh:
  assumes ok: "ctx_ok ctx" and kp: "kept False (lc_shmem ctx) shm" and r: "lc_spill_hdr ctx = Some r"
    and t: "took (lr_header r) h s k" "\<not> updating h" and k: "bytes_to_chunks nbytes (chunk_sz (lr_header r)) = Some k"
  shows "fresh_alloc ctx nbytes (s * chunk_sz (lr_header r) + mem_data_sz ctx)
    (ctx\<lparr>lc_shmem := shm, lc_spill_hdr := Some (r\<lparr>lr_header := h\<rparr>)\<rparr>)"
proof -
  let ?c = "ctx\<lparr>lc_shmem := shm\<rparr>"
  have h: "0 < unat (chunk_sz (lr_header r))" using ok r by (auto simp: ctx_ok_def region_ok_def hdr_ok_def)
  have c: "ctx_ok ?c" "lc_spill_hdr ?c = Some r" using ok r region_ok_kept [OF kp] by (simp_all add: ctx_ok_def)
  note same = log_used_kept [OF kp, of False "lc_spill_hdr ctx"]
  have kp': "kept False (lc_spill_hdr ctx) (lc_spill_hdr ctx)"
    using ok r by (simp add: kept_def ctx_ok_def region_ok_def exI [of _ "lr_header r"])
  note u = log_used_spill [OF c t(1), unfolded same(1,2) [OF kp']]
  show ?thesis
  proof (rule fresh_allocI [OF _ u])
    show "ctx_ok (?c\<lparr>lc_spill_hdr := Some (r\<lparr>lr_header := h\<rparr>)\<rparr>)"
      using c(1) region_ok_took [OF t] by (simp add: ctx_ok_def)
    show "unat (s * chunk_sz (lr_header r) + mem_data_sz ctx) = unat (mem_data_sz ctx) + unat s * unat (chunk_sz (lr_header r))"
      by (rule spill_offset [OF ok r t(1)])
    show "unat (mem_data_sz ctx) + unat s * unat (chunk_sz (lr_header r)) + unat nbytes
      \<le> unat (mem_data_sz ctx) + (unat s + unat k) * unat (chunk_sz (lr_header r))"
      using bytes_to_chunks_bounds(1) [OF h k] by (simp add: distrib_right)
  qed
qed

lemma alloc_span_fresh:
  assumes ok: "ctx_ok ctx" and tail: "tail_ok ctx" and q: "lc_shmem ctx = Some q" and r: "lc_spill_hdr ctx = Some r"
    and g: "took (lr_header q) g s (total_slots (chunk_map (lr_header q)) - (last_used_slot (chunk_map (lr_header q)) + 1))"
      "\<not> updating g"
    and h: "took (lr_header r) h 0 n" "\<not> updating h" and nb: "unat nbytes < 2 ^ 62"
    and n: "bytes_to_chunks (nbytes - (total_slots (chunk_map (lr_header q)) -
         (last_used_slot (chunk_map (lr_header q)) + 1)) * chunk_sz (lr_header q)) (chunk_sz (lr_header r)) = Some n"
  shows "fresh_alloc ctx nbytes (s * chunk_sz (lr_header q))
    (ctx\<lparr>lc_shmem := Some (q\<lparr>lr_header := g\<rparr>), lc_spill_hdr := Some (r\<lparr>lr_header := h\<rparr>)\<rparr>)"
proof -
  let ?k = "total_slots (chunk_map (lr_header q)) - (last_used_slot (chunk_map (lr_header q)) + 1)"
  let ?c = "ctx\<lparr>lc_shmem := Some (q\<lparr>lr_header := g\<rparr>)\<rparr>" and ?cq = "unat (chunk_sz (lr_header q))"
  let ?cr = "unat (chunk_sz (lr_header r))" and ?M = "unat (mem_data_sz ctx)"
  have hq: "hdr_ok (lr_header q)" and hr: "hdr_ok (lr_header r)" "0 < ?cr"
    using ok q r by (auto simp: ctx_ok_def region_ok_def hdr_ok_def)
  have t: "tail_only (chunk_map (lr_header q))" using tail q r by (simp add: tail_ok_def)
  have M: "(unat s + unat ?k) * ?cq = ?M"
    using tail_span [OF hq t g(1)] hq q by (simp add: hdr_ok_def mem_data_sz_def)
  note rest = rest_chunks [OF hq g(1) hr(1) h(1) nb n]
  have c: "ctx_ok ?c" "lc_spill_hdr ?c = Some r" using ok r region_ok_took [OF g] by (simp_all add: ctx_ok_def)
  note u1 = log_used_mem [OF ok q g(1), unfolded M] and u2 = log_used_spill [OF c h(1), unfolded log_used_mem(3) [OF ok q g(1)]]
  have "unat s * ?cq \<le> ?M" unfolding M [symmetric] by simp
  then have un: "{unat s * ?cq..<?M} \<union> {?M + unat (0::u64) * ?cr..<?M + (unat (0::u64) + unat n) * ?cr} = {unat s * ?cq..<?M + unat n * ?cr}"
    by (simp add: ivl_disj_un)
  show ?thesis
  proof (rule fresh_allocI)
    show "ctx_ok (?c\<lparr>lc_spill_hdr := Some (r\<lparr>lr_header := h\<rparr>)\<rparr>)"
      using c(1) region_ok_took [OF h] by (simp add: ctx_ok_def)
    show "log_used (?c\<lparr>lc_spill_hdr := Some (r\<lparr>lr_header := h\<rparr>)\<rparr>) = log_used ctx \<union> {unat s * ?cq..<?M + unat n * ?cr}"
      unfolding u2(1) u1(1) Un_assoc un by (rule refl)
    show "{unat s * ?cq..<?M + unat n * ?cr} \<inter> log_used ctx = {}"
      unfolding un [symmetric] Int_Un_distrib2 using u1(2) u2(2) [unfolded u1(1) Int_Un_distrib] by simp
    show "unat (s * chunk_sz (lr_header q)) = unat s * ?cq" by (rule took_bytes(4) [OF hq g(1)])
    show "unat s * ?cq + unat nbytes \<le> ?M + unat n * ?cr"
      using rest bytes_to_chunks_bounds(1) [OF hr(2) n] M by (simp add: distrib_right)
  qed
qed



lemma log_sizes_mem:
  assumes "unat off + unat nbytes \<le> unat M"
  shows "get_log_sizes off nbytes M = (nbytes, 0, 0)"
proof -
  have "unat (off + nbytes) = unat off + unat nbytes"
    using assms unsigned_less [of M, where 'a = nat] by (simp add: unat_word_ariths)
  then show ?thesis using assms by (simp add: get_log_sizes_def word_le_nat_alt)
qed

lemma log_sizes_beyond:
  assumes "unat off + unat nbytes < 2 ^ 64" "unat M < unat off + unat nbytes"
  shows "get_log_sizes off nbytes M =
    (if off < M then (M - off, nbytes - (M - off), 0) else (0, nbytes, off - M))"
proof -
  have "unat (off + nbytes) = unat off + unat nbytes" using assms(1) by (simp add: unat_word_ariths)
  then show ?thesis using assms by (simp add: get_log_sizes_def word_le_nat_alt)
qed









section \<open>The data of the log\<close>

definition spill_data_sz :: "logio_context \<Rightarrow> u64" where
  "spill_data_sz ctx = (case lc_spill_hdr ctx of Some region \<Rightarrow> data_sz (lr_header region) | None \<Rightarrow> 0)"

definition log_size :: "logio_context \<Rightarrow> nat" where
  "log_size ctx = unat (mem_data_sz ctx) + unat (spill_data_sz ctx)"

definition region_byte :: "log_region option \<Rightarrow> nat \<Rightarrow> u8" where
  "region_byte region i = (case region of Some r \<Rightarrow> lr_bytes r (unat (data_offset (lr_header r)) + i) | None \<Rightarrow> 0)"

text \<open>The byte at a log offset.\<close>

definition log_byte :: "logio_context \<Rightarrow> nat \<Rightarrow> u8" where
  "log_byte ctx i = (if i < unat (mem_data_sz ctx) then region_byte (lc_shmem ctx) i
     else region_byte (lc_spill_hdr ctx) (i - unat (mem_data_sz ctx)))"

text \<open>The data are within the first \<open>z\<close> bytes of the region.\<close>

definition region_fits :: "nat \<Rightarrow> log_region \<Rightarrow> bool" where
  "region_fits z r \<longleftrightarrow> unat (data_offset (lr_header r)) + unat (data_sz (lr_header r)) \<le> z \<and> z < 2 ^ 62"

definition data_ok :: "logio_context \<Rightarrow> bool" where
  "data_ok ctx \<longleftrightarrow> pred_option (\<lambda>r. region_fits (lr_mapped r) r) (lc_shmem ctx) \<and>
     pred_option (\<lambda>r. region_fits (lr_size r) r) (lc_spill_hdr ctx)"

lemma region_data_unat:
  assumes "region_fits z r" "unat off \<le> unat (data_sz (lr_header r))"
  shows "region_data r off = unat (data_offset (lr_header r)) + unat off"
  using assms by (simp add: region_data_def region_fits_def unat_word_ariths)

lemma region_range:
  assumes "region_fits z r" "unat off + n \<le> unat (data_sz (lr_header r))"
  shows "region_data r off + n \<le> z"
  using assms region_data_unat [OF assms(1), of off] by (simp add: region_fits_def)

text \<open>The three ways in which a range of the log can lie.\<close>

lemma log_range_cases:
  assumes d: "data_ok ctx" and r: "unat off + unat n \<le> log_size ctx" "n \<noteq> 0"
  obtains (mem) m where "lc_shmem ctx = Some m" "region_fits (lr_mapped m) m" "get_log_sizes off n (mem_data_sz ctx) = (n, 0, 0)"
      "unat off + unat n \<le> unat (mem_data_sz ctx)" "mem_data_sz ctx = data_sz (lr_header m)"
  | (span) m s where "lc_shmem ctx = Some m" "region_fits (lr_mapped m) m" "lc_spill_hdr ctx = Some s" "region_fits (lr_size s) s"
      "get_log_sizes off n (mem_data_sz ctx) = (mem_data_sz ctx - off, n - (mem_data_sz ctx - off), 0)"
      "unat (mem_data_sz ctx - off) = unat (mem_data_sz ctx) - unat off" "unat off < unat (mem_data_sz ctx)"
      "unat (n - (mem_data_sz ctx - off)) = unat n - (unat (mem_data_sz ctx) - unat off)"
      "unat (mem_data_sz ctx) < unat off + unat n" "mem_data_sz ctx = data_sz (lr_header m)"
      "unat n - (unat (mem_data_sz ctx) - unat off) \<le> unat (data_sz (lr_header s))"
  | (spill) s where "lc_spill_hdr ctx = Some s" "region_fits (lr_size s) s"
      "get_log_sizes off n (mem_data_sz ctx) = (0, n, off - mem_data_sz ctx)"
      "unat (off - mem_data_sz ctx) = unat off - unat (mem_data_sz ctx)" "unat (mem_data_sz ctx) \<le> unat off"
      "unat (off - mem_data_sz ctx) + unat n \<le> unat (data_sz (lr_header s))"
proof (cases "unat off + unat n \<le> unat (mem_data_sz ctx)")
  case True
  then obtain m where m: "lc_shmem ctx = Some m"
    using r(2) by (cases "lc_shmem ctx") (auto simp: mem_data_sz_def unat_eq_0)
  then show thesis using mem [OF m _ log_sizes_mem [OF True] True] d by (simp add: data_ok_def mem_data_sz_def)
next
  case False
  then obtain s where s: "lc_spill_hdr ctx = Some s" "region_fits (lr_size s) s"
    using r(1) d by (cases "lc_spill_hdr ctx") (auto simp: log_size_def spill_data_sz_def data_ok_def)
  have M: "unat (mem_data_sz ctx) < 2 ^ 62" "unat (data_sz (lr_header s)) < 2 ^ 62"
    using d s(2) by (cases "lc_shmem ctx"; auto simp: data_ok_def region_fits_def mem_data_sz_def)+
  have le: "unat off + unat n \<le> unat (mem_data_sz ctx) + unat (data_sz (lr_header s))"
    using r(1) s by (simp add: log_size_def spill_data_sz_def)
  note sz = log_sizes_beyond [of off n "mem_data_sz ctx"]
  show thesis
  proof (cases "off < mem_data_sz ctx")
    case True
    then obtain m where m: "lc_shmem ctx = Some m" by (cases "lc_shmem ctx") (auto simp: mem_data_sz_def)
    have sub: "unat (mem_data_sz ctx - off) = unat (mem_data_sz ctx) - unat off"
      using True by (simp add: unat_sub word_le_nat_alt word_less_nat_alt)
    then have "unat (n - (mem_data_sz ctx - off)) = unat n - (unat (mem_data_sz ctx) - unat off)"
      using False True by (subst unat_sub) (auto simp: word_le_nat_alt word_less_nat_alt)
    then show thesis using span [OF m _ s _ sub] d m sz le M False True
      by (simp add: data_ok_def mem_data_sz_def word_less_nat_alt)
  next
    case off: False
    then have "unat (off - mem_data_sz ctx) = unat off - unat (mem_data_sz ctx)"
      by (simp add: unat_sub word_le_nat_alt word_less_nat_alt)
    then show thesis using spill [OF s] sz le M False off by (simp add: word_less_nat_alt)
  qed
qed

lemma map_upt_shift: "(\<And>i. i < n \<Longrightarrow> f (a + i) = g (b + i)) \<Longrightarrow> map f [a..<a + n] = map g [b..<b + n]"
  by (rule nth_equalityI) simp_all

lemma logio_read_spec:
  assumes d: "data_ok ctx" and r: "unat off + unat n \<le> log_size ctx" and k: "unat n \<le> k"
  shows "unifyfs_logio_read (Inr k) ctx off n = Some (UNIFYFS_SUCCESS, map (log_byte ctx) [unat off..<unat off + unat n])"
proof (cases "n = 0")
  case True
  then show ?thesis by (simp add: unifyfs_logio_read_def)
next
  case False
  then have pos: "0 < n" "0 < unat n" by (simp_all add: word_gt_0 unat_gt_0)
  show ?thesis
  proof (rule log_range_cases [OF d r False], goal_cases)
    case (1 m)
    have "map (lr_bytes m) [region_data m off..<region_data m off + unat n] = map (log_byte ctx) [unat off..<unat off + unat n]"
      by (rule map_upt_shift) (use 1 in \<open>simp add: log_byte_def region_byte_def region_data_unat add.assoc\<close>)
    moreover have "region_data m off + unat n \<le> lr_mapped m"
      using 1 by (intro region_range) simp_all
    ultimately show ?case using False pos 1 by (simp add: unifyfs_logio_read_def region_read_def)
  next
    case (2 m s)
    let ?M = "unat (mem_data_sz ctx)" and ?a = "unat (mem_data_sz ctx) - unat off"
    let ?b = "unat n - ?a"
    have "map (lr_bytes m) [region_data m off..<region_data m off + ?a] = map (log_byte ctx) [unat off..<unat off + ?a]"
      by (rule map_upt_shift) (use 2 in \<open>auto simp: log_byte_def region_byte_def region_data_unat add.assoc\<close>)
    moreover have "map (lr_bytes s) [region_data s 0..<region_data s 0 + ?b] = map (log_byte ctx) [?M..<?M + ?b]"
      by (rule map_upt_shift) (use 2 in \<open>simp add: log_byte_def region_byte_def region_data_unat\<close>)
    moreover have "[unat off..<unat off + unat n] = [unat off..<unat off + ?a] @ [?M..<?M + ?b]"
    proof -
      have e: "unat off + ?a = ?M" "unat off + unat n = ?M + ?b" "unat off \<le> ?M" using 2(7,9) by simp_all
      show ?thesis unfolding e(1,2) by (rule upt_add_eq_append [OF e(3)])
    qed
    moreover have "region_data m off + ?a \<le> lr_mapped m" "region_data s 0 + ?b \<le> lr_size s"
      using 2 by (intro region_range; simp)+
    moreover have "0 < mem_data_sz ctx - off" "0 < n - (mem_data_sz ctx - off)"
      using 2(6-9) by (simp_all add: word_less_nat_alt)
    ultimately show ?case
      using False k 2 by (simp add: unifyfs_logio_read_def region_read_def file_pread_def min_def)
  next
    case (3 s)
    let ?o = "off - mem_data_sz ctx"
    have "map (lr_bytes s) [region_data s ?o..<region_data s ?o + unat n] = map (log_byte ctx) [unat off..<unat off + unat n]"
      by (rule map_upt_shift) (use 3 in \<open>simp add: log_byte_def region_byte_def region_data_unat add.assoc\<close>)
    moreover have "region_data s ?o + unat n \<le> lr_size s"
      using 3(2,6) by (rule region_range)
    ultimately show ?case using False pos k 3 by (simp add: unifyfs_logio_read_def file_pread_def min_def)
  qed
qed

definition same_headers :: "logio_context \<Rightarrow> logio_context \<Rightarrow> bool" where
  "same_headers c c' \<longleftrightarrow> map_option lr_header (lc_shmem c') = map_option lr_header (lc_shmem c) \<and>
     map_option lr_header (lc_spill_hdr c') = map_option lr_header (lc_spill_hdr c)"

lemma same_headers_eqs:
  assumes "same_headers c c'"
  shows "mem_data_sz c' = mem_data_sz c" "spill_data_sz c' = spill_data_sz c" "log_size c' = log_size c"
    "log_used c' = log_used c" "ctx_ok c' = ctx_ok c"
proof -
  show m: "mem_data_sz c' = mem_data_sz c" "spill_data_sz c' = spill_data_sz c"
    using assms by (auto simp: same_headers_def mem_data_sz_def spill_data_sz_def split: option.splits)
  then show "log_size c' = log_size c" by (simp add: log_size_def)
  have cong: "region_bytes a = region_bytes b" "pred_option region_ok a = pred_option region_ok b"
    if "map_option lr_header a = map_option lr_header b" for a b
    using that by (cases a; cases b; simp add: region_bytes_def region_ok_def)+
  have e: "map_option lr_header (lc_shmem c') = map_option lr_header (lc_shmem c)"
    "map_option lr_header (lc_spill_hdr c') = map_option lr_header (lc_spill_hdr c)"
    using assms by (simp_all add: same_headers_def)
  show "log_used c' = log_used c" unfolding log_used_def m(1) cong(1) [OF e(1)] cong(1) [OF e(2)] ..
  show "ctx_ok c' = ctx_ok c" unfolding ctx_ok_def cong(2) [OF e(1)] cong(2) [OF e(2)] ..
qed

text \<open>\<open>w\<close> bytes of \<open>buf\<close> have been stored at the offset \<open>off\<close>.\<close>

definition stored :: "logio_context \<Rightarrow> nat \<Rightarrow> nat \<Rightarrow> u8 list \<Rightarrow> logio_context \<Rightarrow> bool" where
  "stored ctx off w buf ctx' \<longleftrightarrow> same_headers ctx ctx' \<and> data_ok ctx' \<and>
     (\<forall>i < log_size ctx. log_byte ctx' i = (if off \<le> i \<and> i < off + w then buf ! (i - off) else log_byte ctx i))"

lemma region_put:
  assumes "region_fits z r" "unat o' + length bs \<le> unat (data_sz (lr_header r))"
  shows "region_data r o' + length bs \<le> z"
    "region_byte (Some (r\<lparr>lr_bytes := put_bytes (lr_bytes r) (region_data r o') bs\<rparr>)) i =
      (if unat o' \<le> i \<and> i < unat o' + length bs then bs ! (i - unat o') else region_byte (Some r) i)"
proof -
  have e: "region_data r o' = unat (data_offset (lr_header r)) + unat o'"
    using assms by (intro region_data_unat) simp_all
  show "region_data r o' + length bs \<le> z" using assms by (rule region_range)
  show "region_byte (Some (r\<lparr>lr_bytes := put_bytes (lr_bytes r) (region_data r o') bs\<rparr>)) i =
      (if unat o' \<le> i \<and> i < unat o' + length bs then bs ! (i - unat o') else region_byte (Some r) i)"
    by (simp add: region_byte_def put_bytes_def e)
qed

lemma pwrite_fits:
  assumes "region_fits (lr_size r) r" "unat o' + length bs \<le> unat (data_sz (lr_header r))"
  shows "file_pwrite (Inr k) r (region_data r o') bs =
    Inr (min k (length bs), r\<lparr>lr_bytes := put_bytes (lr_bytes r) (region_data r o') (take k bs)\<rparr>)"
proof -
  have "region_data r o' + length (take k bs) \<le> lr_size r" using region_put(1) [OF assms] by simp
  then have "(if take k bs = [] then lr_size r else max (lr_size r) (region_data r o' + length (take k bs))) = lr_size r"
    by (simp add: max_absorb1)
  then show ?thesis by (simp only: file_pwrite_def Let_def) (simp add: min.commute)
qed

lemma logio_write_spec:
  assumes d: "data_ok ctx" and r: "unat off + unat n \<le> log_size ctx" and len: "unat n \<le> length buf"
  shows "\<exists>w ctx'. unifyfs_logio_write (Inr k) ctx off n buf = Some (UNIFYFS_SUCCESS, w, ctx') \<and> w \<le> unat n \<and>
    (unat n \<le> k \<longrightarrow> w = unat n) \<and> stored ctx (unat off) w buf ctx'"
proof (cases "n = 0")
  case True
  then show ?thesis using d by (auto simp: unifyfs_logio_write_def stored_def same_headers_def)
next
  case False
  then have pos: "0 < n" "0 < unat n" by (simp_all add: word_gt_0 unat_gt_0)
  show ?thesis
  proof (rule log_range_cases [OF d r False], goal_cases)
    case (1 m)
    let ?m = "m\<lparr>lr_bytes := put_bytes (lr_bytes m) (region_data m off) (take (unat n) buf)\<rparr>"
    have l: "length (take (unat n) buf) = unat n" using len by simp
    note p = region_put [OF 1(2), of off "take (unat n) buf", unfolded l]
    have w: "unifyfs_logio_write (Inr k) ctx off n buf = Some (UNIFYFS_SUCCESS, unat n, ctx\<lparr>lc_shmem := Some ?m\<rparr>)"
      using False pos len 1 p(1) by (simp add: unifyfs_logio_write_def region_write_def min_absorb2)
    have "stored ctx (unat off) (unat n) buf (ctx\<lparr>lc_shmem := Some ?m\<rparr>)"
      unfolding stored_def
    proof (intro conjI allI impI)
      show "same_headers ctx (ctx\<lparr>lc_shmem := Some ?m\<rparr>)" using 1 by (simp add: same_headers_def)
      then show "log_byte (ctx\<lparr>lc_shmem := Some ?m\<rparr>) i =
          (if unat off \<le> i \<and> i < unat off + unat n then buf ! (i - unat off) else log_byte ctx i)" for i
        using 1 p(2) [of i] by (auto simp: log_byte_def same_headers_eqs)
      show "data_ok (ctx\<lparr>lc_shmem := Some ?m\<rparr>)" using d 1 by (simp add: data_ok_def region_fits_def)
    qed
    with w show ?case by auto
  next
    case (2 m s)
    let ?a = "unat (mem_data_sz ctx) - unat off"
    let ?bs = "take (unat n - ?a) (drop ?a buf)"
    let ?m = "m\<lparr>lr_bytes := put_bytes (lr_bytes m) (region_data m off) (take ?a buf)\<rparr>"
      and ?s = "s\<lparr>lr_bytes := put_bytes (lr_bytes s) (region_data s 0) (take k ?bs)\<rparr>"
    let ?c = "ctx\<lparr>lc_shmem := Some ?m, lc_spill_hdr := Some ?s\<rparr>"
    have l: "length (take ?a buf) = ?a" "length ?bs = unat n - ?a" using len 2(7,9) by auto
    have lk: "length (take k ?bs) = min k (unat n - ?a)" by (simp only: length_take [of k] l(2) min.commute)
    have pm: "unat off + length (take ?a buf) \<le> unat (data_sz (lr_header m))"
      and ps: "unat (0::u64) + length ?bs \<le> unat (data_sz (lr_header s))"
      using l 2 by simp_all
    moreover have "length (take k ?bs) \<le> length ?bs" by simp
    ultimately have ps2: "unat (0::u64) + length (take k ?bs) \<le> unat (data_sz (lr_header s))" by linarith
    have nz: "0 < mem_data_sz ctx - off" "0 < n - (mem_data_sz ctx - off)" using 2(6-9) by (simp_all add: word_less_nat_alt)
    have w: "unifyfs_logio_write (Inr k) ctx off n buf = Some (UNIFYFS_SUCCESS, ?a + min k (unat n - ?a), ?c)"
      using False len 2 nz region_put(1) [OF 2(2) pm] pwrite_fits [OF 2(4) ps, of k] l
      by (simp add: unifyfs_logio_write_def region_write_def)
    have "stored ctx (unat off) (?a + min k (unat n - ?a)) buf ?c"
      unfolding stored_def
    proof (intro conjI allI impI)
      show sh: "same_headers ctx ?c" using 2 by (simp add: same_headers_def)
      show "data_ok ?c" using d 2 by (simp add: data_ok_def region_fits_def)
      show "log_byte ?c i = (if unat off \<le> i \<and> i < unat off + (?a + min k (unat n - ?a)) then buf ! (i - unat off)
          else log_byte ctx i)" for i
      proof (cases "i < unat (mem_data_sz ctx)")
        case True
        have "log_byte ?c i = (if unat off \<le> i \<and> i < unat off + ?a then take ?a buf ! (i - unat off) else region_byte (Some m) i)"
          unfolding log_byte_def same_headers_eqs(1) [OF sh] using True region_put(2) [OF 2(2) pm, of i] l(1) by simp
        then show ?thesis using True 2(1,7) by (simp add: log_byte_def)
      next
        case False
        let ?j = "i - unat (mem_data_sz ctx)"
        have "log_byte ?c i = (if ?j < min k (unat n - ?a) then take k ?bs ! ?j else region_byte (Some s) ?j)"
          unfolding log_byte_def same_headers_eqs(1) [OF sh] using False region_put(2) [OF 2(4) ps2, of ?j, unfolded lk] by simp
        moreover have "?a + ?j = i - unat off" "?j < min k (unat n - ?a) \<longleftrightarrow> i < unat off + (?a + min k (unat n - ?a))"
          "unat off \<le> i" "?a \<le> length buf" using False 2(7,9) len by auto
        ultimately show ?thesis using False 2(3) by (simp add: log_byte_def)
      qed
    qed
    moreover have "?a + min k (unat n - ?a) \<le> unat n" "unat n \<le> k \<longrightarrow> ?a + min k (unat n - ?a) = unat n"
      using 2(7,9) by auto
    ultimately show ?case using w by blast
  next
    case (3 s)
    let ?o = "off - mem_data_sz ctx"
    let ?s = "s\<lparr>lr_bytes := put_bytes (lr_bytes s) (region_data s ?o) (take k (take (unat n) buf))\<rparr>"
    let ?c = "ctx\<lparr>lc_spill_hdr := Some ?s\<rparr>"
    have l: "length (take (unat n) buf) = unat n" using len by simp
    have lk: "length (take k (take (unat n) buf)) = min k (unat n)" by (simp only: length_take [of k] l min.commute)
    have ps: "unat ?o + length (take (unat n) buf) \<le> unat (data_sz (lr_header s))"
      "unat ?o + length (take k (take (unat n) buf)) \<le> unat (data_sz (lr_header s))" using l 3(6) by auto
    have w: "unifyfs_logio_write (Inr k) ctx off n buf = Some (UNIFYFS_SUCCESS, min k (unat n), ?c)"
      using False pos len 3 pwrite_fits [OF 3(2) ps(1), of k] by (simp add: unifyfs_logio_write_def min_absorb2)
    have "stored ctx (unat off) (min k (unat n)) buf ?c"
      unfolding stored_def
    proof (intro conjI allI impI)
      show sh: "same_headers ctx ?c" using 3 by (simp add: same_headers_def)
      show "data_ok ?c" using d 3 by (simp add: data_ok_def region_fits_def)
      show "log_byte ?c i = (if unat off \<le> i \<and> i < unat off + min k (unat n) then buf ! (i - unat off) else log_byte ctx i)" for i
      proof (cases "i < unat (mem_data_sz ctx)")
        case True
        then show ?thesis unfolding log_byte_def same_headers_eqs(1) [OF sh] using 3(5) by simp
      next
        case False
        let ?j = "i - unat (mem_data_sz ctx)"
        have "log_byte ?c i = (if unat ?o \<le> ?j \<and> ?j < unat ?o + min k (unat n) then take k (take (unat n) buf) ! (?j - unat ?o)
            else region_byte (Some s) ?j)"
          unfolding log_byte_def same_headers_eqs(1) [OF sh] using False region_put(2) [OF 3(2) ps(2), of ?j, unfolded lk] by simp
        moreover have "unat ?o \<le> ?j \<longleftrightarrow> unat off \<le> i" "?j < unat ?o + min k (unat n) \<longleftrightarrow> i < unat off + min k (unat n)"
          "?j - unat ?o = i - unat off" using False 3(4,5) by auto
        moreover have "take k (take (unat n) buf) ! (i - unat off) = buf ! (i - unat off)"
          if "unat off \<le> i" "i < unat off + min k (unat n)" using that by (subst nth_take; (subst nth_take)?) auto
        moreover have "log_byte ctx i = region_byte (Some s) ?j" using False 3(1) by (simp add: log_byte_def)
        ultimately show ?thesis by presburger
      qed
    qed
    with w show ?case by auto
  qed
qed

text \<open>A log with the given numbers of chunks in shared memory and spill file, chunks of one byte.\<close>

definition example_region :: "u64 \<Rightarrow> log_region" where
  "example_region n = \<lparr>lr_header = \<lparr>hdr_sz = 128, data_sz = n, reserved_sz = 0, chunk_sz = 1, data_offset = 128,
       updating = False, chunk_map = slotmap_clear \<lparr>total_slots = n, used_slots = 0, first_used_slot = 0,
         last_used_slot = 0, use_map = []\<rparr>\<rparr>,
     lr_mapped = 128 + unat n, lr_size = 128 + unat n, lr_bytes = (\<lambda>_. 0)\<rparr>"

definition example_ctx :: "u64 \<Rightarrow> u64 \<Rightarrow> logio_context" where
  "example_ctx m n = \<lparr>lc_shmem = Some (example_region m), lc_spill_hdr = Some (example_region n),
     lc_spill_file = None, lc_spill_sz = 128 + n, lc_spill_fd = 3\<rparr>"

lemma example_region_ok: "unat n < 2 ^ 61 \<Longrightarrow> unat n mod 8 = 0 \<Longrightarrow> region_ok (example_region n) \<and>
     region_fits (lr_mapped (example_region n)) (example_region n) \<and> region_fits (lr_size (example_region n)) (example_region n)"
  using slot_clear_inv(1) [of "\<lparr>total_slots = n, used_slots = 0, first_used_slot = 0, last_used_slot = 0, use_map = []\<rparr>"]
  by (simp add: region_ok_def hdr_ok_def example_region_def region_fits_def) (simp add: slotmap_clear_def)

lemma example_ctx_ok: "ctx_ok (example_ctx 8 16)" "data_ok (example_ctx 8 16)" "tail_ok (example_ctx 8 16)"
proof -
  show "ctx_ok (example_ctx 8 16)" "data_ok (example_ctx 8 16)"
    using example_region_ok [of 8] example_region_ok [of 16] by (simp_all add: example_ctx_def ctx_ok_def data_ok_def)
  show "tail_ok (example_ctx 8 16)"
    by (simp add: tail_ok_def example_ctx_def example_region_def tail_only_def slotmap_clear_def free_run_def slot_map_bytes_def
        SLOT_BYTE_def SLOT_BIT_def)
qed

section \<open>Writing to new space\<close>

lemma logio_alloc_fresh:
  assumes ok: "ctx_ok ctx" and tail: "tail_ok ctx" and n: "0 < unat nbytes" "unat nbytes < 2 ^ 62"
  shows "(\<exists>pos ctx'. unifyfs_logio_alloc ctx nbytes = Some (UNIFYFS_SUCCESS, Some pos, ctx') \<and> fresh_alloc ctx nbytes pos ctx') \<or>
    (\<exists>ctx'. unifyfs_logio_alloc ctx nbytes = Some (ENOSPC, None, ctx') \<and> log_used ctx' = log_used ctx)"
proof -
  have n0: "nbytes \<noteq> 0" using n(1) by (simp add: unat_gt_0)
  show ?thesis
  proof (rule logio_alloc_cases [OF ok n0], goal_cases)
    case (1 r h s k)
    then show ?case using alloc_mem_fresh [OF ok] by blast
  next
    case (2 shm r h s k)
    then show ?case using alloc_spill_fresh [OF ok] by blast
  next
    case (3 q g s r h k)
    then show ?case using alloc_span_fresh [OF ok tail 3(1,2,4-7) n(2) 3(8)] by blast
  next
    case (4 shm sp)
    then show ?case using log_used_kept(3) by simp
  qed
qed

text \<open>An allocation changes headers only.\<close>

definition same_region :: "log_region option \<Rightarrow> log_region option \<Rightarrow> bool" where
  "same_region = rel_option (\<lambda>r r'. \<exists>h. r' = r\<lparr>lr_header := h\<rparr> \<and> same_layout (lr_header r) h)"

lemma same_region_simps [simp]:
  "same_region None None" "same_layout (lr_header r) h \<Longrightarrow> same_region (Some r) (Some (r\<lparr>lr_header := h\<rparr>))"
  "kept l a b \<Longrightarrow> same_region a b"
  by (auto simp: same_region_def kept_def elim!: option.rel_mono_strong)

lemma same_region_refl: "pred_option region_ok a \<Longrightarrow> same_region a a"
  using same_region_simps(2) [of r "lr_header r" for r] by (cases a) (auto simp: region_ok_def)

lemma same_region_data:
  assumes "same_region (lc_shmem c) (lc_shmem c')" "same_region (lc_spill_hdr c) (lc_spill_hdr c')"
  shows "log_byte c' = log_byte c" "log_size c' = log_size c" "data_ok c' = data_ok c"
    "(lc_shmem c' = None) = (lc_shmem c = None)" "(lc_spill_hdr c' = None) = (lc_spill_hdr c = None)"
  using assms
  by (cases "lc_shmem c"; cases "lc_shmem c'"; cases "lc_spill_hdr c"; cases "lc_spill_hdr c'";
      auto simp: same_region_def same_layout_def log_byte_def log_size_def mem_data_sz_def spill_data_sz_def
        region_byte_def data_ok_def region_fits_def fun_eq_iff)+

lemma alloc_same_region:
  assumes "ctx_ok ctx" "nbytes \<noteq> 0" "unifyfs_logio_alloc ctx nbytes = Some (rc, pos, ctx')"
  shows "same_region (lc_shmem ctx) (lc_shmem ctx') \<and> same_region (lc_spill_hdr ctx) (lc_spill_hdr ctx')"
proof -
  have "same_region (lc_shmem ctx) (lc_shmem ctx)" "same_region (lc_spill_hdr ctx) (lc_spill_hdr ctx)"
    using assms(1) same_region_refl by (auto simp: ctx_ok_def)
  then show ?thesis using assms(3) by (cases rule: logio_alloc_cases [OF assms(1,2)]) (auto simp: took_def)
qed

lemma log_used_bound:
  assumes "ctx_ok ctx"
  shows "log_used ctx \<subseteq> {..<log_size ctx}"
  using assms hdr_okD(3)
  by (cases "lc_shmem ctx"; cases "lc_spill_hdr ctx")
    (fastforce simp: ctx_ok_def region_ok_def region_bytes_def log_used_def log_size_def mem_data_sz_def spill_data_sz_def)+

text \<open>
  A context in order, with its data in the regions. With one region only, an allocation never has to
  span two.
\<close>

definition log_ok :: "logio_context \<Rightarrow> bool" where
  "log_ok ctx \<longleftrightarrow> ctx_ok ctx \<and> data_ok ctx \<and> (lc_shmem ctx = None \<or> lc_spill_hdr ctx = None)"

lemma write_fresh:
  assumes ok: "log_ok ctx" and n: "n \<noteq> 0" "unat n < 2 ^ 62" "unat n \<le> length buf"
    and alloc: "unifyfs_logio_alloc ctx n = Some (UNIFYFS_SUCCESS, Some off, l1)"
  shows "\<exists>w l2. unifyfs_logio_write (Inr k) l1 off n buf = Some (UNIFYFS_SUCCESS, w, l2) \<and> w \<le> unat n \<and>
    (unat n \<le> k \<longrightarrow> w = unat n) \<and> log_ok l2 \<and> log_used ctx \<subseteq> log_used l2 \<and> log_size l2 = log_size ctx \<and>
    {unat off..<unat off + unat n} \<subseteq> log_used l2 \<and> (\<forall>i \<in> log_used ctx. log_byte l2 i = log_byte ctx i) \<and>
    (\<forall>i < w. log_byte l2 (unat off + i) = buf ! i)"
proof -
  have ctx: "ctx_ok ctx" "data_ok ctx" "tail_ok ctx" using ok by (auto simp: log_ok_def tail_ok_def)
  have "0 < unat n" using n(1) by (simp add: unat_gt_0)
  from logio_alloc_fresh [OF ctx(1,3) this n(2)] alloc have fresh: "fresh_alloc ctx n off l1" by auto
  note same = same_region_data [OF conjunct1 conjunct2, OF alloc_same_region [OF ctx(1) n(1) alloc] alloc_same_region [OF ctx(1) n(1) alloc]]
  obtain new where new: "{unat off..<unat off + unat n} \<subseteq> new" "new \<inter> log_used ctx = {}" "log_used l1 = log_used ctx \<union> new"
    and l1: "ctx_ok l1" using fresh by (auto simp: fresh_alloc_def)
  have "{unat off..<unat off + unat n} \<subseteq> {..<log_size l1}" using new log_used_bound [OF l1] by auto
  then have fits: "unat off + unat n \<le> log_size l1" using \<open>0 < unat n\<close> ivl_subset [of "unat off" "unat off + unat n" 0 "log_size l1"]
    by (auto simp: lessThan_atLeast0)
  have d1: "data_ok l1" using same ctx by simp
  obtain w l2 where w: "unifyfs_logio_write (Inr k) l1 off n buf = Some (UNIFYFS_SUCCESS, w, l2)" "w \<le> unat n"
    "unat n \<le> k \<longrightarrow> w = unat n" "stored l1 (unat off) w buf l2"
    using logio_write_spec [OF d1 fits n(3), of k] by blast
  have heads: "same_headers l1 l2" "data_ok l2" using w(4) by (simp_all add: stored_def)
  note eqs = same_headers_eqs [OF heads(1)]
  have one: "lc_shmem l2 = None \<or> lc_spill_hdr l2 = None"
    using heads(1) same(4,5) ok by (auto simp: same_headers_def log_ok_def)
  have "log_byte l2 i = log_byte ctx i" if "i \<in> log_used ctx" for i
  proof -
    have "i \<notin> {unat off..<unat off + unat n}" "i < log_size l1" using that new log_used_bound [OF l1] by auto
    then show ?thesis using w(2,4) same(1) by (auto simp: stored_def)
  qed
  moreover have "log_byte l2 (unat off + i) = buf ! i" if "i < w" for i
    using that w(2,4) fits by (simp add: stored_def)
  moreover have "log_ok l2" using one heads(2) eqs(5) l1 by (simp add: log_ok_def)
  ultimately show ?thesis using w(1-3) new eqs(3,4) same(2) by auto
qed

section \<open>Properties\<close>





text \<open>
  (C19) What is written to the log is what is read back: after a write of \<open>n\<close> bytes at an offset, a read
  of any range returns the new bytes inside the written range and the old ones outside of it,
  whether the range is in the shared memory, in the spill file or in both.
\<close>

theorem unifyfs_logio_write_read:
  assumes "data_ok ctx" and "unat off + unat n \<le> log_size ctx" and "unat n \<le> length buf" and "unat n \<le> k"
    and "unat off' + unat n' \<le> log_size ctx" and "unat n' \<le> k'"
  shows "\<exists>ctx'. unifyfs_logio_write (Inr k) ctx off n buf = Some (UNIFYFS_SUCCESS, unat n, ctx') \<and>
     data_ok ctx' \<and> log_used ctx' = log_used ctx \<and>
     unifyfs_logio_read (Inr k') ctx' off' n' = Some (UNIFYFS_SUCCESS,
       map (\<lambda>i. if unat off \<le> i \<and> i < unat off + unat n then buf ! (i - unat off) else log_byte ctx i)
         [unat off'..<unat off' + unat n'])"
proof -
  obtain ctx' where w: "unifyfs_logio_write (Inr k) ctx off n buf = Some (UNIFYFS_SUCCESS, unat n, ctx')"
    "stored ctx (unat off) (unat n) buf ctx'"
    using logio_write_spec [OF assms(1-3), of k] assms(4) by auto
  then have s: "data_ok ctx'" "log_size ctx' = log_size ctx" "log_used ctx' = log_used ctx"
    using same_headers_eqs by (auto simp: stored_def)
  have "map (log_byte ctx') [unat off'..<unat off' + unat n'] =
      map (\<lambda>i. if unat off \<le> i \<and> i < unat off + unat n then buf ! (i - unat off) else log_byte ctx i)
        [unat off'..<unat off' + unat n']"
    using w(2) assms(5) by (intro map_cong) (auto simp: stored_def)
  then show ?thesis using w(1) s logio_read_spec [OF s(1), of off' n' k'] assms(5,6) by simp
qed

theorem unifyfs_logio_write_read_witness:
  "\<exists>ctx'. unifyfs_logio_write (Inr 4) (example_ctx 8 16) 6 4 [1, 2, 3, 4] = Some (UNIFYFS_SUCCESS, 4, ctx') \<and>
     unifyfs_logio_read (Inr 3) ctx' 7 3 = Some (UNIFYFS_SUCCESS, [2, 3, 4])"
proof -
  have l: "log_size (example_ctx 8 16) = 24"
    by (simp add: log_size_def mem_data_sz_def spill_data_sz_def example_ctx_def example_region_def)
  have "[7..<10] = [7, 8, 9::nat]" by code_simp
  with unifyfs_logio_write_read [OF example_ctx_ok(2), of 6 4 "[1, 2, 3, 4]" 4 7 3 3] l show ?thesis by auto
qed


text \<open>
  A failed allocation can leave the header of the spill file locked: here a request is first split, its
  spill part does not start at slot 0, and all of it does not fit into the spill file. Every later
  request that needs the spill file waits forever.
\<close>

theorem unifyfs_logio_alloc_deadlock:
  "do {
     (rc1, pos1, c) \<leftarrow> unifyfs_logio_alloc (example_ctx 8 8) 9;
     (rc2, c) \<leftarrow> unifyfs_logio_free c 0 8;
     (rc3, pos3, c) \<leftarrow> unifyfs_logio_alloc c 12;
     Some ([rc1, rc2, rc3], Option.is_none (unifyfs_logio_alloc c 9))
   } = Some ([UNIFYFS_SUCCESS, UNIFYFS_SUCCESS, ENOSPC], True)"
  by code_simp

text \<open>
  The client maps one header page for every 32768 chunks of the spill file, without room for the
  structures in front of the slot map. With 32759 chunks the slot map ends behind the mapped page.
\<close>

lemma init_log_header_fault:
  "init_log_header 4096 (region\<lparr>lr_mapped := unat (spill_header_pages 4096 0x7FF800000 0x100000 * 4096)\<rparr>) 0x7FF800000 0x100000 = None"
proof -
  note sizes = sizeof_log_header_def sizeof_slot_map_def slot_map_bytes_def SLOT_BYTE_def SLOT_BIT_def
  have n: "(0x7FF800000 - 4096) div 0x100000 = (32759::u64)" "(0x7FF800000 - 8192) div 0x100000 = (32759::u64)"
    "spill_header_pages 4096 0x7FF800000 0x100000 = 1" by code_simp+
  have "slotmap_init 32759 (4096 - sizeof_log_header) = None" by (simp add: slotmap_init_def sizes)
  moreover obtain m where "slotmap_init 32759 (8192 - sizeof_log_header) = Some m" by (simp add: slotmap_init_def sizes)
  moreover have "slotmap_end 32759 > 4096" by (simp add: slotmap_end_def sizes)
  ultimately show ?thesis
    using n by (simp add: init_log_header_def init_header_pages.simps [of _ _ _ 1] init_header_pages.simps [of _ _ _ 2])
qed

end
