(* ===== verification/Arraylist.thy ===== *)
theory Arraylist
  imports Prelude
begin

text \<open>
  The growing array of \<^verbatim>\<open>common/src/arraylist.c\<close> and the list of pending remote metadata requests that
  the server keeps in one (\<^verbatim>\<open>server/src/unifyfs_server.c\<close>). Elements are pointers to memory that the
  list frees; a null element is \<^term>\<open>None\<close>. An access outside of the array is an outer
  \<^term>\<open>None\<close>, and so is an overflow of the capacity. The element that an operation frees is part of
  its result.
\<close>

section \<open>Operations\<close>

record 'a arraylist =
  al_cap :: int
  al_size :: int
  al_elems :: "'a option list"

definition ARRAYLIST_CAPACITY :: int where
  "ARRAYLIST_CAPACITY = 1024"

text \<open>\<open>ok\<close> and \<open>ok'\<close> are the outcomes of the allocations; a negative capacity is a size that cannot be allocated.\<close>

definition arraylist_create :: "bool \<Rightarrow> bool \<Rightarrow> int \<Rightarrow> 'a arraylist option" where
  "arraylist_create ok ok' capacity =
     (let cap = (if capacity \<noteq> 0 then capacity else ARRAYLIST_CAPACITY) in
      if ok \<and> ok' \<and> 0 \<le> cap
      then Some \<lparr>al_cap = cap, al_size = 0, al_elems = replicate (nat cap) None\<rparr> else None)"

definition arraylist_capacity :: "'a arraylist option \<Rightarrow> int" where
  "arraylist_capacity arr = (case arr of None \<Rightarrow> - 1 | Some arr \<Rightarrow> al_cap arr)"

definition arraylist_size :: "'a arraylist option \<Rightarrow> int" where
  "arraylist_size arr = (case arr of None \<Rightarrow> - 1 | Some arr \<Rightarrow> al_size arr)"

definition arraylist_reset :: "'a arraylist \<Rightarrow> 'a arraylist" where
  "arraylist_reset arr = arr\<lparr>al_size := 0\<rparr>"

text \<open>The elements that \<^verbatim>\<open>arraylist_free\<close> frees: all that are not null, up to the capacity.\<close>

definition arraylist_free :: "'a arraylist \<Rightarrow> 'a list" where
  "arraylist_free arr = map the (filter (\<lambda>e. e \<noteq> None) (take (nat (al_cap arr)) (al_elems arr)))"

definition elem_at :: "'a arraylist \<Rightarrow> int \<Rightarrow> 'a option option" where
  "elem_at arr pos = (if 0 \<le> pos \<and> nat pos < length (al_elems arr) then Some (al_elems arr ! nat pos) else None)"

definition arraylist_get :: "'a arraylist \<Rightarrow> int \<Rightarrow> 'a option option" where
  "arraylist_get arr pos = (if pos \<ge> al_size arr then Some None else elem_at arr pos)"

text \<open>The loop of \<^verbatim>\<open>arraylist_remove\<close> over the preceding null entries.\<close>

fun trim_size :: "'a option list \<Rightarrow> nat \<Rightarrow> int \<Rightarrow> int" where
  "trim_size elems 0 n = n"
| "trim_size elems (Suc i) n = (if elems ! i = None then trim_size elems i (n - 1) else n)"

definition arraylist_remove :: "'a arraylist \<Rightarrow> int \<Rightarrow> ('a option \<times> 'a arraylist) option" where
  "arraylist_remove arr pos = do {
     item \<leftarrow> arraylist_get arr pos;
     case item of
       None \<Rightarrow> Some (None, arr)
     | Some x \<Rightarrow>
         let elems = (al_elems arr)[nat pos := None] in
         Some (Some x, arr\<lparr>al_elems := elems,
           al_size := (if pos + 1 = al_size arr then trim_size elems (nat pos) (al_size arr - 1) else al_size arr)\<rparr>)
   }"

text \<open>\<open>ok\<close> is the outcome of \<^verbatim>\<open>realloc\<close>. The result is the return value, the freed element and the list.\<close>

definition arraylist_insert ::
  "bool \<Rightarrow> 'a arraylist \<Rightarrow> int \<Rightarrow> 'a \<Rightarrow> (int \<times> 'a option \<times> 'a arraylist) option" where
  "arraylist_insert ok arr pos elem = do {
     arr' \<leftarrow> (if pos \<ge> al_cap arr then do {
               newcap \<leftarrow> c_int (2 * pos);
               Some (if ok then Some (arr\<lparr>al_cap := newcap,
                 al_elems := al_elems arr @ replicate (nat newcap - length (al_elems arr)) None\<rparr>) else None)
             } else Some (Some arr));
     case arr' of
       None \<Rightarrow> Some (- 1, None, arr)
     | Some arr' \<Rightarrow> do {
         old \<leftarrow> elem_at arr' pos;
         Some (0, old, arr'\<lparr>al_elems := (al_elems arr')[nat pos := Some elem],
                            al_size := (if pos + 1 > al_size arr' then pos + 1 else al_size arr')\<rparr>)
       }
   }"

definition arraylist_add :: "bool \<Rightarrow> 'a arraylist \<Rightarrow> 'a \<Rightarrow> (int \<times> 'a option \<times> 'a arraylist) option" where
  "arraylist_add ok arr elem = do {
     (rc, freed, arr') \<leftarrow> arraylist_insert ok arr (al_size arr) elem;
     Some (if rc = - 1 then rc else al_size arr, freed, arr')
   }"

text \<open>
  \<^verbatim>\<open>arraylist_sort\<close>; \<open>qsort\<close> is the sorting function of the C library with the comparison of the caller.
  The loop leaves the position of the last element that is not null.
\<close>

fun last_used :: "'a option list \<Rightarrow> int \<Rightarrow> int \<Rightarrow> int" where
  "last_used [] i pos = pos"
| "last_used (e # es) i pos = last_used es (i + 1) (if e \<noteq> None then i else pos)"

definition arraylist_sort :: "('a option list \<Rightarrow> 'a option list) \<Rightarrow> 'a arraylist \<Rightarrow> 'a arraylist" where
  "arraylist_sort qsort arr =
     (let elems = qsort (al_elems arr) in arr\<lparr>al_elems := elems, al_size := last_used elems 0 (- 1) + 1\<rparr>)"

section \<open>Invariant and contents\<close>

definition arr_ok :: "'a arraylist \<Rightarrow> bool" where
  "arr_ok arr \<longleftrightarrow> 1 \<le> al_cap arr \<and> length (al_elems arr) = nat (al_cap arr) \<and> 0 \<le> al_size arr \<and> al_size arr \<le> al_cap arr"

definition contents :: "'a arraylist \<Rightarrow> 'a option list" where
  "contents arr = take (nat (al_size arr)) (al_elems arr)"

text \<open>There is nothing behind the size; \<^verbatim>\<open>arraylist_reset\<close> breaks this.\<close>

definition arr_clean :: "'a arraylist \<Rightarrow> bool" where
  "arr_clean arr \<longleftrightarrow> (\<forall>i. nat (al_size arr) \<le> i \<and> i < length (al_elems arr) \<longrightarrow> al_elems arr ! i = None)"

lemma arraylist_create_ok:
  assumes "arraylist_create ok ok' capacity = Some arr"
  shows "arr_ok arr" "arr_clean arr" "contents arr = []"
  using assms by (auto simp: arraylist_create_def Let_def arr_ok_def arr_clean_def contents_def ARRAYLIST_CAPACITY_def split: if_splits)

lemma arraylist_get_contents:
  assumes "arr_ok arr" "0 \<le> pos"
  shows "arraylist_get arr pos = Some (if nat pos < length (contents arr) then contents arr ! nat pos else None)"
  using assms by (auto simp: arraylist_get_def elem_at_def arr_ok_def contents_def)

lemma length_contents: "arr_ok arr \<Longrightarrow> length (contents arr) = nat (al_size arr)"
  by (auto simp: arr_ok_def contents_def)

lemma arraylist_add_spec:
  assumes ok: "arr_ok arr" and small: "al_size arr < 2 ^ 30"
  shows "\<exists>freed arr'. arraylist_add True arr x = Some (al_size arr, freed, arr') \<and> arr_ok arr' \<and>
    contents arr' = contents arr @ [Some x] \<and> al_size arr' = al_size arr + 1 \<and>
    (arr_clean arr \<longrightarrow> arr_clean arr' \<and> freed = None)"
proof -
  define cap where "cap = (if al_size arr \<ge> al_cap arr then 2 * al_size arr else al_cap arr)"
  define es where "es = al_elems arr @ replicate (nat cap - length (al_elems arr)) None"
  let ?n = "nat (al_size arr)"
  let ?arr = "arr\<lparr>al_cap := cap, al_elems := es[?n := Some x], al_size := al_size arr + 1\<rparr>"
  have cap: "al_size arr < cap" "al_cap arr \<le> cap" "1 \<le> cap"
    using ok by (auto simp: arr_ok_def cap_def)
  have len: "length es = nat cap" "?n < length es" "?n \<le> length (al_elems arr)"
    using ok cap by (auto simp: arr_ok_def es_def)
  have "c_int (2 * al_size arr) = Some (2 * al_size arr)" using ok small by (simp add: c_int_Some arr_ok_def)
  then have ins: "arraylist_add True arr x = Some (al_size arr, es ! ?n, ?arr)"
    using ok len(2) by (auto simp: arraylist_add_def arraylist_insert_def elem_at_def cap_def es_def arr_ok_def)
  have "take ?n es = contents arr" using len(3) by (simp add: es_def contents_def)
  then have "contents ?arr = contents arr @ [Some x]"
    using ok len(2) by (simp add: contents_def arr_ok_def nat_add_distrib take_Suc_conv_app_nth)
  moreover have "arr_ok ?arr" using ok cap len(1) by (simp add: arr_ok_def)
  moreover have "arr_clean ?arr \<and> es ! ?n = None" if c: "arr_clean arr"
  proof -
    have none: "es ! i = None" if "?n \<le> i" "i < length es" for i
      using that c by (auto simp: es_def arr_clean_def nth_append)
    then show ?thesis using ok len(2) by (auto simp: arr_clean_def arr_ok_def nth_list_update nat_add_distrib)
  qed
  ultimately show ?thesis using ins by auto
qed

lemma trim_size_spec:
  "\<exists>j \<le> i. trim_size es i (int i) = int j \<and> (\<forall>k. j \<le> k \<and> k < i \<longrightarrow> es ! k = None)"
proof (induction i)
  case (Suc i)
  then obtain j where "j \<le> i" "trim_size es i (int i) = int j" "\<forall>k. j \<le> k \<and> k < i \<longrightarrow> es ! k = None" by blast
  then show ?case
    by (cases "es ! i = None") (force intro!: exI [of _ j] simp: less_Suc_eq, force intro!: exI [of _ "Suc i"])
qed simp

text \<open>The elements of the list that are not null, in order.\<close>

definition items :: "'a arraylist \<Rightarrow> 'a list" where
  "items arr = map the (filter (\<lambda>e. e \<noteq> None) (contents arr))"

lemma items_add: "contents arr' = contents arr @ [Some x] \<Longrightarrow> items arr' = items arr @ [x]"
  by (simp add: items_def)

lemma set_items: "x \<in> set (items arr) \<longleftrightarrow> Some x \<in> set (contents arr)"
  by (force simp: items_def)

lemma filter_take_None:
  "j \<le> n \<Longrightarrow> n \<le> length es \<Longrightarrow> (\<forall>k. j \<le> k \<and> k < n \<longrightarrow> es ! k = None) \<Longrightarrow>
   filter (\<lambda>e. e \<noteq> None) (take j es) = filter (\<lambda>e. e \<noteq> None) (take n es)"
proof (induction n)
  case (Suc n)
  then show ?case by (cases "j = Suc n") (auto simp: take_Suc_conv_app_nth)
qed simp

lemma arraylist_remove_spec:
  assumes ok: "arr_ok arr" and i: "i < length (contents arr)" "contents arr ! i = Some x"
  shows "\<exists>arr'. arraylist_remove arr (int i) = Some (Some x, arr') \<and> arr_ok arr' \<and> al_size arr' \<le> al_size arr \<and>
    (arr_clean arr \<longrightarrow> arr_clean arr') \<and>
    items arr' = map the (filter (\<lambda>e. e \<noteq> None) ((contents arr)[i := None]))"
proof -
  let ?es = "(al_elems arr)[i := None]" and ?n = "nat (al_size arr)"
  have n: "length (contents arr) = ?n" "?n \<le> length (al_elems arr)" "al_size arr = int ?n"
    using ok by (auto simp: arr_ok_def length_contents)
  have get: "arraylist_get arr (int i) = Some (Some x)" using arraylist_get_contents [OF ok, of "int i"] i by simp
  have upd: "(contents arr)[i := None] = take ?n ?es" by (simp add: contents_def take_update_swap)
  define j where "j = (if i + 1 = ?n then nat (trim_size ?es i (int i)) else ?n)"
  have j: "j \<le> ?n \<and> (\<forall>k. j \<le> k \<and> k < ?n \<longrightarrow> ?es ! k = None)"
    using trim_size_spec [of i ?es] i(1) n by (auto simp: j_def less_Suc_eq nth_list_update)
  let ?arr = "arr\<lparr>al_elems := ?es, al_size := int j\<rparr>"
  have "arraylist_remove arr (int i) = Some (Some x, ?arr)"
  proof (cases "int i + 1 = al_size arr")
    case True
    then have e: "al_size arr - 1 = int i" "i + 1 = ?n" by simp_all
    obtain k where "trim_size ?es i (int i) = int k" using trim_size_spec [of i ?es] by blast
    then show ?thesis using get True e(2) by (simp add: arraylist_remove_def Let_def j_def e(1))
  next
    case False
    then show ?thesis using get n(3) by (auto simp: arraylist_remove_def Let_def j_def)
  qed
  moreover have "int j \<le> al_size arr" using j ok by (simp add: arr_ok_def le_nat_iff)
  moreover from this have "arr_ok ?arr" using ok by (simp add: arr_ok_def)
  moreover have "arr_clean arr \<longrightarrow> arr_clean ?arr"
  proof (unfold arr_clean_def, intro impI allI)
    fix k assume c: "\<forall>i. nat (al_size arr) \<le> i \<and> i < length (al_elems arr) \<longrightarrow> al_elems arr ! i = None"
      and k: "nat (al_size ?arr) \<le> k \<and> k < length (al_elems ?arr)"
    show "al_elems ?arr ! k = None"
      using j k spec [OF c, of k] by (cases "k < ?n"; cases "k = i") auto
  qed
  moreover have "items ?arr = map the (filter (\<lambda>e. e \<noteq> None) ((contents arr)[i := None]))"
    unfolding items_def upd using filter_take_None [of j ?n ?es] j n(2) by (simp add: contents_def)
  ultimately show ?thesis by auto
qed

section \<open>Pending metadata requests\<close>

text \<open>
  The loop over the pending requests gives the index of the first request for \<open>gfid\<close>. The list is
  \<^term>\<open>None\<close> when it was never created.
\<close>

fun pending_index :: "int arraylist \<Rightarrow> int \<Rightarrow> nat \<Rightarrow> nat \<Rightarrow> nat option option" where
  "pending_index arr gfid i 0 = Some None"
| "pending_index arr gfid i (Suc n) = do {
     pending \<leftarrow> arraylist_get arr (int i);
     if pending = Some gfid then Some (Some i) else pending_index arr gfid (i + 1) n
   }"

definition add_pending_metaget ::
  "bool \<Rightarrow> bool \<Rightarrow> int arraylist option \<Rightarrow> int \<Rightarrow> (unifyfs_rc \<times> int arraylist option) option" where
  "add_pending_metaget ok ok' pending_metagets gfid =
     (if \<not> ok then Some (ENOMEM, pending_metagets)
      else case pending_metagets of
        None \<Rightarrow> Some (UNIFYFS_FAILURE, None)
      | Some arr \<Rightarrow> do {
          found \<leftarrow> pending_index arr gfid 0 (nat (al_size arr));
          case found of
            Some i \<Rightarrow> Some (EEXIST, Some arr)
          | None \<Rightarrow> do {
              (rc, freed, arr) \<leftarrow> arraylist_add ok' arr gfid;
              Some (if rc = - 1 then UNIFYFS_FAILURE else UNIFYFS_SUCCESS, Some arr)
            }
        })"

definition check_pending_metaget :: "int arraylist option \<Rightarrow> int \<Rightarrow> bool option" where
  "check_pending_metaget pending_metagets gfid =
     (case pending_metagets of
        None \<Rightarrow> Some False
      | Some arr \<Rightarrow> do {
          found \<leftarrow> pending_index arr gfid 0 (nat (al_size arr));
          Some (found \<noteq> None)
        })"

definition clear_pending_metaget :: "int arraylist option \<Rightarrow> int \<Rightarrow> (unifyfs_rc \<times> int arraylist option) option" where
  "clear_pending_metaget pending_metagets gfid =
     (case pending_metagets of
        None \<Rightarrow> Some (UNIFYFS_FAILURE, None)
      | Some arr \<Rightarrow> do {
          found \<leftarrow> pending_index arr gfid 0 (nat (al_size arr));
          case found of
            None \<Rightarrow> Some (UNIFYFS_FAILURE, Some arr)
          | Some i \<Rightarrow> do { (pending, arr) \<leftarrow> arraylist_remove arr (int i); Some (UNIFYFS_SUCCESS, Some arr) }
        })"

lemma pending_index_spec:
  assumes "arr_ok arr" "i + n = length (contents arr)"
  shows "\<exists>r. pending_index arr g i n = Some r \<and>
    (case r of None \<Rightarrow> Some g \<notin> set (drop i (contents arr))
     | Some j \<Rightarrow> j < length (contents arr) \<and> contents arr ! j = Some g)"
  using assms(2)
proof (induction n arbitrary: i)
  case (Suc n)
  then have "arraylist_get arr (int i) = Some (contents arr ! i)" "drop i (contents arr) = contents arr ! i # drop (i + 1) (contents arr)"
    using arraylist_get_contents [OF assms(1), of "int i"] by (simp_all add: Cons_nth_drop_Suc)
  then show ?case using Suc.IH [of "i + 1"] Suc.prems by (cases "contents arr ! i = Some g") (auto split: option.splits)
qed simp

definition pending_ok :: "int arraylist \<Rightarrow> bool" where
  "pending_ok arr \<longleftrightarrow> arr_ok arr \<and> arr_clean arr \<and> distinct (items arr)"

lemma pending_found:
  assumes "pending_ok arr"
  obtains (found) i where "pending_index arr g 0 (nat (al_size arr)) = Some (Some i)" "i < length (contents arr)"
      "contents arr ! i = Some g" "g \<in> set (items arr)"
  | (absent) "pending_index arr g 0 (nat (al_size arr)) = Some None" "g \<notin> set (items arr)"
proof -
  have ok: "arr_ok arr" using assms by (simp add: pending_ok_def)
  obtain r where r: "pending_index arr g 0 (nat (al_size arr)) = Some r"
    "case r of None \<Rightarrow> Some g \<notin> set (drop 0 (contents arr)) | Some j \<Rightarrow> j < length (contents arr) \<and> contents arr ! j = Some g"
    using pending_index_spec [OF ok, of 0 "nat (al_size arr)" g] length_contents [OF ok] by auto
  show thesis
  proof (cases r)
    case None
    then show thesis using r absent by (simp add: set_items)
  next
    case (Some j)
    then have "j < length (contents arr)" "contents arr ! j = Some g" using r(2) by simp_all
    moreover from this have "g \<in> set (items arr)" unfolding set_items by (metis nth_mem)
    ultimately show thesis using r(1) Some found by blast
  qed
qed

lemma remove_item:
  assumes "distinct (map the (filter (\<lambda>e. e \<noteq> None) xs))" "i < length xs" "xs ! i = Some g"
  shows "set (map the (filter (\<lambda>e. e \<noteq> None) (xs[i := None]))) = set (map the (filter (\<lambda>e. e \<noteq> None) xs)) - {g}"
    "distinct (map the (filter (\<lambda>e. e \<noteq> None) (xs[i := None])))"
proof -
  obtain ys zs where e: "xs = ys @ Some g # zs" "length ys = i"
    using id_take_nth_drop [OF assms(2)] assms(2,3) by (metis length_take less_or_eq_imp_le min.absorb2)
  then show "set (map the (filter (\<lambda>e. e \<noteq> None) (xs[i := None]))) = set (map the (filter (\<lambda>e. e \<noteq> None) xs)) - {g}"
    "distinct (map the (filter (\<lambda>e. e \<noteq> None) (xs[i := None])))"
    using assms(1) by (auto simp: list_update_append)
qed

text \<open>
  (C28) The list of pending metadata requests behaves as a set: a request is added once, further attempts
  are refused with \<^verbatim>\<open>EEXIST\<close>, the check answers whether the request is in the set, and clearing removes
  it. In particular a cleared request can be added again.
\<close>

theorem pending_metagets_refine:
  assumes "pending_ok arr" and "al_size arr < 2 ^ 30"
  shows "check_pending_metaget (Some arr) g = Some (g \<in> set (items arr)) \<and>
     (\<exists>arr'. add_pending_metaget True True (Some arr) g =
           Some (if g \<in> set (items arr) then EEXIST else UNIFYFS_SUCCESS, Some arr') \<and>
         pending_ok arr' \<and> set (items arr') = insert g (set (items arr))) \<and>
     (\<exists>arr'. clear_pending_metaget (Some arr) g =
           Some (if g \<in> set (items arr) then UNIFYFS_SUCCESS else UNIFYFS_FAILURE, Some arr') \<and>
         pending_ok arr' \<and> set (items arr') = set (items arr) - {g})"
  using assms(1)
proof (cases rule: pending_found [of _ g])
  case (found i)
  have ok: "arr_ok arr" "arr_clean arr" "distinct (items arr)" using assms(1) by (auto simp: pending_ok_def)
  obtain arr' where r: "arraylist_remove arr (int i) = Some (Some g, arr')" "arr_ok arr'" "arr_clean arr'"
    "items arr' = map the (filter (\<lambda>e. e \<noteq> None) ((contents arr)[i := None]))"
    using arraylist_remove_spec [OF ok(1) found(2,3)] ok(2) by blast
  have "set (items arr') = set (items arr) - {g}" "distinct (items arr')"
    using remove_item [OF ok(3) [unfolded items_def] found(2,3)] r(4) by (simp_all add: items_def)
  then show ?thesis using assms(1) found r ok
    by (auto simp: check_pending_metaget_def add_pending_metaget_def clear_pending_metaget_def pending_ok_def)
next
  case absent
  have ok: "arr_ok arr" "arr_clean arr" "distinct (items arr)" using assms(1) by (auto simp: pending_ok_def)
  obtain freed arr' where a: "arraylist_add True arr g = Some (al_size arr, freed, arr')" "arr_ok arr'" "arr_clean arr'"
    "contents arr' = contents arr @ [Some g]"
    using arraylist_add_spec [OF ok(1) assms(2), of g] ok(2) by auto
  note items = items_add [OF a(4)]
  have "al_size arr \<noteq> - 1" using ok(1) by (simp add: arr_ok_def)
  show ?thesis
  proof (intro conjI)
    show "check_pending_metaget (Some arr) g = Some (g \<in> set (items arr))"
      using absent by (simp add: check_pending_metaget_def)
    show "\<exists>arr'. add_pending_metaget True True (Some arr) g =
           Some (if g \<in> set (items arr) then EEXIST else UNIFYFS_SUCCESS, Some arr') \<and>
         pending_ok arr' \<and> set (items arr') = insert g (set (items arr))"
      using a(1-3) items absent \<open>al_size arr \<noteq> - 1\<close> ok(3) by (intro exI [of _ arr']) (simp add: add_pending_metaget_def pending_ok_def)
    show "\<exists>arr'. clear_pending_metaget (Some arr) g =
           Some (if g \<in> set (items arr) then UNIFYFS_SUCCESS else UNIFYFS_FAILURE, Some arr') \<and>
         pending_ok arr' \<and> set (items arr') = set (items arr) - {g}"
      using absent assms(1) by (intro exI [of _ arr]) (simp add: clear_pending_metaget_def)
  qed
qed

definition pending_example :: "int arraylist" where
  "pending_example = \<lparr>al_cap = 4, al_size = 2, al_elems = [Some 7, Some 9, None, None]\<rparr>"

theorem pending_metagets_refine_witness:
  "check_pending_metaget (Some pending_example) 9 = Some True \<and>
   (\<exists>arr'. clear_pending_metaget (Some pending_example) 9 = Some (UNIFYFS_SUCCESS, Some arr') \<and> set (items arr') = {7})"
proof -
  have "i = 2 \<or> i = 3" if "2 \<le> i" "i < 4" for i :: nat using that by linarith
  then have "arr_clean pending_example" by (fastforce simp: arr_clean_def pending_example_def numeral_eq_Suc less_Suc_eq)
  then have ok: "pending_ok pending_example"
    by (simp add: pending_ok_def pending_example_def arr_ok_def items_def contents_def)
  have "items pending_example = [7, 9]" by (simp add: pending_example_def items_def contents_def)
  with pending_metagets_refine [OF ok, of 9] show ?thesis by (auto simp: pending_example_def)
qed

text \<open>
  After \<^verbatim>\<open>arraylist_reset\<close> the old elements are still there: adding an element frees the one that was
  stored at its place before.
\<close>

lemma arraylist_reset_add_frees:
  "do { arr \<leftarrow> Some (arraylist_reset pending_example); (pos, freed, arr) \<leftarrow> arraylist_add True arr 3; Some (pos, freed) } =
   Some (0, Some 7)"
  by code_simp

end
