(* ===== verification/File_Attr.thy ===== *)
theory File_Attr
  imports Prelude
begin

unbundle bit_operations_syntax

text \<open>
  File attributes and the other inline functions of \<^verbatim>\<open>common/src/unifyfs_meta.h\<close>: the selective update
  of attributes, the conversion to \<^verbatim>\<open>struct stat\<close>, modes, the order of host names and ranks, and
  global file ids. A value of all ones in an unsigned field, and \<open>- 1\<close> in a flag, mean that the
  field is not set.
\<close>

section \<open>Attributes\<close>

record timespec =
  tv_sec :: int
  tv_nsec :: int

record file_attr =
  fa_filename :: "string option"
  fa_gfid :: int
  fa_is_laminated :: int
  fa_is_shared :: int
  fa_mode :: u32
  fa_uid :: u32
  fa_gid :: u32
  fa_size :: u64
  fa_atime :: timespec
  fa_mtime :: timespec
  fa_ctime :: timespec
  fa_last_update :: int

definition INVALID_GFID :: int where
  "INVALID_GFID = 0"

definition unifyfs_file_attr_set_invalid :: file_attr where
  "unifyfs_file_attr_set_invalid =
     (let zero = \<lparr>tv_sec = 0, tv_nsec = 0\<rparr> in
      \<lparr>fa_filename = None, fa_gfid = INVALID_GFID, fa_is_laminated = - 1, fa_is_shared = - 1,
       fa_mode = - 1, fa_uid = - 1, fa_gid = - 1, fa_size = - 1,
       fa_atime = zero, fa_mtime = zero, fa_ctime = zero, fa_last_update = 0\<rparr>)"

datatype file_attr_op =
    UNIFYFS_FILE_ATTR_OP_INVALID | UNIFYFS_FILE_ATTR_OP_CHGRP | UNIFYFS_FILE_ATTR_OP_CHMOD
  | UNIFYFS_FILE_ATTR_OP_CHOWN | UNIFYFS_FILE_ATTR_OP_CREATE | UNIFYFS_FILE_ATTR_OP_DATA
  | UNIFYFS_FILE_ATTR_OP_LAMINATE | UNIFYFS_FILE_ATTR_OP_TRUNCATE | UNIFYFS_FILE_ATTR_OP_UTIME

text \<open>
  \<^verbatim>\<open>unifyfs_file_attr_update\<close>; \<open>now\<close> is the time of the real-time clock in seconds and \<open>dup\<close> says whether
  the file name can be copied. The pointers are not null. \<open>set_if\<close> is a conditional assignment to a field.
\<close>

definition set_if :: "bool \<Rightarrow> (file_attr \<Rightarrow> file_attr) \<Rightarrow> file_attr \<Rightarrow> file_attr" where
  "set_if c f dst = (if c then f dst else dst)"

definition unifyfs_file_attr_update ::
  "int \<Rightarrow> bool \<Rightarrow> file_attr_op \<Rightarrow> file_attr \<Rightarrow> file_attr \<Rightarrow> unifyfs_rc \<times> file_attr" where
  "unifyfs_file_attr_update now dup attr_op dst src =
     (if attr_op = UNIFYFS_FILE_ATTR_OP_INVALID \<or> fa_gfid src = INVALID_GFID then (EINVAL, dst)
      else
        let dst = set_if (attr_op = UNIFYFS_FILE_ATTR_OP_CREATE)
                    (\<lambda>d. d\<lparr>fa_gfid := fa_gfid src\<rparr>) dst;
            dst = dst\<lparr>fa_last_update := now\<rparr>;
            dst = set_if (fa_mode src \<noteq> - 1 \<and>
                     attr_op \<in> {UNIFYFS_FILE_ATTR_OP_CHMOD, UNIFYFS_FILE_ATTR_OP_CREATE, UNIFYFS_FILE_ATTR_OP_LAMINATE})
                    (\<lambda>d. d\<lparr>fa_mode := fa_mode src\<rparr>) dst;
            dst = set_if (fa_uid src \<noteq> - 1 \<and> attr_op \<in> {UNIFYFS_FILE_ATTR_OP_CHOWN, UNIFYFS_FILE_ATTR_OP_CREATE})
                    (\<lambda>d. d\<lparr>fa_uid := fa_uid src\<rparr>) dst;
            dst = set_if (fa_gid src \<noteq> - 1 \<and> attr_op \<in> {UNIFYFS_FILE_ATTR_OP_CHGRP, UNIFYFS_FILE_ATTR_OP_CREATE})
                    (\<lambda>d. d\<lparr>fa_gid := fa_gid src\<rparr>) dst;
            dst = set_if (fa_size src \<noteq> - 1 \<and>
                     attr_op \<in> {UNIFYFS_FILE_ATTR_OP_CREATE, UNIFYFS_FILE_ATTR_OP_DATA, UNIFYFS_FILE_ATTR_OP_LAMINATE, UNIFYFS_FILE_ATTR_OP_TRUNCATE})
                    (\<lambda>d. d\<lparr>fa_size := fa_size src\<rparr>) dst;
            dst = set_if (tv_sec (fa_atime src) \<noteq> 0 \<and>
                     attr_op \<in> {UNIFYFS_FILE_ATTR_OP_CREATE, UNIFYFS_FILE_ATTR_OP_UTIME})
                    (\<lambda>d. d\<lparr>fa_atime := fa_atime src\<rparr>) dst;
            dst = set_if (tv_sec (fa_mtime src) \<noteq> 0 \<and>
                     attr_op \<in> {UNIFYFS_FILE_ATTR_OP_CREATE, UNIFYFS_FILE_ATTR_OP_UTIME, UNIFYFS_FILE_ATTR_OP_DATA, UNIFYFS_FILE_ATTR_OP_LAMINATE, UNIFYFS_FILE_ATTR_OP_TRUNCATE})
                    (\<lambda>d. d\<lparr>fa_mtime := fa_mtime src\<rparr>) dst;
            dst = set_if (tv_sec (fa_ctime src) \<noteq> 0 \<and>
                     attr_op \<in> {UNIFYFS_FILE_ATTR_OP_CHGRP, UNIFYFS_FILE_ATTR_OP_CHMOD, UNIFYFS_FILE_ATTR_OP_CHOWN, UNIFYFS_FILE_ATTR_OP_CREATE, UNIFYFS_FILE_ATTR_OP_DATA, UNIFYFS_FILE_ATTR_OP_LAMINATE})
                    (\<lambda>d. d\<lparr>fa_ctime := fa_ctime src\<rparr>) dst;
            dst = set_if (fa_is_laminated src \<noteq> - 1 \<and>
                     attr_op \<in> {UNIFYFS_FILE_ATTR_OP_CREATE, UNIFYFS_FILE_ATTR_OP_LAMINATE})
                    (\<lambda>d. d\<lparr>fa_is_laminated := fa_is_laminated src\<rparr>) dst;
            dst = set_if (fa_is_shared src \<noteq> - 1 \<and> attr_op = UNIFYFS_FILE_ATTR_OP_CREATE)
                    (\<lambda>d. d\<lparr>fa_is_shared := fa_is_shared src\<rparr>) dst;
            dst = set_if (fa_filename src \<noteq> None \<and> fa_filename dst = None)
                    (\<lambda>d. d\<lparr>fa_filename := (if dup then fa_filename src else None)\<rparr>) dst
        in (UNIFYFS_SUCCESS, dst))"

section \<open>Stat\<close>

record stat =
  st_dev :: nat
  st_ino :: int
  st_mode :: u32
  st_uid :: u32
  st_gid :: u32
  st_rdev :: nat
  st_size :: u64
  st_blksize :: u64
  st_blocks :: u64
  st_nlink :: nat
  st_atim :: timespec
  st_mtim :: timespec
  st_ctim :: timespec

definition UNIFYFS_STAT_DEFAULT_BLKSIZE :: u64 where
  "UNIFYFS_STAT_DEFAULT_BLKSIZE = 4096"

definition unifyfs_file_attr_to_stat :: "file_attr \<Rightarrow> stat" where
  "unifyfs_file_attr_to_stat fattr =
     \<lparr>st_dev = 0, st_ino = fa_gfid fattr, st_mode = fa_mode fattr, st_uid = fa_uid fattr, st_gid = fa_gid fattr,
      st_rdev = 0, st_size = fa_size fattr, st_blksize = UNIFYFS_STAT_DEFAULT_BLKSIZE,
      st_blocks = fa_size fattr div UNIFYFS_STAT_DEFAULT_BLKSIZE +
        (if fa_size fattr mod UNIFYFS_STAT_DEFAULT_BLKSIZE > 0 then 1 else 0),
      st_nlink = (if fa_is_laminated fattr \<noteq> 0 then 1 else 0),
      st_atim = fa_atime fattr, st_mtim = fa_mtime fattr, st_ctim = fa_ctime fattr\<rparr>"

section \<open>Modes, names, file ids\<close>

text \<open>\<open>umask\<close> is the process's \<^verbatim>\<open>umask\<close>.\<close>

definition unifyfs_getmode :: "u32 \<Rightarrow> u32 \<Rightarrow> u32" where
  "unifyfs_getmode umask perms = ((if perms = 0 then 0x1B6 else perms) AND 0x1FF) AND NOT umask"

text \<open>\<^verbatim>\<open>strcmp\<close> on character codes; the difference of the ranks is \<^verbatim>\<open>int\<close> arithmetic.\<close>

fun strcmp :: "string \<Rightarrow> string \<Rightarrow> int" where
  "strcmp [] [] = 0"
| "strcmp [] (b # bs) = - 1"
| "strcmp (a # as) [] = 1"
| "strcmp (a # as) (b # bs) =
     (if a = b then strcmp as bs else if (of_char a :: nat) < of_char b then - 1 else 1)"

definition compare_name_rank_pair :: "string \<times> int \<Rightarrow> string \<times> int \<Rightarrow> int option" where
  "compare_name_rank_pair a b =
     (let cmp = strcmp (fst a) (fst b) in if cmp = 0 then c_int (snd a - snd b) else Some cmp)"

definition meta_num_slices :: "u64 \<Rightarrow> u64 \<Rightarrow> u64 \<Rightarrow> u64" where
  "meta_num_slices meta_slice_sz offset len =
     (offset + len - 1) div meta_slice_sz - offset div meta_slice_sz + 1"

text \<open>\<open>md5\<close> stands for \<^verbatim>\<open>compute_path_md5\<close>, the first 8 bytes of the MD5 digest of the path.\<close>

definition unifyfs_generate_gfid :: "(string \<Rightarrow> u64) \<Rightarrow> string \<Rightarrow> int" where
  "unifyfs_generate_gfid md5 path =
     (let hash64 = md5 path; hash32 = (ucast (drop_bit 32 hash64) :: u32); hash32 = drop_bit 1 hash32 in uint hash32)"

definition hash_gfid_to_server :: "int \<Rightarrow> int \<Rightarrow> int" where
  "hash_gfid_to_server glb_pmi_size gfid = gfid mod glb_pmi_size"

section \<open>Facts\<close>

lemma set_if_simps [simp]:
  "fa_gfid (set_if c (\<lambda>d. d\<lparr>fa_gfid := xgfid\<rparr>) dst) = (if c then xgfid else fa_gfid dst)"
  "fa_gfid (set_if c (\<lambda>d. d\<lparr>fa_mode := xmode\<rparr>) dst) = fa_gfid dst"
  "fa_gfid (set_if c (\<lambda>d. d\<lparr>fa_uid := xuid\<rparr>) dst) = fa_gfid dst"
  "fa_gfid (set_if c (\<lambda>d. d\<lparr>fa_gid := xgid\<rparr>) dst) = fa_gfid dst"
  "fa_gfid (set_if c (\<lambda>d. d\<lparr>fa_size := xsize\<rparr>) dst) = fa_gfid dst"
  "fa_gfid (set_if c (\<lambda>d. d\<lparr>fa_atime := xatime\<rparr>) dst) = fa_gfid dst"
  "fa_gfid (set_if c (\<lambda>d. d\<lparr>fa_mtime := xmtime\<rparr>) dst) = fa_gfid dst"
  "fa_gfid (set_if c (\<lambda>d. d\<lparr>fa_ctime := xctime\<rparr>) dst) = fa_gfid dst"
  "fa_gfid (set_if c (\<lambda>d. d\<lparr>fa_is_laminated := xis_laminated\<rparr>) dst) = fa_gfid dst"
  "fa_gfid (set_if c (\<lambda>d. d\<lparr>fa_is_shared := xis_shared\<rparr>) dst) = fa_gfid dst"
  "fa_gfid (set_if c (\<lambda>d. d\<lparr>fa_filename := xfilename\<rparr>) dst) = fa_gfid dst"
  "fa_size (set_if c (\<lambda>d. d\<lparr>fa_gfid := xgfid\<rparr>) dst) = fa_size dst"
  "fa_size (set_if c (\<lambda>d. d\<lparr>fa_mode := xmode\<rparr>) dst) = fa_size dst"
  "fa_size (set_if c (\<lambda>d. d\<lparr>fa_uid := xuid\<rparr>) dst) = fa_size dst"
  "fa_size (set_if c (\<lambda>d. d\<lparr>fa_gid := xgid\<rparr>) dst) = fa_size dst"
  "fa_size (set_if c (\<lambda>d. d\<lparr>fa_size := xsize\<rparr>) dst) = (if c then xsize else fa_size dst)"
  "fa_size (set_if c (\<lambda>d. d\<lparr>fa_atime := xatime\<rparr>) dst) = fa_size dst"
  "fa_size (set_if c (\<lambda>d. d\<lparr>fa_mtime := xmtime\<rparr>) dst) = fa_size dst"
  "fa_size (set_if c (\<lambda>d. d\<lparr>fa_ctime := xctime\<rparr>) dst) = fa_size dst"
  "fa_size (set_if c (\<lambda>d. d\<lparr>fa_is_laminated := xis_laminated\<rparr>) dst) = fa_size dst"
  "fa_size (set_if c (\<lambda>d. d\<lparr>fa_is_shared := xis_shared\<rparr>) dst) = fa_size dst"
  "fa_size (set_if c (\<lambda>d. d\<lparr>fa_filename := xfilename\<rparr>) dst) = fa_size dst"
  "fa_is_laminated (set_if c (\<lambda>d. d\<lparr>fa_gfid := xgfid\<rparr>) dst) = fa_is_laminated dst"
  "fa_is_laminated (set_if c (\<lambda>d. d\<lparr>fa_mode := xmode\<rparr>) dst) = fa_is_laminated dst"
  "fa_is_laminated (set_if c (\<lambda>d. d\<lparr>fa_uid := xuid\<rparr>) dst) = fa_is_laminated dst"
  "fa_is_laminated (set_if c (\<lambda>d. d\<lparr>fa_gid := xgid\<rparr>) dst) = fa_is_laminated dst"
  "fa_is_laminated (set_if c (\<lambda>d. d\<lparr>fa_size := xsize\<rparr>) dst) = fa_is_laminated dst"
  "fa_is_laminated (set_if c (\<lambda>d. d\<lparr>fa_atime := xatime\<rparr>) dst) = fa_is_laminated dst"
  "fa_is_laminated (set_if c (\<lambda>d. d\<lparr>fa_mtime := xmtime\<rparr>) dst) = fa_is_laminated dst"
  "fa_is_laminated (set_if c (\<lambda>d. d\<lparr>fa_ctime := xctime\<rparr>) dst) = fa_is_laminated dst"
  "fa_is_laminated (set_if c (\<lambda>d. d\<lparr>fa_is_laminated := xis_laminated\<rparr>) dst) = (if c then xis_laminated else fa_is_laminated dst)"
  "fa_is_laminated (set_if c (\<lambda>d. d\<lparr>fa_is_shared := xis_shared\<rparr>) dst) = fa_is_laminated dst"
  "fa_is_laminated (set_if c (\<lambda>d. d\<lparr>fa_filename := xfilename\<rparr>) dst) = fa_is_laminated dst"
  by (simp_all add: set_if_def)

lemma attr_update_rc:
  "fst (unifyfs_file_attr_update now dup attr_op dst src) =
     (if attr_op = UNIFYFS_FILE_ATTR_OP_INVALID \<or> fa_gfid src = INVALID_GFID then EINVAL else UNIFYFS_SUCCESS)"
  by (simp add: unifyfs_file_attr_update_def Let_def)

lemma attr_update_invalid:
  "attr_op = UNIFYFS_FILE_ATTR_OP_INVALID \<or> fa_gfid src = INVALID_GFID \<Longrightarrow>
   snd (unifyfs_file_attr_update now dup attr_op dst src) = dst"
  by (simp add: unifyfs_file_attr_update_def)

lemma attr_update_gfid:
  "fa_gfid (snd (unifyfs_file_attr_update now dup attr_op dst src)) =
     (if attr_op = UNIFYFS_FILE_ATTR_OP_CREATE \<and> fa_gfid src \<noteq> INVALID_GFID then fa_gfid src else fa_gfid dst)"
  by (cases attr_op) (simp_all add: unifyfs_file_attr_update_def Let_def)

lemma attr_update_size:
  "fa_size (snd (unifyfs_file_attr_update now dup attr_op dst src)) =
     (if fa_gfid src \<noteq> INVALID_GFID \<and> fa_size src \<noteq> - 1 \<and> attr_op \<in> {UNIFYFS_FILE_ATTR_OP_CREATE,
         UNIFYFS_FILE_ATTR_OP_DATA, UNIFYFS_FILE_ATTR_OP_LAMINATE, UNIFYFS_FILE_ATTR_OP_TRUNCATE}
      then fa_size src else fa_size dst)"
  by (cases attr_op) (simp_all add: unifyfs_file_attr_update_def Let_def)

lemma attr_update_laminated:
  "fa_is_laminated (snd (unifyfs_file_attr_update now dup attr_op dst src)) =
     (if fa_gfid src \<noteq> INVALID_GFID \<and> fa_is_laminated src \<noteq> - 1 \<and>
         attr_op \<in> {UNIFYFS_FILE_ATTR_OP_CREATE, UNIFYFS_FILE_ATTR_OP_LAMINATE}
      then fa_is_laminated src else fa_is_laminated dst)"
  by (cases attr_op) (simp_all add: unifyfs_file_attr_update_def Let_def)

lemmas attr_update_simps = attr_update_rc attr_update_gfid attr_update_size attr_update_laminated

text \<open>
  The blocks that \<^verbatim>\<open>stat\<close> reports cover the file and no block of them is empty, for every file
  size: the rounding up does not wrap around.
\<close>

theorem stat_blocks_cover:
  "let sb = unifyfs_file_attr_to_stat fattr in
   unat (fa_size fattr) \<le> unat (st_blocks sb) * 4096 \<and> unat (st_blocks sb) * 4096 < unat (fa_size fattr) + 4096"
proof -
  let ?q = "fa_size fattr div 4096" and ?r = "fa_size fattr mod 4096"
  have d: "unat (fa_size fattr) = unat ?q * 4096 + unat ?r" "unat ?r < 4096" by (simp_all add: unat_div unat_mod)
  have "unat (fa_size fattr) < 18446744073709551616" using unsigned_less [of "fa_size fattr", where 'a = nat] by simp
  then have "unat ?q < 4503599627370496" using d by linarith
  then have "unat (?q + 1) = unat ?q + 1" by (simp add: unat_word_ariths)
  then show ?thesis using d
    by (auto simp: unifyfs_file_attr_to_stat_def UNIFYFS_STAT_DEFAULT_BLKSIZE_def Let_def word_gt_0 unat_gt_0 [symmetric])
qed

lemma generate_gfid_range: "0 \<le> unifyfs_generate_gfid md5 path \<and> unifyfs_generate_gfid md5 path < 2 ^ 31"
proof -
  define h where "h = (ucast (drop_bit 32 (md5 path)) :: u32)"
  have "uint (drop_bit 1 h) = uint h div 2" by (simp add: drop_bit_eq_div uint_div)
  moreover have "uint h < 2 ^ 32" using uint_lt2p [of h] by simp
  ultimately show ?thesis by (simp add: unifyfs_generate_gfid_def h_def [symmetric] Let_def)
qed

text \<open>A path can have the id that marks an invalid file.\<close>

lemma generate_gfid_invalid: "md5 path < 2 ^ 33 \<Longrightarrow> unifyfs_generate_gfid md5 path = INVALID_GFID"
proof -
  assume "md5 path < 2 ^ 33"
  then have "uint (md5 path) < 2 ^ 33" by (simp add: word_less_def)
  then have "uint (md5 path) div 2 ^ 32 < 2" by simp
  moreover have "0 \<le> uint (md5 path) div 2 ^ 32" by (simp add: pos_imp_zdiv_nonneg_iff)
  ultimately have "take_bit 32 (uint (md5 path) div 2 ^ 32) div 2 = 0" by (subst take_bit_int_eq_self) auto
  then have "uint (drop_bit 1 (ucast (drop_bit 32 (md5 path)) :: u32)) = 0"
    by (simp add: drop_bit_eq_div uint_div unsigned_ucast_eq)
  then show ?thesis by (simp add: unifyfs_generate_gfid_def INVALID_GFID_def Let_def)
qed

end
