(* ===== verification/Inode.thy ===== *)
theory Inode
  imports Extent_Tree Logio Arraylist File_Attr "HOL-Library.Multiset"
begin

text \<open>
  The server's files: the tree of inodes of \<^verbatim>\<open>server/src/unifyfs_inode_tree.c\<close> and the operations of
  \<^verbatim>\<open>server/src/unifyfs_inode.c\<close> on it. An inode has the file attributes, the extent tree of the file
  and the list of extents that wait to be added.

  The state that the operations share is a record: the inode tree, the write logs of the local
  clients (the outer option says whether there is such a client, the inner one whether its log is
  attached), the callbacks submitted to the request managers, and the rank of the server. An inode
  is changed in place through its pointer; here the changed inode replaces the old one in the tree.
  Locks are not part of the state: an operation runs as a whole. The allocations of a call are
  answered by an oracle.
\<close>

section \<open>Inodes\<close>

record pending_extents_item =
  pe_client_req :: nat
  pe_num_extents :: u32
  pe_extents :: "extent_metadata list"

record inode =
  ino_gfid :: int
  ino_attr :: file_attr
  ino_extents :: "extent_tree option"
  ino_pending :: "pending_extents_item arraylist option"

record client_callback_req =
  cb_app_id :: int
  cb_client_id :: int
  cb_gfid :: int

type_synonym app_clients = "int \<times> int \<Rightarrow> logio_context option option"

record server_state =
  sv_inodes :: "inode rbt"
  sv_clients :: app_clients
  sv_callbacks :: "client_callback_req list"
  sv_rank :: int

definition uit_compare_func :: "inode \<Rightarrow> inode \<Rightarrow> int" where
  "uit_compare_func node1 node2 =
     (if ino_gfid node1 > ino_gfid node2 then 1 else if ino_gfid node1 < ino_gfid node2 then - 1 else 0)"

section \<open>Destroying an inode\<close>

text \<open>
  The loop of \<^verbatim>\<open>unifyfs_inode_destroy\<close> over the extents releases the log space of extents that are in
  the log of a local client and gathers the clients. The state of the loop are the clients,
  \<^verbatim>\<open>cb_app_id\<close>, \<^verbatim>\<open>last_client\<close> and the array of client ids, which has room for as many ids as the
  tree has extents; \<open>arr\<close> says whether the array could be allocated.
\<close>

fun release_extents ::
  "bool \<Rightarrow> nat \<Rightarrow> int \<Rightarrow> extent_metadata list \<Rightarrow> app_clients \<times> int \<times> int \<times> int list
   \<Rightarrow> (app_clients \<times> int \<times> int \<times> int list) option" where
  "release_extents arr max_clients rank [] s = Some s"
| "release_extents arr max_clients rank (e # es) (clients, app, last_client, ids) =
     (if ext_svr_rank e \<noteq> rank then release_extents arr max_clients rank es (clients, app, last_client, ids)
      else case clients (ext_app_id e, ext_cli_id e) of
        Some (Some logio) \<Rightarrow> do {
          (rc, logio) \<leftarrow> unifyfs_logio_free logio (ext_log_pos e) (extent_length e);
          let clients = clients((ext_app_id e, ext_cli_id e) := Some (Some logio)) in
          if arr then
            if last_client \<noteq> ext_cli_id e \<and> \<not> length ids < max_clients then None
            else release_extents arr max_clients rank es
              (clients, if app = - 1 then ext_app_id e else app, ext_cli_id e,
               if last_client \<noteq> ext_cli_id e then ids @ [ext_cli_id e] else ids)
          else release_extents arr max_clients rank es (clients, app, last_client, ids)
        }
      | _ \<Rightarrow> release_extents arr max_clients rank es (clients, app, last_client, ids))"

text \<open>
  One callback for each different client id of the sorted array; \<^verbatim>\<open>rm_submit_client_callback_request\<close>
  drops it when there is no such client.
\<close>

fun submit_callbacks ::
  "(nat \<Rightarrow> bool) \<Rightarrow> nat \<Rightarrow> app_clients \<Rightarrow> int \<Rightarrow> int \<Rightarrow> int \<Rightarrow> int list \<Rightarrow> client_callback_req list" where
  "submit_callbacks al i clients app gfid last_client [] = []"
| "submit_callbacks al i clients app gfid last_client (c # cs) =
     (if c = last_client then submit_callbacks al i clients app gfid last_client cs
      else (if al i \<and> \<not> Option.is_none (clients (app, c))
            then [\<lparr>cb_app_id = app, cb_client_id = c, cb_gfid = gfid\<rparr>] else []) @
           submit_callbacks al (i + 1) clients app gfid c cs)"

definition unifyfs_inode_destroy :: "(nat \<Rightarrow> bool) \<Rightarrow> inode \<Rightarrow> server_state \<Rightarrow> (unifyfs_rc \<times> server_state) option" where
  "unifyfs_inode_destroy al ino st =
     (case ino_extents ino of
        None \<Rightarrow> Some (UNIFYFS_SUCCESS, st)
      | Some T \<Rightarrow> do {
          extents \<leftarrow> extent_tree_iter_loop (et_head T) None;
          (clients, app, last_client, ids) \<leftarrow>
            release_extents (al 0) (unat (et_count T)) (sv_rank st) extents (sv_clients st, - 1, - 1, []);
          T \<leftarrow> extent_tree_destroy T;
          Some (UNIFYFS_SUCCESS, st\<lparr>sv_clients := clients,
            sv_callbacks := sv_callbacks st @
              (if al 0 then submit_callbacks al 1 clients app (ino_gfid ino) (- 1) (sort ids) else [])\<rparr>)
        })"

section \<open>The inode tree\<close>

definition zero_attr :: file_attr where
  "zero_attr = (let zero = \<lparr>tv_sec = 0, tv_nsec = 0\<rparr> in
     \<lparr>fa_filename = None, fa_gfid = 0, fa_is_laminated = 0, fa_is_shared = 0, fa_mode = 0, fa_uid = 0, fa_gid = 0,
      fa_size = 0, fa_atime = zero, fa_mtime = zero, fa_ctime = zero, fa_last_update = 0\<rparr>)"

definition inode_key :: "int \<Rightarrow> inode" where
  "inode_key gfid = \<lparr>ino_gfid = gfid, ino_attr = zero_attr, ino_extents = None, ino_pending = None\<rparr>"

definition unifyfs_inode_tree_init :: "inode rbt" where
  "unifyfs_inode_tree_init = Null"

definition unifyfs_inode_tree_insert :: "inode rbt \<Rightarrow> inode \<Rightarrow> (unifyfs_rc \<times> inode rbt) option" where
  "unifyfs_inode_tree_insert tree ino =
     (if ino_gfid ino \<noteq> fa_gfid (ino_attr ino) then Some (EINVAL, tree)
      else case RB_FIND uit_compare_func tree ino of
        Some existing \<Rightarrow> Some (EEXIST, tree)
      | None \<Rightarrow> do { (tree, dup) \<leftarrow> RB_INSERT uit_compare_func tree ino; Some (UNIFYFS_SUCCESS, tree) })"

definition unifyfs_inode_tree_search :: "inode rbt \<Rightarrow> int \<Rightarrow> inode option" where
  "unifyfs_inode_tree_search tree gfid = RB_FIND uit_compare_func tree (inode_key gfid)"

definition unifyfs_inode_tree_remove :: "inode rbt \<Rightarrow> int \<Rightarrow> (unifyfs_rc \<times> inode rbt \<times> inode option) option" where
  "unifyfs_inode_tree_remove tree gfid =
     (case unifyfs_inode_tree_search tree gfid of
        None \<Rightarrow> Some (ENOENT, tree, None)
      | Some ino \<Rightarrow> do { tree \<leftarrow> RB_REMOVE tree ino; Some (UNIFYFS_SUCCESS, tree, Some ino) })"

definition unifyfs_inode_tree_iter :: "inode rbt \<Rightarrow> inode option \<Rightarrow> inode option option" where
  "unifyfs_inode_tree_iter tree start =
     (case start of
        None \<Rightarrow> Some (RB_MIN tree)
      | Some start \<Rightarrow> (case RB_FIND uit_compare_func tree start of
            None \<Rightarrow> Some None
          | Some next \<Rightarrow> RB_NEXT tree start))"

text \<open>The loop around \<^verbatim>\<open>unifyfs_inode_tree_iter\<close>; it gathers the inodes.\<close>

partial_function (option) inode_tree_loop :: "inode rbt \<Rightarrow> inode option \<Rightarrow> inode list option" where
  "inode_tree_loop tree node = do {
     node \<leftarrow> unifyfs_inode_tree_iter tree node;
     case node of
       None \<Rightarrow> Some []
     | Some node \<Rightarrow> do { nodes \<leftarrow> inode_tree_loop tree (Some node); Some (node # nodes) }
   }"

partial_function (option) inode_tree_clear_loop ::
  "(nat \<Rightarrow> bool) \<Rightarrow> inode rbt \<Rightarrow> inode option \<Rightarrow> inode option \<Rightarrow> server_state \<Rightarrow> (inode rbt \<times> server_state) option" where
  "inode_tree_clear_loop al tree node oldnode st = do {
     node \<leftarrow> unifyfs_inode_tree_iter tree node;
     (tree, st) \<leftarrow> (case oldnode of
         None \<Rightarrow> Some (tree, st)
       | Some old \<Rightarrow> do {
           tree \<leftarrow> RB_REMOVE tree old;
           (rc, st) \<leftarrow> unifyfs_inode_destroy al old st;
           Some (tree, st)
         });
     case node of
       None \<Rightarrow> Some (tree, st)
     | Some n \<Rightarrow> inode_tree_clear_loop al tree (Some n) (Some n) st
   }"

definition unifyfs_inode_tree_clear :: "(nat \<Rightarrow> bool) \<Rightarrow> server_state \<Rightarrow> server_state option" where
  "unifyfs_inode_tree_clear al st =
     (if sv_inodes st = Null then Some st
      else do {
        (tree, st) \<leftarrow> inode_tree_clear_loop al (sv_inodes st) None None st;
        Some (st\<lparr>sv_inodes := tree\<rparr>)
      })"

definition unifyfs_inode_tree_destroy :: "(nat \<Rightarrow> bool) \<Rightarrow> server_state \<Rightarrow> server_state option" where
  "unifyfs_inode_tree_destroy al st = unifyfs_inode_tree_clear al st"

section \<open>Operations on inodes\<close>

definition unifyfs_inode_alloc :: "(nat \<Rightarrow> bool) \<Rightarrow> int \<Rightarrow> int \<Rightarrow> file_attr \<Rightarrow> inode option" where
  "unifyfs_inode_alloc al now gfid attr =
     (if al 0 \<and> al 1 then
        Some \<lparr>ino_gfid = gfid,
              ino_attr = snd (unifyfs_file_attr_update now (al 2) UNIFYFS_FILE_ATTR_OP_CREATE
                                unifyfs_file_attr_set_invalid attr),
              ino_extents = Some extent_tree_init, ino_pending = None\<rparr>
      else None)"

definition unifyfs_inode_lookup :: "server_state \<Rightarrow> int \<Rightarrow> inode option" where
  "unifyfs_inode_lookup st gfid = unifyfs_inode_tree_search (sv_inodes st) gfid"

definition set_inode :: "server_state \<Rightarrow> inode \<Rightarrow> inode \<Rightarrow> server_state" where
  "set_inode st ino ino' = st\<lparr>sv_inodes := rb_assign (sv_inodes st) ino ino'\<rparr>"

definition unifyfs_inode_create ::
  "(nat \<Rightarrow> bool) \<Rightarrow> int \<Rightarrow> int \<Rightarrow> file_attr option \<Rightarrow> server_state \<Rightarrow> (unifyfs_rc \<times> server_state) option" where
  "unifyfs_inode_create al now gfid attr st =
     (case attr of
        None \<Rightarrow> Some (EINVAL, st)
      | Some attr \<Rightarrow> (case unifyfs_inode_alloc al now gfid attr of
            None \<Rightarrow> Some (ENOMEM, st)
          | Some ino \<Rightarrow> do {
              (ret, tree) \<leftarrow> unifyfs_inode_tree_insert (sv_inodes st) ino;
              if ret \<noteq> UNIFYFS_SUCCESS then do {
                (rc, st) \<leftarrow> unifyfs_inode_destroy (\<lambda>i. al (i + 3)) ino st;
                Some (ret, st)
              } else Some (ret, st\<lparr>sv_inodes := tree\<rparr>)
            }))"

definition unifyfs_inode_update_attr ::
  "int \<Rightarrow> bool \<Rightarrow> int \<Rightarrow> file_attr_op \<Rightarrow> file_attr option \<Rightarrow> server_state \<Rightarrow> unifyfs_rc \<times> server_state" where
  "unifyfs_inode_update_attr now dup gfid attr_op attr st =
     (case attr of
        None \<Rightarrow> (EINVAL, st)
      | Some attr \<Rightarrow> (case unifyfs_inode_lookup st gfid of
            None \<Rightarrow> (ENOENT, st)
          | Some ino \<Rightarrow> (UNIFYFS_SUCCESS, set_inode st ino
              (ino\<lparr>ino_attr := snd (unifyfs_file_attr_update now dup attr_op (ino_attr ino) attr)\<rparr>))))"

definition unifyfs_inode_metaset ::
  "(nat \<Rightarrow> bool) \<Rightarrow> int \<Rightarrow> int \<Rightarrow> file_attr_op \<Rightarrow> file_attr option \<Rightarrow> server_state \<Rightarrow> (unifyfs_rc \<times> server_state) option" where
  "unifyfs_inode_metaset al now gfid attr_op attr st =
     (if attr_op = UNIFYFS_FILE_ATTR_OP_CREATE then unifyfs_inode_create al now gfid attr st
      else Some (unifyfs_inode_update_attr now (al 0) gfid attr_op attr st))"

definition unifyfs_inode_metaget :: "server_state \<Rightarrow> int \<Rightarrow> unifyfs_rc \<times> file_attr option" where
  "unifyfs_inode_metaget st gfid =
     (case unifyfs_inode_lookup st gfid of
        Some ino \<Rightarrow> (UNIFYFS_SUCCESS, Some (ino_attr ino))
      | None \<Rightarrow> (ENOENT, None))"

definition unifyfs_inode_unlink :: "(nat \<Rightarrow> bool) \<Rightarrow> int \<Rightarrow> server_state \<Rightarrow> (unifyfs_rc \<times> server_state) option" where
  "unifyfs_inode_unlink al gfid st = do {
     (ret, tree, removed) \<leftarrow> unifyfs_inode_tree_remove (sv_inodes st) gfid;
     case removed of
       None \<Rightarrow> Some (ret, st\<lparr>sv_inodes := tree\<rparr>)
     | Some ino \<Rightarrow> unifyfs_inode_destroy al ino (st\<lparr>sv_inodes := tree\<rparr>)
   }"

text \<open>\<open>dbg\<close> says whether debug messages are logged.\<close>

definition unifyfs_inode_truncate :: "bool \<Rightarrow> int \<Rightarrow> u64 \<Rightarrow> server_state \<Rightarrow> (unifyfs_rc \<times> server_state) option" where
  "unifyfs_inode_truncate dbg gfid trunc_size st =
     (case unifyfs_inode_lookup st gfid of
        None \<Rightarrow> Some (ENOENT, st)
      | Some ino \<Rightarrow>
          if fa_is_laminated (ino_attr ino) \<noteq> 0 then Some (EINVAL, st)
          else
            let ino' = ino\<lparr>ino_attr := (ino_attr ino)\<lparr>fa_size := trunc_size\<rparr>\<rparr> in
            (case ino_extents ino of
               None \<Rightarrow> Some (UNIFYFS_SUCCESS, set_inode st ino ino')
             | Some T \<Rightarrow> do {
                 (ret, T) \<leftarrow> extent_tree_truncate dbg T trunc_size;
                 Some (ret, set_inode st ino (ino'\<lparr>ino_extents := Some T\<rparr>))
               }))"

text \<open>\<open>al 0\<close> and \<open>al 1\<close> are the allocations of the list, \<open>al 2\<close> of the item, \<open>al 3\<close> of the growing array.\<close>

definition unifyfs_inode_add_pending_extents ::
  "(nat \<Rightarrow> bool) \<Rightarrow> int \<Rightarrow> nat \<Rightarrow> extent_metadata list \<Rightarrow> server_state \<Rightarrow> (unifyfs_rc \<times> server_state) option" where
  "unifyfs_inode_add_pending_extents al gfid client_req extents st =
     (case unifyfs_inode_lookup st gfid of
        None \<Rightarrow> Some (ENOENT, st)
      | Some ino \<Rightarrow>
          if fa_is_laminated (ino_attr ino) \<noteq> 0 then Some (EINVAL, st)
          else
            let pending = (case ino_pending ino of None \<Rightarrow> arraylist_create (al 0) (al 1) 0 | Some p \<Rightarrow> Some p) in
            (case pending of
               None \<Rightarrow> Some (ENOMEM, st)
             | Some p \<Rightarrow>
                 if \<not> al 2 then Some (ENOMEM, set_inode st ino (ino\<lparr>ino_pending := Some p\<rparr>))
                 else do {
                   (pos, freed, p) \<leftarrow> arraylist_add (al 3) p
                     \<lparr>pe_client_req = client_req, pe_num_extents = of_nat (length extents), pe_extents = extents\<rparr>;
                   Some (UNIFYFS_SUCCESS, set_inode st ino (ino\<lparr>ino_pending := Some p\<rparr>))
                 }))"

definition unifyfs_inode_has_pending_extents :: "server_state \<Rightarrow> int \<Rightarrow> bool" where
  "unifyfs_inode_has_pending_extents st gfid =
     (case unifyfs_inode_lookup st gfid of None \<Rightarrow> False | Some ino \<Rightarrow> ino_pending ino \<noteq> None)"

definition unifyfs_inode_get_pending_extents ::
  "int \<Rightarrow> server_state \<Rightarrow> unifyfs_rc \<times> pending_extents_item arraylist option \<times> server_state" where
  "unifyfs_inode_get_pending_extents gfid st =
     (case unifyfs_inode_lookup st gfid of
        None \<Rightarrow> (ENOENT, None, st)
      | Some ino \<Rightarrow> (case ino_pending ino of
            None \<Rightarrow> (UNIFYFS_SUCCESS, None, st)
          | Some p \<Rightarrow> (UNIFYFS_SUCCESS, Some p, set_inode st ino (ino\<lparr>ino_pending := None\<rparr>))))"

fun add_extents_loop ::
  "(nat \<Rightarrow> nat \<Rightarrow> bool) \<Rightarrow> nat \<Rightarrow> extent_tree \<Rightarrow> extent_metadata list \<Rightarrow> (unifyfs_rc \<times> extent_tree) option" where
  "add_extents_loop al i T [] = Some (UNIFYFS_SUCCESS, T)"
| "add_extents_loop al i T (x # xs) = do {
     (ret, T) \<leftarrow> extent_tree_add (al i) T x;
     if ret \<noteq> UNIFYFS_SUCCESS then Some (ret, T) else add_extents_loop al (i + 1) T xs
   }"

definition unifyfs_inode_add_extents ::
  "(nat \<Rightarrow> nat \<Rightarrow> bool) \<Rightarrow> int \<Rightarrow> extent_metadata list \<Rightarrow> server_state \<Rightarrow> (unifyfs_rc \<times> server_state) option" where
  "unifyfs_inode_add_extents al gfid extents st =
     (case unifyfs_inode_lookup st gfid of
        None \<Rightarrow> Some (ENOENT, st)
      | Some ino \<Rightarrow>
          if fa_is_laminated (ino_attr ino) \<noteq> 0 then Some (EINVAL, st)
          else (case ino_extents ino of
             None \<Rightarrow> Some (UNIFYFS_SUCCESS, st)
           | Some T \<Rightarrow> do {
               (ret, T) \<leftarrow> add_extents_loop al 0 T extents;
               let ino' = ino\<lparr>ino_extents := Some T\<rparr> in
               if ret \<noteq> UNIFYFS_SUCCESS then Some (ret, set_inode st ino ino')
               else
                 let extent_sz = extent_tree_max_offset T + 1 in
                 Some (ret, set_inode st ino
                   (if extent_sz > fa_size (ino_attr ino)
                    then ino'\<lparr>ino_attr := (ino_attr ino)\<lparr>fa_size := extent_sz\<rparr>\<rparr> else ino'))
             }))"

definition unifyfs_inode_get_filesize :: "server_state \<Rightarrow> int \<Rightarrow> unifyfs_rc \<times> u64" where
  "unifyfs_inode_get_filesize st gfid =
     (case unifyfs_inode_lookup st gfid of
        None \<Rightarrow> (ENOENT, 0)
      | Some ino \<Rightarrow> (UNIFYFS_SUCCESS, fa_size (ino_attr ino)))"

definition unifyfs_inode_laminate :: "int \<Rightarrow> server_state \<Rightarrow> unifyfs_rc \<times> server_state" where
  "unifyfs_inode_laminate gfid st =
     (case unifyfs_inode_lookup st gfid of
        None \<Rightarrow> (ENOENT, st)
      | Some ino \<Rightarrow> (UNIFYFS_SUCCESS, set_inode st ino (ino\<lparr>ino_attr := (ino_attr ino)\<lparr>fa_is_laminated := 1\<rparr>\<rparr>)))"

section \<open>Queries\<close>

text \<open>The array has as many elements as the tree counts; storing more of them overruns it.\<close>

definition unifyfs_inode_get_extents ::
  "bool \<Rightarrow> server_state \<Rightarrow> int \<Rightarrow> (unifyfs_rc \<times> u64 \<times> extent_metadata list) option" where
  "unifyfs_inode_get_extents ok st gfid =
     (case unifyfs_inode_lookup st gfid of
        None \<Rightarrow> Some (ENOENT, 0, [])
      | Some ino \<Rightarrow> (case ino_extents ino of
            None \<Rightarrow> None
          | Some T \<Rightarrow>
              if \<not> ok then Some (ENOMEM, 0, [])
              else do {
                nodes \<leftarrow> extent_tree_iter_loop (et_head T) None;
                if length nodes > unat (et_count T) then None
                else Some (UNIFYFS_SUCCESS, et_count T, nodes @ replicate (unat (et_count T) - length nodes)
                  \<lparr>ext_start = 0, ext_end = 0, ext_log_pos = 0, ext_svr_rank = 0, ext_app_id = 0, ext_cli_id = 0\<rparr>)
              }))"

record unifyfs_extent =
  xt_offset :: u64
  xt_length :: u64
  xt_gfid :: int

text \<open>
  \<open>n0\<close> and \<open>chunks0\<close> are the values of the output parameters before the call: they stay when the inode
  has no extent tree. The result is the return code, the number of chunks, the chunks, and the
  coverage.
\<close>

definition unifyfs_inode_get_extent_chunks ::
  "(nat \<Rightarrow> bool) \<Rightarrow> u32 \<Rightarrow> chunk_read_req list option \<Rightarrow> server_state \<Rightarrow> unifyfs_extent
   \<Rightarrow> (unifyfs_rc \<times> u32 \<times> chunk_read_req list option \<times> bool) option" where
  "unifyfs_inode_get_extent_chunks al n0 chunks0 st extent = do {
     (ret, n_chunks, chunks, covered) \<leftarrow>
       (case unifyfs_inode_lookup st (xt_gfid extent) of
          None \<Rightarrow> Some (ENOENT, n0, chunks0, False)
        | Some ino \<Rightarrow> (case ino_extents ino of
              None \<Rightarrow> Some (UNIFYFS_SUCCESS, n0, chunks0, False)
            | Some T \<Rightarrow> extent_tree_get_chunk_list al T (xt_offset extent) (xt_length extent)));
     if ret = UNIFYFS_SUCCESS
     then Some (ret, n_chunks, map_option (map (\<lambda>c. c\<lparr>crr_gfid := xt_gfid extent\<rparr>)) chunks, covered)
     else Some (ret, 0, None, False)
   }"

definition compare_chunk_read_reqs :: "chunk_read_req \<Rightarrow> chunk_read_req \<Rightarrow> int" where
  "compare_chunk_read_reqs c1 c2 =
     (if crr_rank c1 > crr_rank c2 then 1
      else if crr_rank c1 < crr_rank c2 then - 1
      else if crr_offset c1 > crr_offset c2 then 1
      else if crr_offset c1 < crr_offset c2 then - 1 else 0)"

text \<open>
  The loop of \<^verbatim>\<open>unifyfs_inode_resolve_extent_chunks\<close> over the requested extents gives the chunks of each
  extent and whether all are covered. Row \<open>i + 1\<close> of the oracle answers the allocations for extent \<open>i\<close>.
\<close>

fun resolve_loop ::
  "(nat \<Rightarrow> nat \<Rightarrow> bool) \<Rightarrow> nat \<Rightarrow> server_state \<Rightarrow> unifyfs_extent list
   \<Rightarrow> (unifyfs_rc \<times> chunk_read_req list list \<times> bool) option" where
  "resolve_loop al i st [] = Some (UNIFYFS_SUCCESS, [], True)"
| "resolve_loop al i st (x # xs) = do {
     (ret, n, chunks, covered) \<leftarrow> unifyfs_inode_get_extent_chunks (al (i + 1)) 0 None st x;
     if ret \<noteq> UNIFYFS_SUCCESS then Some (ret, [], False)
     else do {
       (ret, rest, covered') \<leftarrow> resolve_loop al (i + 1) st xs;
       Some (ret, (case chunks of None \<Rightarrow> [] | Some cs \<Rightarrow> cs) # rest, covered \<and> covered')
     }
   }"

text \<open>
  \<open>qsort\<close> is the sorting function of the C library with \<^verbatim>\<open>compare_chunk_read_reqs\<close>. The count of all
  chunks is 32 bits wide; with more chunks the flat array is overrun.
\<close>

definition unifyfs_inode_resolve_extent_chunks ::
  "(chunk_read_req list \<Rightarrow> chunk_read_req list) \<Rightarrow> (nat \<Rightarrow> nat \<Rightarrow> bool) \<Rightarrow> server_state \<Rightarrow> unifyfs_extent list
   \<Rightarrow> (unifyfs_rc \<times> u32 \<times> chunk_read_req list option \<times> bool) option" where
  "unifyfs_inode_resolve_extent_chunks qsort al st extents =
     (if \<not> al 0 0 then Some (ENOMEM, 0, None, False)
      else do {
        (ret, resolved, fully_covered) \<leftarrow> resolve_loop al 0 st extents;
        if ret \<noteq> UNIFYFS_SUCCESS then Some (ret, 0, None, False)
        else
          let all = concat resolved in
          if 2 ^ 32 \<le> length all then None
          else if all = [] then Some (UNIFYFS_SUCCESS, 0, None, fully_covered)
          else if \<not> al 0 1 then Some (ENOMEM, 0, None, False)
          else Some (UNIFYFS_SUCCESS, of_nat (length all),
                 Some (if length all > 1 then qsort all else all), fully_covered)
      })"

text \<open>
  \<^verbatim>\<open>unifyfs_get_gfids\<close>; \<open>cap\<close> is the size of the array, which doubles when it is full; \<open>al i\<close> is the
  outcome of the \<open>i\<close>-th allocation.
\<close>

fun gfid_list_loop :: "(nat \<Rightarrow> bool) \<Rightarrow> nat \<Rightarrow> int \<Rightarrow> int list \<Rightarrow> inode list \<Rightarrow> (unifyfs_rc \<times> int list) option" where
  "gfid_list_loop al i cap gfids [] = Some (UNIFYFS_SUCCESS, gfids)"
| "gfid_list_loop al i cap gfids (node # nodes) =
     (if int (length gfids) = cap then do {
        cap \<leftarrow> c_int (cap * 2);
        if al i then gfid_list_loop al (i + 1) cap (gfids @ [ino_gfid node]) nodes else Some (ENOMEM, [])
      } else gfid_list_loop al i cap (gfids @ [ino_gfid node]) nodes)"

definition unifyfs_get_gfids :: "(nat \<Rightarrow> bool) \<Rightarrow> server_state \<Rightarrow> (unifyfs_rc \<times> int list) option" where
  "unifyfs_get_gfids al st =
     (if \<not> al 0 then Some (ENOMEM, [])
      else do {
        nodes \<leftarrow> inode_tree_loop (sv_inodes st) None;
        gfid_list_loop al 1 64 [] nodes
      })"

text \<open>
  \<^verbatim>\<open>unifyfs_get_owned_files\<close>: the attributes of the inodes whose owner is this server. Copying the
  name of an inode without a name dereferences a null pointer; \<open>dup\<close> says whether names can be copied.
\<close>

fun owned_files_loop ::
  "(nat \<Rightarrow> bool) \<Rightarrow> bool \<Rightarrow> int \<Rightarrow> int \<Rightarrow> nat \<Rightarrow> u32 \<Rightarrow> file_attr list \<Rightarrow> inode list \<Rightarrow> (unifyfs_rc \<times> file_attr list) option" where
  "owned_files_loop al dup rank num_servers i cap attrs [] = Some (UNIFYFS_SUCCESS, attrs)"
| "owned_files_loop al dup rank num_servers i cap attrs (node # nodes) =
     (let grow = (of_nat (length attrs) = cap) in
      if grow \<and> \<not> al i then Some (ENOMEM, [])
      else
        let i = (if grow then i + 1 else i); cap = (if grow then cap * 2 else cap) in
        if hash_gfid_to_server num_servers (fa_gfid (ino_attr node)) = rank then
          (case fa_filename (ino_attr node) of
             None \<Rightarrow> None
           | Some name \<Rightarrow> owned_files_loop al dup rank num_servers i cap
               (attrs @ [(ino_attr node)\<lparr>fa_filename := (if dup then Some name else None)\<rparr>]) nodes)
        else owned_files_loop al dup rank num_servers i cap attrs nodes)"

definition unifyfs_get_owned_files ::
  "(nat \<Rightarrow> bool) \<Rightarrow> bool \<Rightarrow> int \<Rightarrow> server_state \<Rightarrow> (unifyfs_rc \<times> file_attr list) option" where
  "unifyfs_get_owned_files al dup num_servers st =
     (if \<not> al 0 then Some (ENOMEM, [])
      else do {
        nodes \<leftarrow> inode_tree_loop (sv_inodes st) None;
        owned_files_loop al dup (sv_rank st) num_servers 1 64 [] nodes
      })"

lemmas inode_loop_code [code] = inode_tree_loop.simps inode_tree_clear_loop.simps

section \<open>The files of a server\<close>

interpretation uit: rb_key_map ino_gfid uit_compare_func
  by unfold_locales (simp add: uit_compare_func_def)

interpretation uit_iter: rb_iter uit_compare_func "\<lambda>_. True" unifyfs_inode_tree_iter inode_tree_loop
  by unfold_locales (simp add: unifyfs_inode_tree_iter_def, subst inode_tree_loop.simps, rule refl)

text \<open>The abstract view of the inode tree: a finite map from global file ids to inodes.\<close>

definition inode_map :: "inode rbt \<Rightarrow> int \<Rightarrow> inode option" where
  "inode_map tree = map_of (map (\<lambda>ino. (ino_gfid ino, ino)) (rb_inorder tree))"

definition inodes_ok :: "inode rbt \<Rightarrow> bool" where
  "inodes_ok tree \<longleftrightarrow> rb_ok tree \<and> sorted_wrt (<) (map ino_gfid (rb_inorder tree))"

lemma key_map_inode [simp]: "uit.key_map = inode_map" "uit.map_ok = inodes_ok"
  by (simp_all add: fun_eq_iff inode_map_def uit.key_map_def inodes_ok_def uit.map_ok_def)

lemmas inode_find = uit.find_key [unfolded key_map_inode]
  and inode_insert = uit.insert_key [unfolded key_map_inode]
  and inode_remove = uit.remove_key [unfolded key_map_inode]
  and inode_assign = uit.assign_key [unfolded key_map_inode]
  and inode_map_Some = uit.key_map_Some [unfolded key_map_inode]

definition files :: "server_state \<Rightarrow> int \<Rightarrow> inode option" where
  "files st = inode_map (sv_inodes st)"

lemma lookup_files: "inodes_ok (sv_inodes st) \<Longrightarrow> unifyfs_inode_lookup st gfid = files st gfid"
  by (simp add: unifyfs_inode_lookup_def unifyfs_inode_tree_search_def inode_find files_def inode_key_def)

lemma set_inode_files:
  assumes "inodes_ok (sv_inodes st)" "files st g = Some ino" "ino_gfid ino' = g"
  shows "inodes_ok (sv_inodes (set_inode st ino ino'))" "files (set_inode st ino ino') = (files st)(g \<mapsto> ino')"
  using inode_assign [of "sv_inodes st" g ino ino'] assms by (simp_all add: set_inode_def files_def)

lemma files_gfid: "inodes_ok (sv_inodes st) \<Longrightarrow> files st g = Some ino \<Longrightarrow> ino_gfid ino = g"
  by (simp add: files_def inode_map_Some)

text \<open>
  An inode is in order when its attributes have its id and its extent tree and pending list are in
  order; the state is, when the tree and all inodes are. \<open>extent_ok\<close> is what the senders of extents
  guarantee: the extent is not empty and does not reach the last 64-bit offset.
\<close>

definition inode_ok :: "inode \<Rightarrow> bool" where
  "inode_ok ino \<longleftrightarrow> fa_gfid (ino_attr ino) = ino_gfid ino \<and>
     (\<exists>T. ino_extents ino = Some T \<and> ext_inv T \<and> et_max T < - 1) \<and> pred_option arr_ok (ino_pending ino)"

definition server_inv :: "server_state \<Rightarrow> bool" where
  "server_inv st \<longleftrightarrow> inodes_ok (sv_inodes st) \<and> (\<forall>g ino. files st g = Some ino \<longrightarrow> inode_ok ino)"

definition extent_ok :: "extent_metadata \<Rightarrow> bool" where
  "extent_ok x \<longleftrightarrow> ext_start x \<le> ext_end x \<and> ext_end x < - 1"

lemma server_invD:
  assumes "server_inv st"
  shows "inodes_ok (sv_inodes st)" "unifyfs_inode_lookup st g = files st g"
    "files st g = Some ino \<Longrightarrow> inode_ok ino \<and> ino_gfid ino = g"
  using assms lookup_files files_gfid by (auto simp: server_inv_def)

lemma server_inv_set:
  assumes "server_inv st" "files st g = Some ino" "inode_ok ino'" "ino_gfid ino' = g"
  shows "server_inv (set_inode st ino ino')" "files (set_inode st ino ino') = (files st)(g \<mapsto> ino')"
  using set_inode_files [OF server_invD(1) [OF assms(1)] assms(2,4)] assms(1,3) by (auto simp: server_inv_def)

lemma server_inv_cong:
  "sv_inodes st' = sv_inodes st \<Longrightarrow> server_inv st' = server_inv st" "sv_inodes st' = sv_inodes st \<Longrightarrow> files st' = files st"
  by (simp_all add: server_inv_def files_def)

lemma destroy_inodes:
  assumes "unifyfs_inode_destroy al ino st = Some (rc, st')"
  shows "sv_inodes st' = sv_inodes st \<and> sv_rank st' = sv_rank st \<and> rc = UNIFYFS_SUCCESS"
  using assms by (auto simp: unifyfs_inode_destroy_def bind_eq_Some_conv split: option.splits)

section \<open>What each operation does\<close>

lemma alloc_ok:
  assumes "unifyfs_inode_alloc al now gfid attr = Some ino"
  shows "ino_gfid ino = gfid" "ino_extents ino = Some extent_tree_init" "ino_pending ino = None"
  using assms by (auto simp: unifyfs_inode_alloc_def split: if_splits)

lemma create_spec:
  assumes inv: "server_inv st" and run: "unifyfs_inode_create al now gfid attr st = Some (rc, st')"
  shows "server_inv st' \<and> (rc \<noteq> UNIFYFS_SUCCESS \<and> files st' = files st \<or>
     rc = UNIFYFS_SUCCESS \<and> files st gfid = None \<and>
     (\<exists>a ino. attr = Some a \<and> unifyfs_inode_alloc al now gfid a = Some ino \<and> files st' = (files st)(gfid \<mapsto> ino)))"
proof (cases "\<exists>a ino. attr = Some a \<and> unifyfs_inode_alloc al now gfid a = Some ino")
  case False
  then show ?thesis using run inv by (auto simp: unifyfs_inode_create_def split: option.splits)
next
  case True
  then obtain a ino where a: "attr = Some a" "unifyfs_inode_alloc al now gfid a = Some ino" by auto
  note ino = alloc_ok [OF a(2)]
  have find: "RB_FIND uit_compare_func (sv_inodes st) ino = files st gfid"
    using inode_find [OF server_invD(1) [OF inv], of ino] ino(1) by (simp add: files_def)
  show ?thesis
  proof (cases "fa_gfid (ino_attr ino) = gfid \<and> files st gfid = None")
    case False
    then have "\<exists>e. e \<noteq> UNIFYFS_SUCCESS \<and> unifyfs_inode_tree_insert (sv_inodes st) ino = Some (e, sv_inodes st)"
      using find ino(1) by (auto simp: unifyfs_inode_tree_insert_def)
    then obtain e where "e \<noteq> UNIFYFS_SUCCESS" "unifyfs_inode_tree_insert (sv_inodes st) ino = Some (e, sv_inodes st)"
      by blast
    then have "\<exists>rc'. unifyfs_inode_destroy (\<lambda>i. al (i + 3)) ino st = Some (rc', st')" "rc \<noteq> UNIFYFS_SUCCESS"
      using run a by (auto simp: unifyfs_inode_create_def bind_eq_Some_conv)
    then show ?thesis using inv destroy_inodes server_inv_cong by blast
  next
    case True
    then obtain t where t: "RB_INSERT uit_compare_func (sv_inodes st) ino = Some (t, None)" "inodes_ok t"
      "inode_map t = (inode_map (sv_inodes st))(gfid \<mapsto> ino)"
      using inode_insert [OF server_invD(1) [OF inv], of ino] ino(1) by (auto simp: files_def)
    then have "rc = UNIFYFS_SUCCESS \<and> st' = st\<lparr>sv_inodes := t\<rparr>"
      using run a True ino(1) find by (simp add: unifyfs_inode_create_def unifyfs_inode_tree_insert_def)
    moreover have "inode_ok ino" using ino True by (simp add: inode_ok_def) (simp add: extent_tree_init_def word_gt_0)
    ultimately show ?thesis using t inv a True by (auto simp: server_inv_def files_def)
  qed
qed

text \<open>The operations that look a file up and change its inode in place.\<close>

definition changed :: "server_state \<Rightarrow> server_state \<Rightarrow> int \<Rightarrow> inode \<Rightarrow> bool" where
  "changed st st' gfid ino' \<longleftrightarrow> server_inv st' \<and> files st' = (files st)(gfid \<mapsto> ino')"

lemma changed_set:
  assumes "server_inv st" "files st g = Some ino" "inode_ok ino'" "ino_gfid ino' = g"
  shows "changed st (set_inode st ino ino') g ino'"
  using server_inv_set [OF assms] by (simp add: changed_def)

lemma update_attr_spec:
  assumes inv: "server_inv st" and op: "attr_op \<noteq> UNIFYFS_FILE_ATTR_OP_CREATE"
    and run: "unifyfs_inode_update_attr now dup gfid attr_op attr st = (rc, st')"
  shows "rc \<noteq> UNIFYFS_SUCCESS \<and> st' = st \<or> rc = UNIFYFS_SUCCESS \<and> (\<exists>a ino. attr = Some a \<and> files st gfid = Some ino \<and>
     changed st st' gfid (ino\<lparr>ino_attr := snd (unifyfs_file_attr_update now dup attr_op (ino_attr ino) a)\<rparr>))"
  using run op server_invD(2,3) [OF inv, of gfid] changed_set [OF inv, of gfid]
  by (auto simp: unifyfs_inode_update_attr_def inode_ok_def attr_update_gfid split: option.splits)

lemma unlink_spec:
  assumes inv: "server_inv st" and run: "unifyfs_inode_unlink al gfid st = Some (rc, st')"
  shows "server_inv st' \<and> files st' = (files st)(gfid := None) \<and> (rc = UNIFYFS_SUCCESS \<longleftrightarrow> files st gfid \<noteq> None)"
proof (cases "files st gfid")
  case None
  then show ?thesis using run inv server_invD(2) [OF inv, of gfid]
    by (auto simp: unifyfs_inode_unlink_def unifyfs_inode_tree_remove_def unifyfs_inode_lookup_def fun_upd_idem)
next
  case (Some ino)
  then obtain t where t: "RB_REMOVE (sv_inodes st) ino = Some t" "inodes_ok t"
    "inode_map t = (inode_map (sv_inodes st))(gfid := None)"
    using inode_remove [OF server_invD(1) [OF inv]] by (auto simp: files_def)
  then have "unifyfs_inode_destroy al ino (st\<lparr>sv_inodes := t\<rparr>) = Some (rc, st')"
    using run Some server_invD(2) [OF inv, of gfid]
    by (simp add: unifyfs_inode_unlink_def unifyfs_inode_tree_remove_def unifyfs_inode_lookup_def)
  from destroy_inodes [OF this] have "sv_inodes st' = t" "rc = UNIFYFS_SUCCESS" by simp_all
  then show ?thesis using t inv Some by (auto simp: server_inv_def files_def)
qed

lemma truncate_spec:
  assumes inv: "server_inv st" and run: "unifyfs_inode_truncate dbg gfid sz st = Some (rc, st')"
  shows "rc \<noteq> UNIFYFS_SUCCESS \<and> st' = st \<or> rc = UNIFYFS_SUCCESS \<and> (\<exists>ino T T'. files st gfid = Some ino \<and>
     fa_is_laminated (ino_attr ino) = 0 \<and> ino_extents ino = Some T \<and> 
     ext_map T' = (\<lambda>b. if b < sz then ext_map T b else None) \<and>
     changed st st' gfid (ino\<lparr>ino_attr := (ino_attr ino)\<lparr>fa_size := sz\<rparr>, ino_extents := Some T'\<rparr>))"
proof (cases "\<exists>ino. files st gfid = Some ino \<and> fa_is_laminated (ino_attr ino) = 0")
  case False
  then show ?thesis using run server_invD(2) [OF inv, of gfid]
    by (auto simp: unifyfs_inode_truncate_def split: option.splits)
next
  case True
  then obtain ino where ino: "files st gfid = Some ino" "fa_is_laminated (ino_attr ino) = 0" by auto
  then have ok: "inode_ok ino" "ino_gfid ino = gfid" using server_invD(3) [OF inv] by auto
  then obtain T where T: "ino_extents ino = Some T" "ext_inv T" "et_max T < - 1" by (auto simp: inode_ok_def)
  obtain T' where T': "extent_tree_truncate dbg T sz = Some (rc, T')"
    "st' = set_inode st ino (ino\<lparr>ino_attr := (ino_attr ino)\<lparr>fa_size := sz\<rparr>, ino_extents := Some T'\<rparr>)"
    using run ino T(1) server_invD(2) [OF inv, of gfid] by (auto simp: unifyfs_inode_truncate_def bind_eq_Some_conv)
  note tr = ext_truncate_Some [OF T(2) T'(1)]
  then have "inode_ok (ino\<lparr>ino_attr := (ino_attr ino)\<lparr>fa_size := sz\<rparr>, ino_extents := Some T'\<rparr>)"
    using ok T by (auto simp: inode_ok_def)
  then show ?thesis using changed_set [OF inv ino(1)] ok(2) T(1) tr T'(2) ino by auto
qed

lemma arraylist_add_ok:
  assumes "arr_ok arr" "arraylist_add ok arr x = Some (pos, freed, arr')"
  shows "arr_ok arr'"
  using assms
  by (auto simp: arraylist_add_def arraylist_insert_def elem_at_def arr_ok_def bind_eq_Some_conv c_int_def split: if_splits)

lemma add_pending_spec:
  assumes inv: "server_inv st" and run: "unifyfs_inode_add_pending_extents al gfid req extents st = Some (rc, st')"
  shows "st' = st \<or> (\<exists>ino p. files st gfid = Some ino \<and> fa_is_laminated (ino_attr ino) = 0 \<and>
     changed st st' gfid (ino\<lparr>ino_pending := p\<rparr>))"
proof (cases "\<exists>ino. files st gfid = Some ino \<and> fa_is_laminated (ino_attr ino) = 0")
  case False
  then show ?thesis using run server_invD(2) [OF inv, of gfid]
    by (auto simp: unifyfs_inode_add_pending_extents_def split: option.splits)
next
  case True
  then obtain ino where ino: "files st gfid = Some ino" "fa_is_laminated (ino_attr ino) = 0" by auto
  then have ok: "inode_ok ino" "ino_gfid ino = gfid" using server_invD(3) [OF inv] by auto
  define pending where "pending = (case ino_pending ino of None \<Rightarrow> arraylist_create (al 0) (al 1) 0 | Some p \<Rightarrow> Some p)"
  have pend: "arr_ok p" if "pending = Some p" for p
    using that ok(1) arraylist_create_ok(1) by (auto simp: pending_def inode_ok_def split: option.splits)
  have set_p: "changed st (set_inode st ino (ino\<lparr>ino_pending := Some p\<rparr>)) gfid (ino\<lparr>ino_pending := Some p\<rparr>)"
    if "arr_ok p" for p
    using changed_set [OF inv ino(1)] ok that by (simp add: inode_ok_def)
  show ?thesis
    using run ino server_invD(2) [OF inv, of gfid] pend set_p arraylist_add_ok
    by (fastforce simp: unifyfs_inode_add_pending_extents_def pending_def [symmetric] bind_eq_Some_conv
        split: option.splits if_splits)
qed

lemma get_pending_spec:
  assumes inv: "server_inv st" and run: "unifyfs_inode_get_pending_extents gfid st = (rc, p, st')"
  shows "st' = st \<or> (\<exists>ino. files st gfid = Some ino \<and> p = ino_pending ino \<and> changed st st' gfid (ino\<lparr>ino_pending := None\<rparr>))"
  using run server_invD(2,3) [OF inv, of gfid] changed_set [OF inv, of gfid]
  by (auto simp: unifyfs_inode_get_pending_extents_def inode_ok_def split: option.splits)

lemma laminate_spec:
  assumes inv: "server_inv st" and run: "unifyfs_inode_laminate gfid st = (rc, st')"
  shows "rc \<noteq> UNIFYFS_SUCCESS \<and> st' = st \<and> files st gfid = None \<or>
    rc = UNIFYFS_SUCCESS \<and> (\<exists>ino. files st gfid = Some ino \<and>
      changed st st' gfid (ino\<lparr>ino_attr := (ino_attr ino)\<lparr>fa_is_laminated := 1\<rparr>\<rparr>))"
  using run server_invD(2,3) [OF inv, of gfid] changed_set [OF inv, of gfid]
  by (auto simp: unifyfs_inode_laminate_def inode_ok_def split: option.splits)

text \<open>The extents that arrive are written one after the other; a failure stops in the middle.\<close>

lemma add_extents_loop_spec:
  assumes "ext_inv T" "et_max T < - 1" "\<forall>x \<in> set xs. extent_ok x"
  shows "\<exists>rc T'. add_extents_loop al i T xs = Some (rc, T') \<and> ext_inv T' \<and> et_max T' < - 1 \<and>
    ((\<forall>i j. al i j) \<longrightarrow> rc = UNIFYFS_SUCCESS) \<and> (rc = UNIFYFS_SUCCESS \<longrightarrow> (\<forall>b. ext_map T' b =
      (case last_write ext_start ext_end ext_place xs b of Some v \<Rightarrow> Some v | None \<Rightarrow> ext_map T b)))"
  using assms
proof (induction xs arbitrary: T i)
  case (Cons x xs)
  have x: "ext_start x \<le> ext_end x" "ext_end x < - 1" using Cons.prems(3) by (simp_all add: extent_ok_def)
  show ?case
  proof (rule ext_add_cases [OF Cons.prems(1) x(1), of "al i"])
    fix T1
    assume T1: "extent_tree_add (al i) T x = Some (UNIFYFS_SUCCESS, T1)" "ext_inv T1"
      "ext_map T1 = overwrite (ext_start x) (ext_end x) (ext_place x) (ext_map T)" "et_max T1 = max (et_max T) (ext_end x)"
    then have "et_max T1 < - 1" using x(2) Cons.prems(2) by (simp add: max_def)
    with Cons.IH [OF T1(2), of "i + 1"] Cons.prems(3) T1 show ?thesis
      by (auto simp: overwrite_def split: option.split)
  next
    fix T1
    assume "extent_tree_add (al i) T x = Some (ENOMEM, T1)" "ext_inv T1" "\<not> (\<forall>j. al i j)" "et_max T1 = et_max T"
    then show ?thesis using Cons.prems(2) by auto
  qed
qed simp

text \<open>The size covers the extents: what \<^verbatim>\<open>add_extents\<close> and \<^verbatim>\<open>truncate\<close> are to maintain.\<close>

definition size_covers :: "inode \<Rightarrow> bool" where
  "size_covers ino \<longleftrightarrow> (\<forall>T b. ino_extents ino = Some T \<and> ext_map T b \<noteq> None \<longrightarrow> b < fa_size (ino_attr ino))"

lemma add_extents_spec:
  assumes inv: "server_inv st" and xs: "\<forall>x \<in> set xs. extent_ok x"
  shows "\<exists>rc st'. unifyfs_inode_add_extents al gfid xs st = Some (rc, st') \<and>
    ((\<nexists>ino. files st gfid = Some ino \<and> fa_is_laminated (ino_attr ino) = 0) \<and> rc \<noteq> UNIFYFS_SUCCESS \<and> st' = st \<or>
     (\<exists>ino T ino' T'. files st gfid = Some ino \<and> fa_is_laminated (ino_attr ino) = 0 \<and> changed st st' gfid ino' \<and>
        ino_extents ino = Some T \<and> ino_extents ino' = Some T' \<and>
        fa_is_laminated (ino_attr ino') = fa_is_laminated (ino_attr ino) \<and> 
        ((\<forall>i j. al i j) \<longrightarrow> rc = UNIFYFS_SUCCESS) \<and>
        (rc = UNIFYFS_SUCCESS \<longrightarrow> size_covers ino' \<and> fa_size (ino_attr ino) \<le> fa_size (ino_attr ino') \<and> (\<forall>b. ext_map T' b =
          (case last_write ext_start ext_end ext_place xs b of Some v \<Rightarrow> Some v | None \<Rightarrow> ext_map T b)))))"
proof (cases "\<exists>ino. files st gfid = Some ino \<and> fa_is_laminated (ino_attr ino) = 0")
  case False
  then show ?thesis using server_invD(2) [OF inv, of gfid]
    by (auto simp: unifyfs_inode_add_extents_def split: option.splits)
next
  case True
  then obtain ino where ino: "files st gfid = Some ino" "fa_is_laminated (ino_attr ino) = 0" by auto
  then have ok: "inode_ok ino" "ino_gfid ino = gfid" using server_invD(3) [OF inv] by auto
  then obtain T where T: "ino_extents ino = Some T" "ext_inv T" "et_max T < - 1" by (auto simp: inode_ok_def)
  obtain rc T' where T': "add_extents_loop al 0 T xs = Some (rc, T')" "ext_inv T'" "et_max T' < - 1"
    "(\<forall>i j. al i j) \<longrightarrow> rc = UNIFYFS_SUCCESS" "rc = UNIFYFS_SUCCESS \<longrightarrow> (\<forall>b. ext_map T' b =
      (case last_write ext_start ext_end ext_place xs b of Some v \<Rightarrow> Some v | None \<Rightarrow> ext_map T b))"
    using add_extents_loop_spec [OF T(2,3) xs, of al 0] by blast
  let ?sz = "et_max T' + 1"
  let ?new = "ino\<lparr>ino_extents := Some T'\<rparr>"
  define ino' where "ino' = (if rc = UNIFYFS_SUCCESS \<and> ?sz > fa_size (ino_attr ino)
      then ?new\<lparr>ino_attr := (ino_attr ino)\<lparr>fa_size := ?sz\<rparr>\<rparr> else ?new)"
  have run: "unifyfs_inode_add_extents al gfid xs st = Some (rc, set_inode st ino ino')"
    using ino T(1) T'(1) server_invD(2) [OF inv, of gfid]
    by (simp add: unifyfs_inode_add_extents_def Let_def extent_tree_max_offset_def ino'_def)
  have ino': "ino_extents ino' = Some T'" "fa_is_laminated (ino_attr ino') = fa_is_laminated (ino_attr ino)"
    "fa_size (ino_attr ino) \<le> fa_size (ino_attr ino')" "inode_ok ino'" "ino_gfid ino' = gfid"
    "rc = UNIFYFS_SUCCESS \<longrightarrow> ?sz \<le> fa_size (ino_attr ino')"
    using ok T' by (auto simp: ino'_def inode_ok_def)
  have "b < ?sz" if "ext_map T' b \<noteq> None" for b
    using le_less_trans [OF ext_invD(5) [OF T'(2) that] u64_less_succ [OF T'(3)]] .
  then have "rc = UNIFYFS_SUCCESS \<longrightarrow> size_covers ino'"
    using ino'(1,6) less_le_trans by (fastforce simp: size_covers_def)
  then show ?thesis using run ino ino' T(1) T'(4,5) changed_set [OF inv ino(1) ino'(4,5)] by blast
qed

section \<open>Runs of the server\<close>

text \<open>
  The requests that change files, with the outcomes of their allocations, and their execution: one
  call of the operation each. \<open>request_ok\<close> is what the callers guarantee: extents are proper, and the
  attributes sent with a lamination say that the file is laminated.
\<close>

datatype request =
    Metaset "nat \<Rightarrow> bool" int int file_attr_op "file_attr option"
  | Unlink "nat \<Rightarrow> bool" int
  | Truncate bool int u64
  | Add_pending "nat \<Rightarrow> bool" int nat "extent_metadata list"
  | Get_pending int
  | Add_extents "nat \<Rightarrow> nat \<Rightarrow> bool" int "extent_metadata list"
  | Laminate int

fun perform :: "request \<Rightarrow> server_state \<Rightarrow> (unifyfs_rc \<times> server_state) option" where
  "perform (Metaset al now gfid attr_op attr) st = unifyfs_inode_metaset al now gfid attr_op attr st"
| "perform (Unlink al gfid) st = unifyfs_inode_unlink al gfid st"
| "perform (Truncate dbg gfid sz) st = unifyfs_inode_truncate dbg gfid sz st"
| "perform (Add_pending al gfid req extents) st = unifyfs_inode_add_pending_extents al gfid req extents st"
| "perform (Get_pending gfid) st = (case unifyfs_inode_get_pending_extents gfid st of (rc, p, st) \<Rightarrow> Some (rc, st))"
| "perform (Add_extents al gfid extents) st = unifyfs_inode_add_extents al gfid extents st"
| "perform (Laminate gfid) st = Some (unifyfs_inode_laminate gfid st)"

fun run_requests :: "request list \<Rightarrow> server_state \<Rightarrow> server_state option" where
  "run_requests [] st = Some st"
| "run_requests (r # rs) st = do { (rc, st) \<leftarrow> perform r st; run_requests rs st }"

fun request_ok :: "request \<Rightarrow> bool" where
  "request_ok (Metaset al now gfid attr_op attr) =
     (attr_op = UNIFYFS_FILE_ATTR_OP_LAMINATE \<longrightarrow> (\<forall>a. attr = Some a \<longrightarrow> fa_is_laminated a \<noteq> 0))"
| "request_ok (Add_extents al gfid extents) = (\<forall>x \<in> set extents. extent_ok x)"
| "request_ok r = True"

fun is_unlink :: "int \<Rightarrow> request \<Rightarrow> bool" where
  "is_unlink gfid (Unlink al gfid') = (gfid' = gfid)"
| "is_unlink gfid r = False"

lemma metaset_spec:
  assumes inv: "server_inv st" and run: "unifyfs_inode_metaset al now gfid attr_op attr st = Some (rc, st')"
  shows "server_inv st' \<and> (files st' = files st \<or>
     attr_op = UNIFYFS_FILE_ATTR_OP_CREATE \<and> files st gfid = None \<and> (\<exists>ino. files st' = (files st)(gfid \<mapsto> ino)) \<or>
     attr_op \<noteq> UNIFYFS_FILE_ATTR_OP_CREATE \<and> (\<exists>dup a ino. attr = Some a \<and> files st gfid = Some ino \<and>
       files st' = (files st)(gfid \<mapsto> ino\<lparr>ino_attr := snd (unifyfs_file_attr_update now dup attr_op (ino_attr ino) a)\<rparr>)))"
proof (cases "attr_op = UNIFYFS_FILE_ATTR_OP_CREATE")
  case True
  then show ?thesis using create_spec [OF inv, of al now gfid attr rc st'] run by (auto simp: unifyfs_inode_metaset_def)
next
  case False
  then have "unifyfs_inode_update_attr now (al 0) gfid attr_op attr st = (rc, st')"
    using run by (simp add: unifyfs_inode_metaset_def)
  from update_attr_spec [OF inv False this] show ?thesis using inv False by (auto simp: changed_def)
qed

text \<open>One request keeps the invariant, and keeps a laminated file unless it unlinks it.\<close>

definition frozen :: "int \<Rightarrow> extent_tree option \<Rightarrow> server_state \<Rightarrow> bool" where
  "frozen gfid extents st \<longleftrightarrow>
     (\<exists>ino. files st gfid = Some ino \<and> fa_is_laminated (ino_attr ino) \<noteq> 0 \<and> ino_extents ino = extents)"

lemma perform_step:
  assumes inv: "server_inv st" and r: "request_ok r" and run: "perform r st = Some (rc, st')"
  shows "server_inv st' \<and> (frozen gfid X st \<and> \<not> is_unlink gfid r \<longrightarrow> frozen gfid X st')"
proof (cases r)
  case (Metaset al now g attr_op attr)
  then show ?thesis using metaset_spec [OF inv, of al now g attr_op attr rc st'] r run
    by (auto simp: frozen_def attr_update_laminated)
next
  case (Unlink al g)
  then show ?thesis using unlink_spec [OF inv, of al g rc st'] run by (auto simp: frozen_def)
next
  case (Truncate dbg g sz)
  then show ?thesis using truncate_spec [OF inv, of dbg g sz rc st'] run inv by (auto simp: frozen_def changed_def)
next
  case (Add_pending al g req extents)
  then show ?thesis using add_pending_spec [OF inv, of al g req extents rc st'] run inv
    by (auto simp: frozen_def changed_def)
next
  case (Get_pending g)
  then show ?thesis using get_pending_spec [OF inv, of g rc _ st'] run inv
    by (fastforce simp: frozen_def changed_def split: prod.splits)
next
  case (Add_extents al g extents)
  then show ?thesis using add_extents_spec [OF inv, of extents al g] run inv r
    by (auto simp: frozen_def changed_def)
next
  case (Laminate g)
  then show ?thesis using laminate_spec [OF inv, of g rc st'] run inv by (auto simp: frozen_def changed_def)
qed

lemma run_requests_inv:
  assumes "server_inv st" "\<forall>r \<in> set rs. request_ok r" "run_requests rs st = Some st'"
  shows "server_inv st'"
  using assms perform_step by (induction rs arbitrary: st) (fastforce simp: bind_eq_Some_conv)+

section \<open>Listing and clearing\<close>

lemma inode_tree_loop_all:
  assumes "inodes_ok tree"
  shows "inode_tree_loop tree None = Some (rb_inorder tree)"
  using uit_iter.sorted_collect_all uit.map_okD(1,2) assms by (simp add: key_map_inode)

lemma gfid_list_loop_spec:
  assumes "\<And>i. al i" "int (length gfids) \<le> cap" "1 \<le> cap" "length gfids + length nodes < 2 ^ 30"
  shows "gfid_list_loop al i cap gfids nodes = Some (UNIFYFS_SUCCESS, gfids @ map ino_gfid nodes)"
  using assms(2-)
proof (induction nodes arbitrary: i cap gfids)
  case (Cons node nodes)
  have "c_int (int (length gfids) * 2) = Some (int (length gfids) * 2)" using Cons.prems(3) by (simp add: c_int_Some)
  then show ?case using assms(1) Cons by auto
qed simp

lemma clear_loop_Null:
  assumes "inodes_ok tree" "rb_inorder tree = n # ns" "inode_tree_clear_loop al tree (Some n) (Some n) st = Some (tree', st')"
  shows "tree' = Null"
  using assms
proof (induction ns arbitrary: tree n st)
  case step: (Cons m ns)
  note ok = uit.map_okD [unfolded key_map_inode, OF step.prems(1)]
  have iter: "unifyfs_inode_tree_iter tree (Some n) = Some (Some m)"
    using uit_iter.sorted_iter_next [OF ok(2), of "[]" n "m # ns"] step.prems(2) by simp
  obtain t where t: "RB_REMOVE tree n = Some t" "rb_ok t" "rb_inorder t = m # ns"
    using RB_REMOVE_spec [OF ok(1), of "[]" n "m # ns"] ok(4) step.prems(2) by auto
  then have "inodes_ok t" using step.prems(1,2) by (simp add: inodes_ok_def)
  moreover obtain st1 where "inode_tree_clear_loop al t (Some m) (Some m) st1 = Some (tree', st')"
    using step.prems(3) iter t(1) by (subst (asm) inode_tree_clear_loop.simps) (auto simp: bind_eq_Some_conv)
  ultimately show ?case using step.IH [OF _ t(3)] by blast
next
  case Nil
  note ok = uit.map_okD [unfolded key_map_inode, OF Nil.prems(1)]
  have "unifyfs_inode_tree_iter tree (Some n) = Some None"
    using uit_iter.sorted_iter_next [OF ok(2), of "[]" n "[]"] Nil.prems(2) by simp
  moreover obtain t where "RB_REMOVE tree n = Some t" "rb_inorder t = []"
    using RB_REMOVE_spec [OF ok(1), of "[]" n "[]"] ok(4) Nil.prems(2) by auto
  ultimately show ?case using Nil.prems(3) by (subst (asm) inode_tree_clear_loop.simps) (auto simp: bind_eq_Some_conv)
qed

lemma tree_clear_empties:
  assumes "inodes_ok (sv_inodes st)" "unifyfs_inode_tree_clear al st = Some st'"
  shows "sv_inodes st' = Null"
proof (cases "rb_inorder (sv_inodes st)")
  case Nil
  then show ?thesis using assms(2) by (auto simp: unifyfs_inode_tree_clear_def)
next
  case (Cons n ns)
  then have "inode_tree_clear_loop al (sv_inodes st) None None st = inode_tree_clear_loop al (sv_inodes st) (Some n) (Some n) st"
    using uit_iter.iter_first [of "sv_inodes st"] by (subst inode_tree_clear_loop.simps) simp
  then show ?thesis using clear_loop_Null [OF assms(1) Cons] assms(2) Cons
    by (auto simp: unifyfs_inode_tree_clear_def bind_eq_Some_conv split: if_splits)
qed

section \<open>Resolving read requests\<close>

definition requested :: "unifyfs_extent \<Rightarrow> u64 \<Rightarrow> bool" where
  "requested x b \<longleftrightarrow> xt_offset x \<le> b \<and> b \<le> xt_offset x + xt_length x - 1"

definition file_extents :: "server_state \<Rightarrow> int \<Rightarrow> extent_tree option" where
  "file_extents st gfid = (case files st gfid of None \<Rightarrow> None | Some ino \<Rightarrow> ino_extents ino)"

definition file_map :: "server_state \<Rightarrow> int \<Rightarrow> u64 \<Rightarrow> (int \<times> int \<times> int \<times> u64) option" where
  "file_map st gfid b = (case file_extents st gfid of None \<Rightarrow> None | Some T \<Rightarrow> ext_map T b)"

lemma file_map_eq: "files st gfid = Some ino \<Longrightarrow> ino_extents ino = Some T \<Longrightarrow> file_map st gfid = ext_map T"
  by (simp add: file_map_def file_extents_def fun_eq_iff)

definition num_extents :: "server_state \<Rightarrow> int \<Rightarrow> nat" where
  "num_extents st gfid = (case file_extents st gfid of None \<Rightarrow> 0 | Some T \<Rightarrow> length (rb_inorder (et_head T)))"

text \<open>Chunks that describe exactly the bytes of a request that the file has.\<close>

definition chunks_of :: "server_state \<Rightarrow> unifyfs_extent \<Rightarrow> chunk_read_req list \<Rightarrow> bool" where
  "chunks_of st x cs \<longleftrightarrow> ivl_ok crr_offset crr_last cs \<and> (\<forall>c \<in> set cs. crr_gfid c = xt_gfid x) \<and>
     (\<forall>b. ivl_lookup crr_offset crr_last chunk_place cs b = (if requested x b then file_map st (xt_gfid x) b else None))"

definition resolvable :: "server_state \<Rightarrow> unifyfs_extent \<Rightarrow> bool" where
  "resolvable st x \<longleftrightarrow> files st (xt_gfid x) \<noteq> None \<and> xt_offset x \<le> xt_offset x + xt_length x - 1"

lemma chunk_gfid_fields:
  "crr_last (c\<lparr>crr_gfid := g\<rparr>) = crr_last c" "chunk_place (c\<lparr>crr_gfid := g\<rparr>) = chunk_place c"
  by (simp_all add: crr_last_def chunk_place_def fun_eq_iff)

lemma chunk_gfid_lookup:
  "ivl_ok crr_offset crr_last (map (\<lambda>c. c\<lparr>crr_gfid := g\<rparr>) cs) = ivl_ok crr_offset crr_last cs"
  "ivl_lookup crr_offset crr_last chunk_place (map (\<lambda>c. c\<lparr>crr_gfid := g\<rparr>) cs) b =
   ivl_lookup crr_offset crr_last chunk_place cs b"
  by (induction cs) (auto simp: ivl_ok_Cons chunk_gfid_fields)

lemma get_chunks_spec:
  assumes inv: "server_inv st" and x: "resolvable st x" and small: "num_extents st (xt_gfid x) < 2 ^ 32" and al: "al 0" "al 1"
  shows "\<exists>n chunks covered. unifyfs_inode_get_extent_chunks al n0 c0 st x = Some (UNIFYFS_SUCCESS, n, chunks, covered) \<and>
     (let cs = (case chunks of None \<Rightarrow> [] | Some cs \<Rightarrow> cs) in
      chunks_of st x cs \<and> length cs \<le> num_extents st (xt_gfid x)) \<and>
     (covered \<longleftrightarrow> (\<forall>b. requested x b \<longrightarrow> file_map st (xt_gfid x) b \<noteq> None))"
proof -
  obtain ino T where ino: "files st (xt_gfid x) = Some ino" "ino_extents ino = Some T" "ext_inv T"
    using x server_invD(3) [OF inv, of "xt_gfid x"] by (auto simp: resolvable_def inode_ok_def)
  then have T: "file_extents st (xt_gfid x) = Some T" by (simp add: file_extents_def)
  have m: "file_map st (xt_gfid x) b = ext_map T b" for b using T by (simp add: file_map_def)
  have "num_extents st (xt_gfid x) = length (rb_inorder (et_head T))" using T by (simp add: num_extents_def)
  then obtain n chunks covered where c: "extent_tree_get_chunk_list al T (xt_offset x) (xt_length x) =
      Some (UNIFYFS_SUCCESS, n, chunks, covered)"
    "let cs = (case chunks of None \<Rightarrow> [] | Some cs \<Rightarrow> cs) in length cs \<le> num_extents st (xt_gfid x) \<and>
      ivl_ok crr_offset crr_last cs \<and> (\<forall>b. ivl_lookup crr_offset crr_last chunk_place cs b = (if requested x b then ext_map T b else None))"
    "covered \<longleftrightarrow> (\<forall>b. requested x b \<longrightarrow> ext_map T b \<noteq> None)"
    using ext_chunk_list [OF ino(3) _ _ al, of "xt_offset x" "xt_length x"] x small
    by (auto simp: resolvable_def requested_def Let_def)
  let ?g = "map (\<lambda>c. c\<lparr>crr_gfid := xt_gfid x\<rparr>)"
  define cs where "cs = (case chunks of None \<Rightarrow> [] | Some cs \<Rightarrow> cs)"
  have run: "unifyfs_inode_get_extent_chunks al n0 c0 st x = Some (UNIFYFS_SUCCESS, n, map_option ?g chunks, covered)"
    using c(1) ino(1,2) server_invD(2) [OF inv] by (simp add: unifyfs_inode_get_extent_chunks_def)
  have eq: "(case map_option ?g chunks of None \<Rightarrow> [] | Some cs \<Rightarrow> cs) = ?g cs" by (cases chunks) (simp_all add: cs_def)
  have "chunks_of st x (?g cs) \<and> length (?g cs) \<le> num_extents st (xt_gfid x)"
    using c(2) unfolding cs_def [symmetric] Let_def by (auto simp: chunks_of_def m chunk_gfid_lookup)
  then show ?thesis using run c(3) unfolding m Let_def eq [symmetric] by blast
qed

lemma resolve_loop_spec:
  assumes inv: "server_inv st" and xs: "\<forall>x \<in> set xs. resolvable st x"
    and small: "(\<Sum>x\<leftarrow>xs. num_extents st (xt_gfid x)) < 2 ^ 32" and al: "\<forall>i j. al i j"
  shows "\<exists>css covered. resolve_loop al i st xs = Some (UNIFYFS_SUCCESS, css, covered) \<and> list_all2 (chunks_of st) xs css \<and>
     length (concat css) \<le> (\<Sum>x\<leftarrow>xs. num_extents st (xt_gfid x)) \<and>
     (covered \<longleftrightarrow> (\<forall>x \<in> set xs. \<forall>b. requested x b \<longrightarrow> file_map st (xt_gfid x) b \<noteq> None))"
  using xs small
proof (induction xs arbitrary: i)
  case (Cons x xs)
  obtain n chunks cov where c: "unifyfs_inode_get_extent_chunks (al (i + 1)) 0 None st x = Some (UNIFYFS_SUCCESS, n, chunks, cov)"
    "let cs = (case chunks of None \<Rightarrow> [] | Some cs \<Rightarrow> cs) in chunks_of st x cs \<and> length cs \<le> num_extents st (xt_gfid x)"
    "cov \<longleftrightarrow> (\<forall>b. requested x b \<longrightarrow> file_map st (xt_gfid x) b \<noteq> None)"
    using get_chunks_spec [OF inv, of x "al (i + 1)" 0 None] Cons.prems al by auto
  obtain css cov' where r: "resolve_loop al (i + 1) st xs = Some (UNIFYFS_SUCCESS, css, cov')" "list_all2 (chunks_of st) xs css"
     "length (concat css) \<le> (\<Sum>x\<leftarrow>xs. num_extents st (xt_gfid x))"
     "cov' \<longleftrightarrow> (\<forall>x \<in> set xs. \<forall>b. requested x b \<longrightarrow> file_map st (xt_gfid x) b \<noteq> None)"
    using Cons.IH [of "i + 1"] Cons.prems by auto
  show ?case using c r by (auto simp: Let_def split: option.splits)
qed auto

section \<open>Properties\<close>

text \<open>A server with the one file 5, whose bytes 0 to 9 are in the log of client 1 of application 7 on server 2.\<close>

definition inode_example :: "int \<Rightarrow> inode" where
  "inode_example laminated = \<lparr>ino_gfid = 5, ino_attr = zero_attr\<lparr>fa_gfid := 5, fa_size := 10, fa_is_laminated := laminated\<rparr>,
     ino_extents = Some ext_example, ino_pending = None\<rparr>"

definition server_example :: "int \<Rightarrow> server_state" where
  "server_example laminated = \<lparr>sv_inodes = Node RB_BLACK Null (inode_example laminated) Null, sv_clients = (\<lambda>_. None),
     sv_callbacks = [], sv_rank = 0\<rparr>"

definition extent_example :: extent_metadata where
  "extent_example = \<lparr>ext_start = 5, ext_end = 20, ext_log_pos = 0, ext_svr_rank = 0, ext_app_id = 7, ext_cli_id = 3\<rparr>"

lemma files_example: "files (server_example l) = [5 \<mapsto> inode_example l]"
  by (simp add: files_def server_example_def inode_map_def inode_example_def fun_eq_iff)

lemma server_example_ok: "inodes_ok (sv_inodes (server_example l))" "server_inv (server_example l)"
proof -
  show ok: "inodes_ok (sv_inodes (server_example l))" by (simp add: inodes_ok_def server_example_def rb_ok_def)
  have "et_max ext_example < - 1" by (simp add: ext_example_def)
  then have "inode_ok (inode_example l)" using ext_example_ok by (simp add: inode_ok_def inode_example_def)
  then show "server_inv (server_example l)" using ok by (simp add: server_inv_def files_example)
qed

text \<open>
  (C15) The inode tree implements a finite map from global file ids to inodes. On a well-formed tree
  every operation returns: the insertion adds an inode whose attributes have its id if the id is
  new and reports \<^verbatim>\<open>EEXIST\<close> or \<^verbatim>\<open>EINVAL\<close> and changes nothing otherwise; the search is the lookup; the
  removal deletes the id and gives back its inode; the iteration visits every inode once, in
  ascending order of the ids.
\<close>

theorem inode_tree_refines:
  assumes "inodes_ok tree"
  shows "unifyfs_inode_tree_search tree gfid = inode_map tree gfid \<and>
     (\<exists>rc tree'. unifyfs_inode_tree_insert tree ino = Some (rc, tree') \<and> inodes_ok tree' \<and>
      (if fa_gfid (ino_attr ino) \<noteq> ino_gfid ino then rc = EINVAL \<and> tree' = tree
       else if inode_map tree (ino_gfid ino) \<noteq> None then rc = EEXIST \<and> tree' = tree
       else rc = UNIFYFS_SUCCESS \<and> inode_map tree' = (inode_map tree)(ino_gfid ino \<mapsto> ino))) \<and>
     (\<exists>rc tree'. unifyfs_inode_tree_remove tree gfid = Some (rc, tree', inode_map tree gfid) \<and> inodes_ok tree' \<and>
      inode_map tree' = (inode_map tree)(gfid := None) \<and>
      rc = (if inode_map tree gfid = None then ENOENT else UNIFYFS_SUCCESS)) \<and>
     (\<exists>inodes. inode_tree_loop tree None = Some inodes \<and> sorted_wrt (<) (map ino_gfid inodes) \<and>
      set inodes = ran (inode_map tree))"
proof (intro conjI)
  show search: "unifyfs_inode_tree_search tree gfid = inode_map tree gfid"
    using inode_find [OF assms] by (simp add: unifyfs_inode_tree_search_def inode_key_def)
  show "\<exists>rc tree'. unifyfs_inode_tree_insert tree ino = Some (rc, tree') \<and> inodes_ok tree' \<and>
      (if fa_gfid (ino_attr ino) \<noteq> ino_gfid ino then rc = EINVAL \<and> tree' = tree
       else if inode_map tree (ino_gfid ino) \<noteq> None then rc = EEXIST \<and> tree' = tree
       else rc = UNIFYFS_SUCCESS \<and> inode_map tree' = (inode_map tree)(ino_gfid ino \<mapsto> ino))"
    using assms inode_find [OF assms, of ino]
    by (cases "inode_map tree (ino_gfid ino)")
      (auto simp: unifyfs_inode_tree_insert_def intro: inode_insert [OF assms, of ino])
  show "\<exists>rc tree'. unifyfs_inode_tree_remove tree gfid = Some (rc, tree', inode_map tree gfid) \<and> inodes_ok tree' \<and>
      inode_map tree' = (inode_map tree)(gfid := None) \<and>
      rc = (if inode_map tree gfid = None then ENOENT else UNIFYFS_SUCCESS)"
    using assms search
    by (cases "inode_map tree gfid")
      (auto simp: unifyfs_inode_tree_remove_def fun_upd_idem elim: inode_remove [OF assms])
  show "\<exists>inodes. inode_tree_loop tree None = Some inodes \<and> sorted_wrt (<) (map ino_gfid inodes) \<and>
      set inodes = ran (inode_map tree)"
    using inode_tree_loop_all [OF assms] assms inode_map_Some [OF assms] by (auto simp: inodes_ok_def ran_def)
qed

theorem inode_tree_refines_witness:
  "unifyfs_inode_tree_search (sv_inodes (server_example 0)) 5 = Some (inode_example 0) \<and>
   (\<exists>tree'. unifyfs_inode_tree_remove (sv_inodes (server_example 0)) 5 =
      Some (UNIFYFS_SUCCESS, tree', Some (inode_example 0)) \<and> inode_map tree' 5 = None)"
  using inode_tree_refines [OF server_example_ok(1), of 0 5 "inode_example 0"] files_example [of 0] by (auto simp: files_def)

text \<open>
  (C13) A laminated file stays as it is: no sequence of requests of any clients, on any files and with
  any outcome of the allocations, changes its extents or takes the lamination back, unless the file
  itself is unlinked.
\<close>

theorem laminated_file_frozen:
  assumes "server_inv st" and "\<forall>r \<in> set rs. request_ok r \<and> \<not> is_unlink gfid r"
    and "run_requests rs st = Some st'" and "frozen gfid extents st"
  shows "frozen gfid extents st'"
  using assms
proof (induction rs arbitrary: st)
  case (Cons r rs)
  then obtain rc st1 where st1: "perform r st = Some (rc, st1)" "run_requests rs st1 = Some st'"
    by (auto simp: bind_eq_Some_conv)
  then show ?case using perform_step [OF Cons.prems(1) _ st1(1)] Cons by auto
qed simp

theorem laminated_file_frozen_witness:
  "\<exists>st'. run_requests [Truncate False 5 0, Laminate 5, Add_extents (\<lambda>_ _. True) 5 [extent_example]] (server_example 1) = Some st' \<and>
     frozen 5 (Some ext_example) st'"
proof -
  let ?rs = "[Truncate False 5 0, Laminate 5, Add_extents (\<lambda>_ _. True) 5 [extent_example]]"
  have ok: "\<forall>r \<in> set ?rs. request_ok r \<and> \<not> is_unlink 5 r" by (simp add: extent_ok_def extent_example_def)
  have "run_requests ?rs (server_example 1) \<noteq> None" by code_simp
  then obtain st' where st': "run_requests ?rs (server_example 1) = Some st'" by blast
  have "frozen 5 (Some ext_example) (server_example 1)" by (simp add: frozen_def files_example inode_example_def)
  from laminated_file_frozen [OF server_example_ok(2) ok st' this] st' show ?thesis by blast
qed

text \<open>
  (C14) Starting with no files, every sequence of requests that returns leaves the server in a
  well-formed state: one inode for each file id, whose attributes have the same id, with a well-formed
  extent tree and pending list.
\<close>

theorem server_runs_well_formed:
  assumes "sv_inodes st = unifyfs_inode_tree_init" and "\<forall>r \<in> set rs. request_ok r" and "run_requests rs st = Some st'"
  shows "server_inv st'"
proof -
  have "server_inv st"
    using assms(1) by (simp add: server_inv_def files_def unifyfs_inode_tree_init_def inode_map_def inodes_ok_def rb_ok_def)
  then show ?thesis using assms(2,3) by (rule run_requests_inv)
qed

theorem server_runs_well_formed_witness:
  "\<exists>st'. run_requests [Metaset (\<lambda>_. True) 0 5 UNIFYFS_FILE_ATTR_OP_CREATE (Some (zero_attr\<lparr>fa_gfid := 5\<rparr>)),
       Add_extents (\<lambda>_ _. True) 5 [extent_example], Truncate False 5 8]
     \<lparr>sv_inodes = unifyfs_inode_tree_init, sv_clients = (\<lambda>_. None), sv_callbacks = [], sv_rank = 0\<rparr> = Some st' \<and> server_inv st'"
proof -
  let ?rs = "[Metaset (\<lambda>_. True) 0 5 UNIFYFS_FILE_ATTR_OP_CREATE (Some (zero_attr\<lparr>fa_gfid := 5\<rparr>)),
       Add_extents (\<lambda>_ _. True) 5 [extent_example], Truncate False 5 8]"
  let ?st = "\<lparr>sv_inodes = unifyfs_inode_tree_init, sv_clients = (\<lambda>_. None), sv_callbacks = [], sv_rank = 0\<rparr>"
  have ok: "\<forall>r \<in> set ?rs. request_ok r" by (simp add: extent_ok_def extent_example_def)
  have "run_requests ?rs ?st \<noteq> None" by code_simp
  then obtain st' where "run_requests ?rs ?st = Some st'" by blast
  with server_runs_well_formed [OF _ ok this] show ?thesis by simp
qed

text \<open>
  (C2) Adding extents to a file that is not laminated always returns. When all allocations succeed so
  does the call, and then every byte of the file is where the last of the extents over it puts it, or
  where it was before; the size is not smaller than before and covers every byte; all other files are
  unchanged.
\<close>

theorem add_extents_last_writer:
  assumes "server_inv st" and "\<forall>x \<in> set extents. extent_ok x"
    and "files st gfid = Some ino" and "fa_is_laminated (ino_attr ino) = 0" and "\<forall>i j. al i j"
  shows "\<exists>st' ino'. unifyfs_inode_add_extents al gfid extents st = Some (UNIFYFS_SUCCESS, st') \<and> server_inv st' \<and>
     files st' = (files st)(gfid \<mapsto> ino') \<and> size_covers ino' \<and> fa_size (ino_attr ino) \<le> fa_size (ino_attr ino') \<and>
     (\<forall>b. file_map st' gfid b = (case last_write ext_start ext_end ext_place extents b of
        Some v \<Rightarrow> Some v | None \<Rightarrow> file_map st gfid b))"
proof -
  from add_extents_spec [OF assms(1,2), of al gfid] assms(3-5) obtain st' T ino' T' where
    run: "unifyfs_inode_add_extents al gfid extents st = Some (UNIFYFS_SUCCESS, st')" and "changed st st' gfid ino'"
    and T: "ino_extents ino = Some T" "ino_extents ino' = Some T'" "\<forall>b. ext_map T' b =
          (case last_write ext_start ext_end ext_place extents b of Some v \<Rightarrow> Some v | None \<Rightarrow> ext_map T b)"
    and sz: "size_covers ino'" "fa_size (ino_attr ino) \<le> fa_size (ino_attr ino')" by auto
  then have st': "server_inv st'" "files st' = (files st)(gfid \<mapsto> ino')" by (simp_all add: changed_def)
  have m: "file_map st gfid = ext_map T" "file_map st' gfid = ext_map T'"
    using file_map_eq [of st gfid ino] file_map_eq [of st' gfid ino'] assms(3) T(1,2) st'(2) by simp_all
  have "\<forall>b. file_map st' gfid b = (case last_write ext_start ext_end ext_place extents b of
      Some v \<Rightarrow> Some v | None \<Rightarrow> file_map st gfid b)" unfolding m by (rule T(3))
  then show ?thesis using run st' sz by blast
qed

theorem add_extents_last_writer_witness:
  "\<exists>st'. unifyfs_inode_add_extents (\<lambda>_ _. True) 5 [extent_example] (server_example 0) = Some (UNIFYFS_SUCCESS, st') \<and>
     file_map st' 5 4 = Some (2, 7, 1, 104) \<and> file_map st' 5 6 = Some (0, 7, 3, 1)"
proof -
  have x: "\<forall>x \<in> set [extent_example]. extent_ok x" by (simp add: extent_ok_def extent_example_def)
  have f: "files (server_example 0) 5 = Some (inode_example 0)" "fa_is_laminated (ino_attr (inode_example 0)) = 0"
    by (simp_all add: files_example inode_example_def)
  have m: "file_map (server_example 0) 5 4 = Some (2, 7, 1, 104)"
    using file_map_eq [OF f(1)] by (simp add: inode_example_def ext_map_def ext_example_def ext_place_def)
  have "last_write ext_start ext_end ext_place [extent_example] 4 = None"
    "last_write ext_start ext_end ext_place [extent_example] 6 = Some (0, 7, 3, 1)"
    by (simp_all add: extent_example_def ext_place_def)
  with m add_extents_last_writer [OF server_example_ok(2) x f, of "\<lambda>_ _. True"] show ?thesis by auto
qed

text \<open>
  (C11) Resolving read requests for existing files gives chunks that describe exactly the bytes of each
  request that its file has: they are disjoint, name the file, and point to the server, client and log
  position of each byte. The request is reported as covered iff all requested bytes exist. \<open>qsort\<close>
  is only assumed to reorder the chunks.
\<close>

theorem resolve_extent_chunks_exact:
  assumes "server_inv st" and "\<forall>x \<in> set xs. resolvable st x"
    and "(\<Sum>x\<leftarrow>xs. num_extents st (xt_gfid x)) < 2 ^ 32" and "\<forall>i j. al i j" and "\<forall>cs. mset (qsort cs) = mset cs"
  shows "\<exists>css chunks covered. unifyfs_inode_resolve_extent_chunks qsort al st xs =
       Some (UNIFYFS_SUCCESS, of_nat (length (concat css)), chunks, covered) \<and>
     list_all2 (chunks_of st) xs css \<and> mset (case chunks of None \<Rightarrow> [] | Some cs \<Rightarrow> cs) = mset (concat css) \<and>
     (covered \<longleftrightarrow> (\<forall>x \<in> set xs. \<forall>b. requested x b \<longrightarrow> file_map st (xt_gfid x) b \<noteq> None))"
proof -
  obtain css covered where r: "resolve_loop al 0 st xs = Some (UNIFYFS_SUCCESS, css, covered)" "list_all2 (chunks_of st) xs css"
     "length (concat css) \<le> (\<Sum>x\<leftarrow>xs. num_extents st (xt_gfid x))"
     "covered \<longleftrightarrow> (\<forall>x \<in> set xs. \<forall>b. requested x b \<longrightarrow> file_map st (xt_gfid x) b \<noteq> None)"
    using resolve_loop_spec [OF assms(1-4)] by blast
  have "\<not> 2 ^ 32 \<le> length (concat css)" using r(3) assms(3) by linarith
  then show ?thesis
    using r(1,2) assms(4,5) unfolding r(4) [symmetric]
    by (intro exI [of _ css], cases "concat css = []")
      (simp_all add: unifyfs_inode_resolve_extent_chunks_def Let_def del: concat_eq_Nil_conv)
qed

theorem resolve_extent_chunks_exact_witness:
  "\<exists>n chunks. unifyfs_inode_resolve_extent_chunks (\<lambda>cs. cs) (\<lambda>_ _. True) (server_example 0)
     [\<lparr>xt_offset = 8, xt_length = 4, xt_gfid = 5\<rparr>] = Some (UNIFYFS_SUCCESS, n, chunks, False)"
proof -
  let ?x = "\<lparr>xt_offset = 8, xt_length = 4, xt_gfid = 5\<rparr>"
  have x: "\<forall>x \<in> set [?x]. resolvable (server_example 0) x" by (simp add: resolvable_def files_example)
  have n: "(\<Sum>x\<leftarrow>[?x]. num_extents (server_example 0) (xt_gfid x)) < 2 ^ 32"
    by (simp add: num_extents_def file_extents_def files_example inode_example_def ext_example_def)
  have m: "file_map (server_example 0) 5 10 = None" "requested ?x 10"
    using file_map_eq [of "server_example 0" 5 "inode_example 0" ext_example]
    by (simp_all add: files_example inode_example_def ext_map_def ext_example_def requested_def)
  from resolve_extent_chunks_exact [where al = "\<lambda>_ _. True" and qsort = "\<lambda>cs. cs", OF server_example_ok(2) x n
      allI [OF allI [OF TrueI]] allI [OF refl]] obtain n chunks covered
    where r: "unifyfs_inode_resolve_extent_chunks (\<lambda>cs. cs) (\<lambda>_ _. True) (server_example 0) [?x] =
       Some (UNIFYFS_SUCCESS, n, chunks, covered)"
     "covered \<longleftrightarrow> (\<forall>x \<in> set [?x]. \<forall>b. requested x b \<longrightarrow> file_map (server_example 0) (xt_gfid x) b \<noteq> None)"
    by blast
  have "\<not> covered" unfolding r(2) using m by auto
  with r(1) show ?thesis by auto
qed

text \<open>
  (C31) When the allocations succeed, the list of files has the id of every file exactly once, in
  ascending order.
\<close>

theorem get_gfids_complete:
  assumes "inodes_ok (sv_inodes st)" and "\<forall>i. al i" and "length (rb_inorder (sv_inodes st)) < 2 ^ 30"
  shows "\<exists>gfids. unifyfs_get_gfids al st = Some (UNIFYFS_SUCCESS, gfids) \<and> sorted_wrt (<) gfids \<and> set gfids = dom (files st)"
proof -
  have "unifyfs_get_gfids al st = Some (UNIFYFS_SUCCESS, map ino_gfid (rb_inorder (sv_inodes st)))"
    using assms inode_tree_loop_all [OF assms(1)] gfid_list_loop_spec [of al "[]" 64 "rb_inorder (sv_inodes st)" 1]
    by (simp add: unifyfs_get_gfids_def)
  moreover have "dom (files st) = ino_gfid ` set (rb_inorder (sv_inodes st))"
    by (auto simp: files_def inode_map_def dom_map_of_conv_image_fst image_image)
  ultimately show ?thesis using assms(1) by (auto simp: inodes_ok_def)
qed

theorem get_gfids_complete_witness:
  "\<exists>gfids. unifyfs_get_gfids (\<lambda>_. True) (server_example 0) = Some (UNIFYFS_SUCCESS, gfids) \<and> set gfids = {5}"
proof -
  have "length (rb_inorder (sv_inodes (server_example 0))) < 2 ^ 30" by (simp add: server_example_def)
  from get_gfids_complete [OF server_example_ok(1) _ this, of "\<lambda>_. True"] show ?thesis by (auto simp: files_example)
qed

end
