(* ===== verification/Client_Fid.thy ===== *)
theory Client_Fid
  imports Seg_Tree Free_Stack Logio File_Attr
begin

text \<open>
  The files of a client: \<^verbatim>\<open>client/src/unifyfs_fid.c\<close>. A client has an array of names and an array of
  metadata, both indexed by the local file id, a stack of free ids, its write log and the index of
  writes that it passes to the server. Writes go to the log; the segment tree \<open>extents_sync\<close> of a file
  has the writes that the server does not know yet, and \<open>extents\<close> all writes, when the client keeps
  them.

  The calls of the server are parameters: the record \<open>client_rpcs\<close> has one function for each remote
  procedure the file works with, on a server state of any type. \<^term>\<open>None\<close> is a call that does not
  return. The server shares the write log and the index with the client, so the calls that touch them
  get them as arguments. A call of an operation runs as a whole: the mutexes are not modelled.
\<close>

section \<open>State\<close>

datatype file_storage = FILE_STORAGE_NULL | FILE_STORAGE_LOGIO

record filemeta =
  fm_fid :: int
  fm_storage :: file_storage
  fm_pending_unlink :: bool
  fm_needs_writes_sync :: bool
  fm_needs_reads_sync :: bool
  fm_extents_sync :: seg_tree
  fm_extents :: seg_tree
  fm_attrs :: file_attr

record filename =
  fn_in_use :: bool
  fn_name :: string

record index_entry =
  ix_file_pos :: u64
  ix_log_pos :: u64
  ix_length :: u64
  ix_gfid :: int

record client =
  cl_app_id :: int
  cl_client_id :: int
  use_excl_private :: bool
  use_local_extents :: bool
  use_node_local_extents :: bool
  use_write_sync :: bool
  max_files :: int
  max_write_index_entries :: u64
  cl_free_fids :: unifyfs_stack
  cl_filelist :: "filename list"
  cl_filemetas :: "filemeta list"
  cl_index :: "index_entry list"
  cl_logio :: logio_context

record 's client_rpcs =
  rpc_metaset :: "file_attr_op \<Rightarrow> file_attr \<Rightarrow> 's \<Rightarrow> (unifyfs_rc \<times> 's) option"
  rpc_metaget :: "int \<Rightarrow> 's \<Rightarrow> (unifyfs_rc \<times> file_attr \<times> 's) option"
  rpc_sync :: "int \<Rightarrow> index_entry list \<Rightarrow> 's \<Rightarrow> (unifyfs_rc \<times> 's) option"
  rpc_filesize :: "int \<Rightarrow> 's \<Rightarrow> (unifyfs_rc \<times> u64 \<times> 's) option"
  rpc_truncate :: "int \<Rightarrow> u64 \<Rightarrow> 's \<Rightarrow> (unifyfs_rc \<times> 's) option"
  rpc_unlink :: "int \<Rightarrow> logio_context \<Rightarrow> 's \<Rightarrow> (unifyfs_rc \<times> logio_context \<times> 's) option"
  rpc_laminate :: "int \<Rightarrow> 's \<Rightarrow> (unifyfs_rc \<times> 's) option"

text \<open>
  What a call takes from its environment: the MD5 digest of paths, the clock, the user and group, and
  the outcomes of allocations and of the system calls that write.
\<close>

record client_env =
  en_md5 :: "string \<Rightarrow> u64"
  en_now :: timespec
  en_uid :: u32
  en_gid :: u32
  en_alloc :: "nat \<Rightarrow> nat \<Rightarrow> bool"
  en_pwrite :: io_outcome

definition UNIFYFS_MAX_FILENAME :: nat where
  "UNIFYFS_MAX_FILENAME = 1024"

definition S_IFMT :: u32 where "S_IFMT = 0xF000"
definition S_IFREG :: u32 where "S_IFREG = 0x8000"
definition S_IFDIR :: u32 where "S_IFDIR = 0x4000"
definition UNIFYFS_STAT_DEFAULT_FILE_MODE :: u32 where "UNIFYFS_STAT_DEFAULT_FILE_MODE = 0x81A4"
definition O_RDONLY :: u32 where "O_RDONLY = 0"
definition O_WRONLY :: u32 where "O_WRONLY = 1"
definition O_RDWR :: u32 where "O_RDWR = 2"
definition O_CREAT :: u32 where "O_CREAT = 0x40"
definition O_EXCL :: u32 where "O_EXCL = 0x80"
definition O_TRUNC :: u32 where "O_TRUNC = 0x200"
definition O_APPEND :: u32 where "O_APPEND = 0x400"
definition O_DIRECTORY :: u32 where "O_DIRECTORY = 0x10000"

text \<open>Access to the arrays; outside of them it is \<^term>\<open>None\<close>.\<close>

definition meta_at :: "client \<Rightarrow> int \<Rightarrow> filemeta option" where
  "meta_at c fid = (if 0 \<le> fid \<and> nat fid < length (cl_filemetas c) then Some (cl_filemetas c ! nat fid) else None)"

definition name_at :: "client \<Rightarrow> int \<Rightarrow> filename option" where
  "name_at c fid = (if 0 \<le> fid \<and> nat fid < length (cl_filelist c) then Some (cl_filelist c ! nat fid) else None)"

definition set_meta :: "client \<Rightarrow> int \<Rightarrow> filemeta \<Rightarrow> client" where
  "set_meta c fid meta = c\<lparr>cl_filemetas := (cl_filemetas c)[nat fid := meta]\<rparr>"

definition set_name :: "client \<Rightarrow> int \<Rightarrow> filename \<Rightarrow> client" where
  "set_name c fid name = c\<lparr>cl_filelist := (cl_filelist c)[nat fid := name]\<rparr>"

section \<open>File ids and storage\<close>

text \<open>A negative error code is \<^term>\<open>Inl\<close> of the error.\<close>

definition unifyfs_fid_alloc :: "client \<Rightarrow> ((unifyfs_rc + int) \<times> client) option" where
  "unifyfs_fid_alloc c = do {
     (fid, stack) \<leftarrow> unifyfs_stack_pop (cl_free_fids c);
     let c = c\<lparr>cl_free_fids := stack\<rparr> in
     if fid < 0 then Some (Inl EMFILE, c) else Some (Inr fid, c)
   }"

definition unifyfs_fid_free :: "client \<Rightarrow> int \<Rightarrow> (unifyfs_rc \<times> client) option" where
  "unifyfs_fid_free c fid = do {
     stack \<leftarrow> unifyfs_stack_push (cl_free_fids c) fid;
     Some (UNIFYFS_SUCCESS, c\<lparr>cl_free_fids := stack\<rparr>)
   }"

text \<open>The log space of writes that have not been synchronised; errors are only reported.\<close>

fun free_unsynced :: "logio_context \<Rightarrow> seg_tree_node list \<Rightarrow> logio_context option" where
  "free_unsynced logio [] = Some logio"
| "free_unsynced logio (node # nodes) = do {
     (rc, logio) \<leftarrow> unifyfs_logio_free logio (stn_ptr node) (stn_end node - stn_start node + 1);
     free_unsynced logio nodes
   }"

text \<open>Whether an unlink is pending, the measure of the recursion below.\<close>

definition pending_at :: "client \<Rightarrow> int \<Rightarrow> nat" where
  "pending_at c fid = (case meta_at c fid of Some m \<Rightarrow> if fm_pending_unlink m then 1 else 0 | None \<Rightarrow> 0)"

lemma pending_at_simps [simp]:
  "meta_at c fid = Some m \<Longrightarrow> pending_at (set_meta c fid (m\<lparr>fm_pending_unlink := False\<rparr>)) fid = 0"
  "meta_at c fid = Some m \<Longrightarrow> fm_pending_unlink m \<Longrightarrow> pending_at c fid = 1"
  "pending_at (set_name c i n) fid = pending_at c fid"
  by (auto simp: pending_at_def meta_at_def set_meta_def set_name_def split: if_splits)

text \<open>
  The lookup of the metadata deletes a file whose unlink callback has arrived; deleting frees the
  storage, and freeing the storage looks the metadata up again.
\<close>

function unifyfs_get_meta_from_fid :: "client \<Rightarrow> int \<Rightarrow> (filemeta option \<times> client) option"
  and unifyfs_fid_delete :: "client \<Rightarrow> int \<Rightarrow> (unifyfs_rc \<times> client) option"
  and fid_storage_free :: "client \<Rightarrow> int \<Rightarrow> (unifyfs_rc \<times> client) option" where
  "unifyfs_get_meta_from_fid c fid =
     (if 0 \<le> fid \<and> fid < max_files c then
        (case meta_at c fid of
           None \<Rightarrow> None
         | Some meta \<Rightarrow>
             if fid = fm_fid meta \<and> fm_pending_unlink meta then do {
               (rc, c) \<leftarrow> unifyfs_fid_delete (set_meta c fid (meta\<lparr>fm_pending_unlink := False\<rparr>)) fid;
               Some (None, c)
             } else Some (Some meta, c))
      else Some (None, c))"
| "unifyfs_fid_delete c fid =
     (case name_at c fid of
        None \<Rightarrow> None
      | Some name \<Rightarrow> do {
          (rc, c) \<leftarrow> fid_storage_free (set_name c fid \<lparr>fn_in_use = False, fn_name = ''''\<rparr>) fid;
          if rc \<noteq> UNIFYFS_SUCCESS then Some (rc, c) else unifyfs_fid_free c fid
        })"
| "fid_storage_free c fid = do {
     (found, c) \<leftarrow> unifyfs_get_meta_from_fid c fid;
     case found of
       None \<Rightarrow> Some (UNIFYFS_FAILURE, c)
     | Some meta \<Rightarrow>
         if fid \<noteq> fm_fid meta then Some (UNIFYFS_FAILURE, c)
         else do {
           (meta, logio) \<leftarrow> (if fm_storage meta = FILE_STORAGE_LOGIO then do {
               nodes \<leftarrow> seg_tree_iter_loop (st_head (fm_extents_sync meta)) None;
               logio \<leftarrow> free_unsynced (cl_logio c) nodes;
               sync \<leftarrow> seg_tree_destroy (fm_extents_sync meta);
               extents \<leftarrow> (if use_local_extents c \<or> use_node_local_extents c
                 then seg_tree_destroy (fm_extents meta) else Some (fm_extents meta));
               Some (meta\<lparr>fm_extents_sync := sync, fm_extents := extents\<rparr>, logio)
             } else Some (meta, cl_logio c));
           Some (UNIFYFS_SUCCESS, set_meta (c\<lparr>cl_logio := logio\<rparr>) fid
             (meta\<lparr>fm_storage := FILE_STORAGE_NULL, fm_fid := - 1\<rparr>))
         }
   }"
  by pat_completeness auto

termination
  by (relation "measure (case_sum (\<lambda>(c, fid). 3 * pending_at c fid)
       (case_sum (\<lambda>(c, fid). 3 * pending_at c fid + 2) (\<lambda>(c, fid). 3 * pending_at c fid + 1)))") auto

definition fid_storage_alloc :: "client \<Rightarrow> int \<Rightarrow> (unifyfs_rc \<times> client) option" where
  "fid_storage_alloc c fid = do {
     (found, c) \<leftarrow> unifyfs_get_meta_from_fid c fid;
     case found of
       None \<Rightarrow> Some (UNIFYFS_FAILURE, c)
     | Some meta \<Rightarrow>
         if fm_fid meta \<noteq> fid then Some (UNIFYFS_FAILURE, c)
         else
           let meta = meta\<lparr>fm_extents_sync := seg_tree_init\<rparr>;
               meta = (if use_local_extents c \<or> use_node_local_extents c then meta\<lparr>fm_extents := seg_tree_init\<rparr> else meta)
           in Some (UNIFYFS_SUCCESS, set_meta c fid (meta\<lparr>fm_storage := FILE_STORAGE_LOGIO\<rparr>))
   }"

section \<open>Queries\<close>

definition unifyfs_fid_is_laminated :: "client \<Rightarrow> int \<Rightarrow> (int \<times> client) option" where
  "unifyfs_fid_is_laminated c fid = do {
     (found, c) \<leftarrow> unifyfs_get_meta_from_fid c fid;
     case found of
       None \<Rightarrow> Some (0, c)
     | Some meta \<Rightarrow> Some (if fm_fid meta = fid then fa_is_laminated (fm_attrs meta) else 0, c)
   }"

definition unifyfs_fid_is_dir :: "client \<Rightarrow> int \<Rightarrow> (bool \<times> client) option" where
  "unifyfs_fid_is_dir c fid = do {
     (found, c) \<leftarrow> unifyfs_get_meta_from_fid c fid;
     case found of
       None \<Rightarrow> Some (False, c)
     | Some meta \<Rightarrow> Some (fa_mode (fm_attrs meta) AND S_IFDIR \<noteq> 0, c)
   }"

definition unifyfs_gfid_from_fid :: "client \<Rightarrow> int \<Rightarrow> (int \<times> client) option" where
  "unifyfs_gfid_from_fid c fid =
     (if fid < 0 \<or> max_files c \<le> fid then Some (- 1, c)
      else do {
        (found, c) \<leftarrow> unifyfs_get_meta_from_fid c fid;
        case found of None \<Rightarrow> Some (- 1, c) | Some meta \<Rightarrow> Some (fa_gfid (fm_attrs meta), c)
      })"

text \<open>The scans over the arrays; the result is the first index from \<open>i\<close> on.\<close>

fun scan_names :: "string \<Rightarrow> nat \<Rightarrow> filename list \<Rightarrow> int" where
  "scan_names path i [] = - 1"
| "scan_names path i (n # ns) =
     (if fn_in_use n \<and> strcmp (fn_name n) path = 0 then int i else scan_names path (i + 1) ns)"

fun scan_gfids :: "int \<Rightarrow> nat \<Rightarrow> (filename \<times> filemeta) list \<Rightarrow> int" where
  "scan_gfids gfid i [] = - 1"
| "scan_gfids gfid i ((n, m) # ns) =
     (if fn_in_use n \<and> fa_gfid (fm_attrs m) = gfid then int i else scan_gfids gfid (i + 1) ns)"

definition unifyfs_fid_from_path :: "client \<Rightarrow> string \<Rightarrow> int" where
  "unifyfs_fid_from_path c path = scan_names path 0 (take (nat (max_files c)) (cl_filelist c))"

definition unifyfs_fid_from_gfid :: "client \<Rightarrow> int \<Rightarrow> int" where
  "unifyfs_fid_from_gfid c gfid = scan_gfids gfid 0 (take (nat (max_files c)) (zip (cl_filelist c) (cl_filemetas c)))"

definition unifyfs_path_from_fid :: "client \<Rightarrow> int \<Rightarrow> string option option" where
  "unifyfs_path_from_fid c fid =
     (case name_at c fid of None \<Rightarrow> None | Some n \<Rightarrow> Some (if fn_in_use n then Some (fn_name n) else None))"

definition unifyfs_fid_global_size :: "client \<Rightarrow> int \<Rightarrow> (u64 \<times> client) option" where
  "unifyfs_fid_global_size c fid = do {
     (found, c) \<leftarrow> unifyfs_get_meta_from_fid c fid;
     case found of None \<Rightarrow> Some (- 1, c) | Some meta \<Rightarrow> Some (fa_size (fm_attrs meta), c)
   }"

section \<open>Creating files\<close>

definition unifyfs_fid_update_file_meta :: "client \<Rightarrow> int \<Rightarrow> file_attr \<Rightarrow> (unifyfs_rc \<times> client) option" where
  "unifyfs_fid_update_file_meta c fid gfattr = do {
     (found, c) \<leftarrow> unifyfs_get_meta_from_fid c fid;
     case found of
       None \<Rightarrow> Some (EINVAL, c)
     | Some meta \<Rightarrow> Some (UNIFYFS_SUCCESS, set_meta c fid (meta\<lparr>fm_attrs := gfattr\<rparr>))
   }"

definition unifyfs_set_global_file_meta ::
  "'s client_rpcs \<Rightarrow> int \<Rightarrow> file_attr_op \<Rightarrow> file_attr \<Rightarrow> 's \<Rightarrow> (unifyfs_rc \<times> 's) option" where
  "unifyfs_set_global_file_meta srv gfid attr_op gfattr s = rpc_metaset srv attr_op (gfattr\<lparr>fa_gfid := gfid\<rparr>) s"

definition unifyfs_get_global_file_meta ::
  "'s client_rpcs \<Rightarrow> int \<Rightarrow> 's \<Rightarrow> (unifyfs_rc \<times> file_attr option \<times> 's) option" where
  "unifyfs_get_global_file_meta srv gfid s = do {
     (ret, fmeta, s) \<leftarrow> rpc_metaget srv gfid s;
     Some (ret, if ret = UNIFYFS_SUCCESS then Some fmeta else None, s)
   }"

definition unifyfs_set_global_file_meta_from_fid ::
  "client_env \<Rightarrow> 's client_rpcs \<Rightarrow> int \<Rightarrow> file_attr_op \<Rightarrow> client \<times> 's \<Rightarrow> (unifyfs_rc \<times> client \<times> 's) option" where
  "unifyfs_set_global_file_meta_from_fid env srv fid op cs = (case cs of (c, s) \<Rightarrow> do {
     (found, c) \<leftarrow> unifyfs_get_meta_from_fid c fid;
     meta \<leftarrow> found;
     let fattr = unifyfs_file_attr_set_invalid\<lparr>fa_gfid := fa_gfid (fm_attrs meta)\<rparr>;
         fattr = snd (unifyfs_file_attr_update (tv_sec (en_now env)) (en_alloc env 0 0) op fattr (fm_attrs meta))
     in do {
       (ret, s) \<leftarrow> unifyfs_set_global_file_meta srv (fa_gfid fattr) op fattr s;
       Some (ret, c, s)
     }
   })"

definition new_attrs :: "client_env \<Rightarrow> string \<Rightarrow> bool \<Rightarrow> u32 \<Rightarrow> file_attr" where
  "new_attrs env path private mode = unifyfs_file_attr_set_invalid
     \<lparr>fa_gfid := unifyfs_generate_gfid (en_md5 env) path, fa_size := 0, fa_mode := mode, fa_is_laminated := 0,
      fa_is_shared := (if private then 0 else 1), fa_filename := Some path, fa_uid := en_uid env, fa_gid := en_gid env,
      fa_atime := en_now env, fa_mtime := en_now env, fa_ctime := en_now env\<rparr>"

definition unifyfs_fid_create_file :: "client_env \<Rightarrow> string \<Rightarrow> bool \<Rightarrow> client \<Rightarrow> ((unifyfs_rc + int) \<times> client) option" where
  "unifyfs_fid_create_file env path private c =
     (if length path + 1 > UNIFYFS_MAX_FILENAME then Some (Inl ENAMETOOLONG, c)
      else do {
        (res, c) \<leftarrow> unifyfs_fid_alloc c;
        case res of
          Inl e \<Rightarrow> Some (Inl e, c)
        | Inr fid \<Rightarrow> (case name_at c fid of
            None \<Rightarrow> None
          | Some _ \<Rightarrow> do {
              (found, c) \<leftarrow> unifyfs_get_meta_from_fid (set_name c fid \<lparr>fn_in_use = True, fn_name = path\<rparr>) fid;
              meta \<leftarrow> found;
              Some (Inr fid, set_meta c fid (meta
                \<lparr>fm_attrs := new_attrs env path private UNIFYFS_STAT_DEFAULT_FILE_MODE,
                 fm_fid := fid, fm_storage := FILE_STORAGE_NULL, fm_needs_writes_sync := False,
                 fm_needs_reads_sync := True, fm_pending_unlink := False\<rparr>))
            })
      })"

definition unifyfs_fid_create_directory ::
  "client_env \<Rightarrow> 's client_rpcs \<Rightarrow> string \<Rightarrow> client \<times> 's \<Rightarrow> (unifyfs_rc \<times> client \<times> 's) option" where
  "unifyfs_fid_create_directory env srv path cs = (case cs of (c, s) \<Rightarrow>
     if length path + 1 > UNIFYFS_MAX_FILENAME then Some (ENAMETOOLONG, c, s)
     else
       let found_local = (unifyfs_fid_from_path c path \<noteq> - 1) in do {
         (rc, gfattr, s) \<leftarrow> unifyfs_get_global_file_meta srv (unifyfs_generate_gfid (en_md5 env) path) s;
         let found_global = (rc = UNIFYFS_SUCCESS) in
         if found_local \<and> \<not> found_global then Some (EEXIST, c, s)
         else if found_local then Some (UNIFYFS_SUCCESS, c, s)
         else do {
           (res, c) \<leftarrow> unifyfs_fid_create_file env path False c;
           case res of
             Inl e \<Rightarrow> Some (e, c, s)
           | Inr fid \<Rightarrow> do {
               (found, c) \<leftarrow> unifyfs_get_meta_from_fid c fid;
               meta \<leftarrow> found;
               let attrs = fm_attrs meta; c = set_meta c fid (meta\<lparr>fm_attrs :=
                 attrs\<lparr>fa_mode := fa_mode attrs AND NOT S_IFREG OR S_IFDIR\<rparr>\<rparr>) in
               if found_global then Some (UNIFYFS_SUCCESS, c, s)
               else do {
                 (rc, c, s) \<leftarrow> unifyfs_set_global_file_meta_from_fid env srv fid UNIFYFS_FILE_ATTR_OP_CREATE (c, s);
                 Some (if rc \<noteq> UNIFYFS_SUCCESS \<and> rc \<noteq> EEXIST then rc else UNIFYFS_SUCCESS, c, s)
               }
             }
         }
       })"

definition unifyfs_gfid_create ::
  "client_env \<Rightarrow> 's client_rpcs \<Rightarrow> string \<Rightarrow> bool \<Rightarrow> bool \<Rightarrow> u32 \<Rightarrow> 's \<Rightarrow> (unifyfs_rc \<times> 's) option" where
  "unifyfs_gfid_create env srv path exclusive private mode s =
     (if length path + 1 > UNIFYFS_MAX_FILENAME then Some (ENAMETOOLONG, s)
      else do {
        (ret, s) \<leftarrow> unifyfs_set_global_file_meta srv (unifyfs_generate_gfid (en_md5 env) path)
          UNIFYFS_FILE_ATTR_OP_CREATE (new_attrs env path private mode) s;
        Some (if ret = EEXIST \<and> \<not> exclusive then UNIFYFS_SUCCESS else ret, s)
      })"

definition unifyfs_fid_fetch ::
  "client_env \<Rightarrow> 's client_rpcs \<Rightarrow> string \<Rightarrow> client \<times> 's \<Rightarrow> (unifyfs_rc \<times> client \<times> 's) option" where
  "unifyfs_fid_fetch env srv path cs = (case cs of (c, s) \<Rightarrow>
     if length path + 1 > UNIFYFS_MAX_FILENAME then Some (ENAMETOOLONG, c, s)
     else
       let fid = unifyfs_fid_from_path c path; found_local = (fid \<ge> 0) in do {
         (ret, gfattr, s) \<leftarrow> unifyfs_get_global_file_meta srv (unifyfs_generate_gfid (en_md5 env) path) s;
         case gfattr of
           None \<Rightarrow>
             if found_local then do { (rc, c) \<leftarrow> unifyfs_fid_delete c fid; Some (ret, c, s) } else Some (ret, c, s)
         | Some gfattr \<Rightarrow> do {
             (res, c) \<leftarrow> (if found_local then Some (Inr fid, c)
               else do {
                 (res, c) \<leftarrow> unifyfs_fid_create_file env path (fa_is_shared gfattr = 0) c;
                 case res of
                   Inl e \<Rightarrow> Some (Inl e, c)
                 | Inr fid \<Rightarrow> do {
                     (ret, c) \<leftarrow> fid_storage_alloc c fid;
                     if ret \<noteq> UNIFYFS_SUCCESS then do {
                       (rc, c) \<leftarrow> unifyfs_fid_delete c fid;
                       Some (Inl ENOMEM, c)
                     } else Some (Inr fid, c)
                   }
               });
             case res of
               Inl e \<Rightarrow> Some (e, c, s)
             | Inr fid \<Rightarrow> do {
                 (rc, c) \<leftarrow> unifyfs_fid_update_file_meta c fid gfattr;
                 Some (UNIFYFS_SUCCESS, c, s)
               }
           }
       })"

section \<open>Synchronisation\<close>

definition clear_index :: "client \<Rightarrow> client" where
  "clear_index c = c\<lparr>cl_index := []\<rparr>"

text \<open>
  The index entries of the nodes and the value returned as the maximal log offset, a comparison of
  signed offsets.
\<close>

definition index_of_node :: "int \<Rightarrow> seg_tree_node \<Rightarrow> index_entry" where
  "index_of_node gfid node = \<lparr>ix_file_pos = stn_start node, ix_log_pos = stn_ptr node,
     ix_length = stn_end node - stn_start node + 1, ix_gfid = gfid\<rparr>"

fun max_node_end :: "u64 \<Rightarrow> seg_tree_node list \<Rightarrow> u64" where
  "max_node_end m [] = m"
| "max_node_end m (node # nodes) = max_node_end (if sint (stn_end node) > sint m then stn_end node else m) nodes"

text \<open>Writing more entries than the index has room for overruns it.\<close>

definition rewrite_index_from_seg_tree :: "client \<Rightarrow> int \<Rightarrow> filemeta \<Rightarrow> (u64 \<times> client \<times> filemeta) option" where
  "rewrite_index_from_seg_tree c fid meta = do {
     nodes \<leftarrow> seg_tree_iter_loop (st_head (fm_extents_sync meta)) None;
     if length nodes > unat (max_write_index_entries c) then None
     else do {
       sync \<leftarrow> seg_tree_clear (fm_extents_sync meta);
       let meta = meta\<lparr>fm_extents_sync := sync\<rparr>;
           c = (clear_index c)\<lparr>cl_index := map (index_of_node (fa_gfid (fm_attrs meta))) nodes\<rparr>
       in Some (max_node_end 0 nodes, set_meta c fid meta, meta)
     }
   }"

definition unifyfs_fid_sync_data :: "unifyfs_rc option \<Rightarrow> int \<Rightarrow> client \<Rightarrow> (unifyfs_rc \<times> client) option" where
  "unifyfs_fid_sync_data fsync fid c = do {
     (found, c) \<leftarrow> unifyfs_get_meta_from_fid c fid;
     case found of
       None \<Rightarrow> Some (UNIFYFS_FAILURE, c)
     | Some meta \<Rightarrow> Some (if fm_fid meta \<noteq> fid then UNIFYFS_FAILURE else unifyfs_logio_sync fsync (cl_logio c), c)
   }"

definition unifyfs_fid_sync_extents ::
  "'s client_rpcs \<Rightarrow> int \<Rightarrow> client \<times> 's \<Rightarrow> (unifyfs_rc \<times> client \<times> 's) option" where
  "unifyfs_fid_sync_extents srv fid cs = (case cs of (c, s) \<Rightarrow> do {
     (found, c) \<leftarrow> unifyfs_get_meta_from_fid c fid;
     case found of
       None \<Rightarrow> Some (UNIFYFS_SUCCESS, c, s)
     | Some meta \<Rightarrow>
         if fm_fid meta \<noteq> fid then Some (UNIFYFS_FAILURE, c, s)
         else if \<not> fm_needs_writes_sync meta then Some (UNIFYFS_SUCCESS, c, s)
         else do {
           (max_log, c, meta) \<leftarrow> rewrite_index_from_seg_tree c fid meta;
           if cl_index c = [] then Some (UNIFYFS_SUCCESS, set_meta c fid (meta\<lparr>fm_needs_writes_sync := False\<rparr>), s)
           else do {
             (rc, s) \<leftarrow> rpc_sync srv (fa_gfid (fm_attrs meta)) (cl_index c) s;
             Some (rc, clear_index (set_meta c fid (meta\<lparr>fm_needs_writes_sync := False\<rparr>)), s)
           }
         }
   })"

definition unifyfs_fid_logical_size ::
  "'s client_rpcs \<Rightarrow> int \<Rightarrow> client \<times> 's \<Rightarrow> (u64 \<times> client \<times> 's) option" where
  "unifyfs_fid_logical_size srv fid cs = (case cs of (c, s) \<Rightarrow> do {
     (laminated, c) \<leftarrow> unifyfs_fid_is_laminated c fid;
     if laminated \<noteq> 0 then do { (sz, c) \<leftarrow> unifyfs_fid_global_size c fid; Some (sz, c, s) }
     else do {
       (rc, c, s) \<leftarrow> unifyfs_fid_sync_extents srv fid (c, s);
       (gfid, c) \<leftarrow> unifyfs_gfid_from_fid c fid;
       (ret, filesize, s) \<leftarrow> rpc_filesize srv gfid s;
       Some (if ret \<noteq> UNIFYFS_SUCCESS then - 1 else filesize, c, s)
     }
   })"

definition unifyfs_gfid_filesize ::
  "'s client_rpcs \<Rightarrow> int \<Rightarrow> client \<times> 's \<Rightarrow> (u64 \<times> client \<times> 's) option" where
  "unifyfs_gfid_filesize srv gfid cs = (case cs of (c, s) \<Rightarrow>
     let fid = unifyfs_fid_from_gfid c gfid in
     if fid \<ge> 0 then unifyfs_fid_logical_size srv fid (c, s)
     else do {
       (ret, sz, s) \<leftarrow> rpc_filesize srv gfid s;
       Some (if ret = UNIFYFS_SUCCESS then sz else - 1, c, s)
     })"

section \<open>Truncation, opening and unlinking\<close>

definition fid_truncate_write_meta ::
  "client_env \<Rightarrow> client \<Rightarrow> filemeta \<Rightarrow> u64 \<Rightarrow> (unifyfs_rc \<times> filemeta) option" where
  "fid_truncate_write_meta env c meta trunc_sz =
     (if trunc_sz = 0 then do {
        sync \<leftarrow> seg_tree_clear (fm_extents_sync meta);
        extents \<leftarrow> (if use_local_extents c then seg_tree_clear (fm_extents meta) else Some (fm_extents meta));
        Some (UNIFYFS_SUCCESS, meta\<lparr>fm_extents_sync := sync, fm_extents := extents\<rparr>)
      } else do {
        (rc, sync) \<leftarrow> seg_tree_remove (en_alloc env) (fm_extents_sync meta) trunc_sz (- 1);
        (rc, extents) \<leftarrow> (if use_local_extents c then seg_tree_remove (en_alloc env) (fm_extents meta) trunc_sz (- 1)
          else Some (rc, fm_extents meta));
        Some (if rc \<noteq> UNIFYFS_SUCCESS then UNIFYFS_FAILURE else UNIFYFS_SUCCESS,
              meta\<lparr>fm_extents_sync := sync, fm_extents := extents\<rparr>)
      })"

definition unifyfs_fid_truncate ::
  "client_env \<Rightarrow> 's client_rpcs \<Rightarrow> int \<Rightarrow> u64 \<Rightarrow> client \<times> 's \<Rightarrow> (unifyfs_rc \<times> client \<times> 's) option" where
  "unifyfs_fid_truncate env srv fid len cs = (case cs of (c, s) \<Rightarrow> do {
     (found, c) \<leftarrow> unifyfs_get_meta_from_fid c fid;
     meta \<leftarrow> found;
     if fa_mode (fm_attrs meta) AND S_IFMT = S_IFDIR then Some (EISDIR, c, s)
     else if fa_is_laminated (fm_attrs meta) \<noteq> 0 then Some (EINVAL, c, s)
     else if fm_storage meta \<noteq> FILE_STORAGE_LOGIO then Some (EIO, c, s)
     else do {
       (rc, meta) \<leftarrow> fid_truncate_write_meta env c meta len;
       let c = set_meta c fid meta in
       if rc \<noteq> UNIFYFS_SUCCESS then Some (rc, c, s)
       else do {
         (rc, c, s) \<leftarrow> unifyfs_fid_sync_extents srv fid (c, s);
         if rc \<noteq> UNIFYFS_SUCCESS then Some (rc, c, s)
         else do {
           meta \<leftarrow> meta_at c fid;
           let attrs = fm_attrs meta; c = set_meta c fid (meta\<lparr>fm_attrs := attrs\<lparr>fa_size := len\<rparr>\<rparr>) in do {
             (gfid, c) \<leftarrow> unifyfs_gfid_from_fid c fid;
             (rc, s) \<leftarrow> rpc_truncate srv gfid len s;
             Some (rc, c, s)
           }
         }
       }
     }
   })"

text \<open>
  The result of \<^verbatim>\<open>unifyfs_fid_open\<close> is an error or the file id and the position. \<open>open_fetched\<close> is the
  part after the metadata of the file have been fetched.
\<close>

definition open_fetched ::
  "client_env \<Rightarrow> 's client_rpcs \<Rightarrow> int \<Rightarrow> u32 \<Rightarrow> u32 \<Rightarrow> client \<times> 's \<Rightarrow> ((unifyfs_rc + int \<times> u64) \<times> client \<times> 's) option" where
  "open_fetched env srv fid flags mode cs = (case cs of (c, s) \<Rightarrow> do {
     (is_dir, c) \<leftarrow> unifyfs_fid_is_dir c fid;
     if flags AND O_DIRECTORY \<noteq> 0 \<and> \<not> is_dir then do {
       (rc, c) \<leftarrow> unifyfs_fid_delete c fid; Some (Inl ENOTDIR, c, s)
     } else if flags AND O_DIRECTORY = 0 \<and> is_dir then do {
       (rc, c) \<leftarrow> unifyfs_fid_delete c fid; Some (Inl EISDIR, c, s)
     } else do {
       (laminated, c) \<leftarrow> unifyfs_fid_is_laminated c fid;
       if laminated \<noteq> 0 \<and> (flags AND (O_CREAT OR O_TRUNC OR O_APPEND OR O_WRONLY) \<noteq> 0 \<or>
            mode AND 0x92 \<noteq> 0 \<and> flags \<noteq> O_RDONLY) then do {
         (rc, c) \<leftarrow> unifyfs_fid_delete c fid; Some (Inl EROFS, c, s)
       } else
         let open_for_write = (flags AND (O_RDWR OR O_WRONLY) \<noteq> 0) in do {
           (ret, c, s) \<leftarrow> (if flags AND O_TRUNC \<noteq> 0 \<and> open_for_write
             then unifyfs_fid_truncate env srv fid 0 (c, s) else Some (UNIFYFS_SUCCESS, c, s));
           if ret \<noteq> UNIFYFS_SUCCESS then Some (Inl ret, c, s)
           else do {
             (pos, c, s) \<leftarrow> (if flags AND O_APPEND \<noteq> 0 \<and> open_for_write
               then unifyfs_fid_logical_size srv fid (c, s) else Some (0, c, s));
             Some (Inr (fid, pos), c, s)
           }
         }
     }
   })"

definition unifyfs_fid_open ::
  "client_env \<Rightarrow> 's client_rpcs \<Rightarrow> string \<Rightarrow> u32 \<Rightarrow> u32 \<Rightarrow> client \<times> 's
   \<Rightarrow> ((unifyfs_rc + int \<times> u64) \<times> client \<times> 's) option" where
  "unifyfs_fid_open env srv path flags mode cs = (case cs of (c, s) \<Rightarrow>
     if length path + 1 > UNIFYFS_MAX_FILENAME then Some (Inl ENAMETOOLONG, c, s)
     else if flags AND O_CREAT \<noteq> 0 \<and> (mode AND S_IFMT) AND NOT S_IFREG \<noteq> 0 then Some (Inl EINVAL, c, s)
     else
       let creat = (flags AND O_CREAT \<noteq> 0); mode = (if creat then mode OR S_IFREG else mode);
           exclusive = (flags AND O_EXCL \<noteq> 0) in do {
         (ret, s) \<leftarrow> (if creat then unifyfs_gfid_create env srv path exclusive (exclusive \<and> use_excl_private c) mode s
           else Some (UNIFYFS_SUCCESS, s));
         if ret \<noteq> UNIFYFS_SUCCESS then Some (Inl ret, c, s)
         else do {
           (ret, c, s) \<leftarrow> unifyfs_fid_fetch env srv path (c, s);
           if ret \<noteq> UNIFYFS_SUCCESS then Some (Inl ret, c, s)
           else open_fetched env srv (unifyfs_fid_from_path c path) flags mode (c, s)
         }
       })"

definition unifyfs_fid_unlink :: "'s client_rpcs \<Rightarrow> int \<Rightarrow> client \<times> 's \<Rightarrow> (unifyfs_rc \<times> client \<times> 's) option" where
  "unifyfs_fid_unlink srv fid cs = (case cs of (c, s) \<Rightarrow> do {
     (gfid, c) \<leftarrow> unifyfs_gfid_from_fid c fid;
     (rc, c) \<leftarrow> unifyfs_fid_delete c fid;
     if rc \<noteq> UNIFYFS_SUCCESS then Some (rc, c, s)
     else do {
       (rc, logio, s) \<leftarrow> rpc_unlink srv gfid (cl_logio c) s;
       Some (rc, c\<lparr>cl_logio := logio\<rparr>, s)
     }
   })"

section \<open>Writing\<close>

text \<open>
  The results of \<^verbatim>\<open>seg_tree_add\<close> are not looked at. The comparison with the size of the index is
  unsigned. Rows 1 and 2 of the oracle answer the allocations of the two trees.
\<close>

definition add_write_meta_to_index ::
  "client_env \<Rightarrow> 's client_rpcs \<Rightarrow> int \<Rightarrow> u64 \<Rightarrow> u64 \<Rightarrow> u64 \<Rightarrow> client \<times> 's \<Rightarrow> (unifyfs_rc \<times> client \<times> 's) option" where
  "add_write_meta_to_index env srv fid file_pos log_pos len cs = (case cs of (c, s) \<Rightarrow> do {
     meta \<leftarrow> meta_at c fid;
     extents \<leftarrow> (if use_local_extents c then do {
         (rc, T) \<leftarrow> seg_tree_add (en_alloc env 1) (fm_extents meta) file_pos (file_pos + len - 1) log_pos (cl_client_id c);
         Some T
       } else Some (fm_extents meta));
     let c = set_meta c fid (meta\<lparr>fm_extents := extents\<rparr>) in do {
       (c, s) \<leftarrow> (if seg_tree_count (fm_extents_sync meta) \<ge> max_write_index_entries c - 2 then do {
           (rc, c, s) \<leftarrow> unifyfs_fid_sync_extents srv (fm_fid meta) (c, s);
           Some (c, s)
         } else Some (c, s));
       meta \<leftarrow> meta_at c fid;
       (rc, T) \<leftarrow> seg_tree_add (en_alloc env 2) (fm_extents_sync meta) file_pos (file_pos + len - 1) log_pos (cl_client_id c);
       Some (UNIFYFS_SUCCESS, set_meta c fid (meta\<lparr>fm_extents_sync := T\<rparr>), s)
     }
   })"

text \<open>The second component of the results is the number of bytes written.\<close>

definition fid_logio_write ::
  "client_env \<Rightarrow> 's client_rpcs \<Rightarrow> int \<Rightarrow> filemeta \<Rightarrow> u64 \<Rightarrow> u8 list \<Rightarrow> u64 \<Rightarrow> client \<times> 's
   \<Rightarrow> (unifyfs_rc \<times> nat \<times> client \<times> 's) option" where
  "fid_logio_write env srv fid meta pos buf count cs = (case cs of (c, s) \<Rightarrow>
     if fm_storage meta \<noteq> FILE_STORAGE_LOGIO then Some (EINVAL, 0, c, s)
     else do {
       (rc, log_off, logio) \<leftarrow> unifyfs_logio_alloc (cl_logio c) count;
       let c = c\<lparr>cl_logio := logio\<rparr> in
       if rc \<noteq> UNIFYFS_SUCCESS then Some (rc, 0, c, s)
       else do {
         log_off \<leftarrow> log_off;
         (rc, nwritten, logio) \<leftarrow> unifyfs_logio_write (en_pwrite env) (cl_logio c) log_off count buf;
         let c = c\<lparr>cl_logio := logio\<rparr> in
         if rc \<noteq> UNIFYFS_SUCCESS then Some (rc, nwritten, c, s)
         else do {
           (rc, c, s) \<leftarrow> add_write_meta_to_index env srv fid pos log_off (of_nat nwritten) (c, s);
           Some (rc, nwritten, c, s)
         }
       }
     })"

definition unifyfs_fid_write ::
  "client_env \<Rightarrow> 's client_rpcs \<Rightarrow> int \<Rightarrow> u64 \<Rightarrow> u8 list \<Rightarrow> u64 \<Rightarrow> client \<times> 's
   \<Rightarrow> (unifyfs_rc \<times> nat \<times> client \<times> 's) option" where
  "unifyfs_fid_write env srv fid pos buf count cs = (case cs of (c, s) \<Rightarrow>
     if count = 0 then Some (UNIFYFS_SUCCESS, 0, c, s)
     else do {
       (found, c) \<leftarrow> unifyfs_get_meta_from_fid c fid;
       meta \<leftarrow> found;
       if fa_is_laminated (fm_attrs meta) \<noteq> 0 then Some (EROFS, 0, c, s)
       else if fm_storage meta = FILE_STORAGE_LOGIO then do {
         (rc, nwritten, c, s) \<leftarrow> fid_logio_write env srv fid meta pos buf count (c, s);
         if rc \<noteq> UNIFYFS_SUCCESS then Some (rc, nwritten, c, s)
         else do {
           meta \<leftarrow> meta_at c fid;
           let c = set_meta c fid (meta\<lparr>fm_needs_writes_sync := True\<rparr>) in
           if use_write_sync c then do {
             (rc, c, s) \<leftarrow> unifyfs_fid_sync_extents srv fid (c, s);
             Some (rc, nwritten, c, s)
           } else Some (UNIFYFS_SUCCESS, nwritten, c, s)
         }
       } else Some (EIO, 0, c, s)
     })"

section \<open>The superblock\<close>

text \<open>A new superblock consists of zeros; only the names, the stack and the index are initialised.\<close>

definition init_superblock_structures :: "client \<Rightarrow> client" where
  "init_superblock_structures c =
     c\<lparr>cl_filelist := map (\<lambda>n. \<lparr>fn_in_use = False, fn_name = []\<rparr>) (cl_filelist c),
       cl_free_fids := unifyfs_stack_init (max_files c), cl_index := []\<rparr>"

text \<open>The callback of the server when a file was unlinked: \<^verbatim>\<open>unifyfs_unlink_callback_rpc\<close> for this client.\<close>

definition unlink_callback :: "int \<Rightarrow> client \<Rightarrow> client option" where
  "unlink_callback gfid c =
     (let fid = unifyfs_fid_from_gfid c gfid in
      if fid = - 1 then Some c
      else do {
        (found, c) \<leftarrow> unifyfs_get_meta_from_fid c fid;
        case found of
          None \<Rightarrow> Some c
        | Some meta \<Rightarrow> Some (if fid = fm_fid meta then set_meta c fid (meta\<lparr>fm_pending_unlink := True\<rparr>) else c)
      })"

declare unifyfs_get_meta_from_fid.simps [simp del] unifyfs_fid_delete.simps [simp del] fid_storage_free.simps [simp del]

end
