(* ===== verification/Client_Table.thy ===== *)
theory Client_Table
  imports Client_Fid
begin

text \<open>
  The table of files of a client under all operations of \<^verbatim>\<open>client/src/unifyfs_fid.c\<close>: which ids are in
  use, which are on the stack of free ids, and what is true of their metadata.
\<close>

section \<open>The table of files\<close>

text \<open>
  The invariant of the table: exactly the ids that are not in use are on the stack, the metadata of an id
  in use name the id, only files in use wait for an unlink, the trees of a file with storage are in
  order, and no two ids in use have the same path. An id is \<open>settled\<close> when it is in use or its metadata do not name it: deleting it then cannot
  free it twice. In a new superblock the unused id 0 is not settled, because all metadata are zero.
\<close>

definition in_use :: "client \<Rightarrow> int \<Rightarrow> bool" where
  "in_use c f \<longleftrightarrow> fn_in_use (cl_filelist c ! nat f)"

abbreviation meta_of :: "client \<Rightarrow> int \<Rightarrow> filemeta" where
  "meta_of c f \<equiv> cl_filemetas c ! nat f"

abbreviation name_of :: "client \<Rightarrow> int \<Rightarrow> string" where
  "name_of c f \<equiv> fn_name (cl_filelist c ! nat f)"

definition meta_ok :: "client \<Rightarrow> filemeta \<Rightarrow> bool" where
  "meta_ok c m \<longleftrightarrow> (fm_storage m = FILE_STORAGE_LOGIO \<longrightarrow>
     seg_inv (fm_extents_sync m) \<and> (use_local_extents c \<or> use_node_local_extents c \<longrightarrow> seg_inv (fm_extents m)))"

definition fid_ok :: "client \<Rightarrow> int \<Rightarrow> bool" where
  "fid_ok c f \<longleftrightarrow> (in_use c f \<longleftrightarrow> f \<notin> set (free_ids (cl_free_fids c))) \<and> (in_use c f \<longrightarrow> fm_fid (meta_of c f) = f) \<and>
     (fm_fid (meta_of c f) = f \<and> fm_pending_unlink (meta_of c f) \<longrightarrow> in_use c f) \<and> meta_ok c (meta_of c f)"

definition names_unique :: "client \<Rightarrow> bool" where
  "names_unique c \<longleftrightarrow> inj_on (name_of c) {f \<in> {0..<max_files c}. in_use c f}"

definition client_ok :: "client \<Rightarrow> bool" where
  "client_ok c \<longleftrightarrow> stack_inv (cl_free_fids c) \<and> stack_size (cl_free_fids c) = max_files c \<and>
     length (cl_filelist c) = nat (max_files c) \<and> length (cl_filemetas c) = nat (max_files c) \<and>
     (\<forall>f \<in> {0..<max_files c}. fid_ok c f) \<and> names_unique c"

definition settled :: "client \<Rightarrow> int \<Rightarrow> bool" where
  "settled c f \<longleftrightarrow> (f \<in> {0..<max_files c} \<longrightarrow> in_use c f \<or> fm_fid (meta_of c f) \<noteq> f)"

definition ok_step :: "client \<Rightarrow> client \<Rightarrow> bool" where
  "ok_step c c' \<longleftrightarrow> (client_ok c \<longrightarrow> client_ok c' \<and> max_files c' = max_files c \<and> (\<forall>f. settled c f \<longrightarrow> settled c' f))"

lemma ok_step_refl [simp]: "ok_step c c"
  by (simp add: ok_step_def)

lemma ok_step_trans [trans]: "ok_step a b \<Longrightarrow> ok_step b c \<Longrightarrow> ok_step a c"
  by (auto simp: ok_step_def)

lemma client_okD:
  assumes "client_ok c" "0 \<le> f" "f < max_files c"
  shows "meta_at c f = Some (meta_of c f)" "name_at c f = Some (cl_filelist c ! nat f)" "fid_ok c f"
    "f \<in> {0..<stack_size (cl_free_fids c)}"
  using assms by (auto simp: client_ok_def meta_at_def name_at_def)

lemma set_meta_fields [simp]:
  "max_files (set_meta c f m) = max_files c" "cl_free_fids (set_meta c f m) = cl_free_fids c"
  "cl_filelist (set_meta c f m) = cl_filelist c" "cl_logio (set_meta c f m) = cl_logio c"
  "use_local_extents (set_meta c f m) = use_local_extents c" "cl_index (set_meta c f m) = cl_index c"
  "use_node_local_extents (set_meta c f m) = use_node_local_extents c" "use_write_sync (set_meta c f m) = use_write_sync c"
  "cl_client_id (set_meta c f m) = cl_client_id c" "cl_app_id (set_meta c f m) = cl_app_id c"
  "max_write_index_entries (set_meta c f m) = max_write_index_entries c"
  "cl_filemetas (set_meta c f m) = (cl_filemetas c)[nat f := m]"
  by (simp_all add: set_meta_def)

lemma set_name_fields [simp]:
  "max_files (set_name c f n) = max_files c" "cl_free_fids (set_name c f n) = cl_free_fids c"
  "cl_filemetas (set_name c f n) = cl_filemetas c" "cl_logio (set_name c f n) = cl_logio c"
  "use_local_extents (set_name c f n) = use_local_extents c" "use_node_local_extents (set_name c f n) = use_node_local_extents c"
  "cl_filelist (set_name c f n) = (cl_filelist c)[nat f := n]"
  by (simp_all add: set_name_def)

text \<open>Only the log, the index and the entries of one file change.\<close>

definition same_but :: "int \<Rightarrow> client \<Rightarrow> client \<Rightarrow> bool" where
  "same_but f c c' \<longleftrightarrow> max_files c' = max_files c \<and> use_local_extents c' = use_local_extents c \<and>
     use_node_local_extents c' = use_node_local_extents c \<and>
     stack_inv (cl_free_fids c') \<and> stack_size (cl_free_fids c') = stack_size (cl_free_fids c) \<and>
     (\<exists>n. cl_filelist c' = (cl_filelist c)[nat f := n]) \<and> (\<exists>m. cl_filemetas c' = (cl_filemetas c)[nat f := m]) \<and>
     (\<forall>g. g \<noteq> f \<longrightarrow> (g \<in> set (free_ids (cl_free_fids c')) \<longleftrightarrow> g \<in> set (free_ids (cl_free_fids c))))"

lemma same_but_other:
  assumes "same_but f c c'" "0 \<le> f" "0 \<le> g" "g \<noteq> f"
  shows "cl_filelist c' ! nat g = cl_filelist c ! nat g" "meta_of c' g = meta_of c g"
    "in_use c' g = in_use c g" "fid_ok c' g = fid_ok c g"
proof -
  have ne: "nat f \<noteq> nat g" using assms by auto
  show n: "cl_filelist c' ! nat g = cl_filelist c ! nat g" and m: "meta_of c' g = meta_of c g"
    using assms(1) ne by (auto simp: same_but_def)
  show u: "in_use c' g = in_use c g" using n by (simp add: in_use_def)
  show "fid_ok c' g = fid_ok c g" using assms m u by (simp add: fid_ok_def same_but_def meta_ok_def)
qed

lemma one_step:
  assumes ok: "client_ok c" and same: "same_but f c c'" and f: "0 \<le> f" "f < max_files c"
    and fid: "fid_ok c' f" and settled: "settled c f \<Longrightarrow> settled c' f"
    and name: "in_use c' f \<Longrightarrow> (\<forall>g \<in> {0..<max_files c}. g \<noteq> f \<and> in_use c g \<longrightarrow> name_of c g \<noteq> name_of c' f)"
  shows "ok_step c c'"
proof -
  have "fid_ok c' g" if "g \<in> {0..<max_files c}" for g
    using that fid same_but_other(4) [OF same f(1)] client_okD(3) [OF ok] by (cases "g = f") auto
  moreover have "names_unique c'" unfolding names_unique_def
  proof (rule inj_onI)
    fix g h assume gh: "g \<in> {f \<in> {0..<max_files c'}. in_use c' f}" "h \<in> {f \<in> {0..<max_files c'}. in_use c' f}" "name_of c' g = name_of c' h"
    then have r: "g \<in> {0..<max_files c}" "h \<in> {0..<max_files c}" using same by (auto simp: same_but_def)
    have old: "g \<in> {f \<in> {0..<max_files c}. in_use c f}" "name_of c' g = name_of c g" if "g \<noteq> f" "in_use c' g" "g \<in> {0..<max_files c}" for g
      using that same_but_other(1,3) [OF same f(1), of g] by auto
    have inj: "inj_on (name_of c) {f \<in> {0..<max_files c}. in_use c f}" using ok by (simp add: client_ok_def names_unique_def)
    consider "g = h" | "g = f" "h \<noteq> f" | "h = f" "g \<noteq> f" | "g \<noteq> f" "h \<noteq> f" by blast
    then show "g = h"
    proof cases
      case 2
      then have "in_use c h" "name_of c' h = name_of c h" using gh(2) r old [of h] by auto
      then show ?thesis using name 2 gh r by force
    next
      case 3
      then have "in_use c g" "name_of c' g = name_of c g" using gh(1) r old [of g] by auto
      then show ?thesis using name 3 gh r by force
    next
      case 4
      have u: "in_use c' g" "in_use c' h" using gh by simp_all
      have "name_of c g = name_of c h" using gh(3) unfolding old(2) [OF 4(1) u(1) r(1)] old(2) [OF 4(2) u(2) r(2)] .
      then show ?thesis by (rule inj_onD [OF inj]) (rule old(1) [OF 4(1) u(1) r(1)], rule old(1) [OF 4(2) u(2) r(2)])
    qed simp
  qed
  ultimately have "client_ok c'" using ok same by (auto simp: client_ok_def same_but_def)
  moreover have "settled c' g" if "settled c g" for g
    using that settled same_but_other(2,3) [OF same f(1)] same by (cases "g = f") (auto simp: settled_def same_but_def)
  ultimately show ?thesis using same by (simp add: ok_step_def same_but_def)
qed

lemma meta_of_set [simp]:
  assumes "client_ok c" "0 \<le> f" "f < max_files c"
  shows "(cl_filemetas c)[nat f := m] ! nat f = m" "(cl_filelist c)[nat f := n] ! nat f = n"
  using assms by (auto simp: client_ok_def)

text \<open>A change of the metadata of one file.\<close>

lemma set_meta_step:
  assumes f: "0 \<le> f" "f < max_files c"
    and m: "client_ok c \<Longrightarrow> fm_fid m = fm_fid (meta_of c f) \<and> meta_ok c m \<and>
       (fm_pending_unlink m \<longrightarrow> fm_pending_unlink (meta_of c f) \<or> in_use c f)"
  shows "ok_step c (set_meta c f m)"
proof (cases "client_ok c")
  case True
  have "cl_filelist c = (cl_filelist c)[nat f := cl_filelist c ! nat f]" by simp
  then have "same_but f c (set_meta c f m)" using True by (auto simp: same_but_def client_ok_def simp del: list_update_id)
  moreover have "fid_ok (set_meta c f m) f" "settled c f \<Longrightarrow> settled (set_meta c f m) f"
    using client_okD(3) [OF True f] m [OF True] True f
    by (auto simp: fid_ok_def settled_def in_use_def meta_ok_def)
  moreover have "\<forall>g \<in> {0..<max_files c}. g \<noteq> f \<and> in_use c g \<longrightarrow> name_of c g \<noteq> name_of (set_meta c f m) f"
    if "in_use (set_meta c f m) f"
    using True f that by (auto simp: client_ok_def in_use_def names_unique_def inj_on_def)
  ultimately show ?thesis by (rule one_step [OF True _ f])
qed (simp add: ok_step_def)

section \<open>Deleting a file\<close>

lemmas meta_recursion = unifyfs_get_meta_from_fid.simps unifyfs_fid_delete.simps fid_storage_free.simps

text \<open>The state after the id \<open>f\<close> was deleted.\<close>

definition released :: "int \<Rightarrow> client \<Rightarrow> client \<Rightarrow> bool" where
  "released f c c' \<longleftrightarrow> (\<exists>stack m logio. unifyfs_stack_push (cl_free_fids c) f = Some stack \<and>
     fm_fid m = - 1 \<and> fm_storage m = FILE_STORAGE_NULL \<and>
     c' = c\<lparr>cl_filelist := (cl_filelist c)[nat f := \<lparr>fn_in_use = False, fn_name = []\<rparr>],
            cl_filemetas := (cl_filemetas c)[nat f := m], cl_logio := logio, cl_free_fids := stack\<rparr>)"

lemma get_meta_plain:
  assumes "0 \<le> f" "f < max_files c" "meta_at c f = Some m" "\<not> (fm_fid m = f \<and> fm_pending_unlink m)"
  shows "unifyfs_get_meta_from_fid c f = Some (Some m, c)"
  using assms by (auto simp: unifyfs_get_meta_from_fid.simps)

lemma storage_free_plain:
  assumes "0 \<le> f" "f < max_files c" "meta_at c f = Some m" "\<not> fm_pending_unlink m" "fm_fid m = f"
    "fid_storage_free c f = Some (rc, c')"
  shows "rc = UNIFYFS_SUCCESS \<and> (\<exists>m logio. fm_fid m = - 1 \<and> fm_storage m = FILE_STORAGE_NULL \<and>
    c' = c\<lparr>cl_filemetas := (cl_filemetas c)[nat f := m], cl_logio := logio\<rparr>)"
proof -
  obtain m' logio where "rc = UNIFYFS_SUCCESS"
    "c' = set_meta (c\<lparr>cl_logio := logio\<rparr>) f (m'\<lparr>fm_storage := FILE_STORAGE_NULL, fm_fid := - 1\<rparr>)"
    using assms get_meta_plain [of f c m] by (auto simp: fid_storage_free.simps bind_eq_Some_conv)
  then show ?thesis
    by (intro conjI exI [of _ "m'\<lparr>fm_storage := FILE_STORAGE_NULL, fm_fid := - 1\<rparr>"] exI [of _ logio]) (simp_all add: set_meta_def)
qed

lemma meta_at_set_name [simp]: "meta_at (set_name c f n) f = meta_at c f"
  by (simp add: meta_at_def)

lemma delete_plain:
  assumes "0 \<le> f" "f < max_files c" "meta_at c f = Some m" "\<not> fm_pending_unlink m" "fm_fid m = f"
    "unifyfs_fid_delete c f = Some (rc, c')"
  shows "rc = UNIFYFS_SUCCESS \<and> released f c c'"
proof -
  let ?c = "set_name c f \<lparr>fn_in_use = False, fn_name = []\<rparr>"
  obtain rc1 c1 where c1: "fid_storage_free ?c f = Some (rc1, c1)"
    using assms(6) by (auto simp: unifyfs_fid_delete.simps bind_eq_Some_conv split: option.splits)
  obtain m' logio where m': "fm_fid m' = - 1" "fm_storage m' = FILE_STORAGE_NULL"
    and eq: "c1 = ?c\<lparr>cl_filemetas := (cl_filemetas ?c)[nat f := m'], cl_logio := logio\<rparr>" and "rc1 = UNIFYFS_SUCCESS"
    using storage_free_plain [OF assms(1) _ _ assms(4,5) c1] assms by auto
  then have "unifyfs_fid_free c1 f = Some (rc, c')"
    using assms(6) c1 by (auto simp: unifyfs_fid_delete.simps split: option.splits)
  then obtain stack where "unifyfs_stack_push (cl_free_fids c) f = Some stack" "rc = UNIFYFS_SUCCESS" "c' = c1\<lparr>cl_free_fids := stack\<rparr>"
    by (auto simp: unifyfs_fid_free_def bind_eq_Some_conv eq)
  then show ?thesis using m' unfolding released_def
    by (intro conjI exI [of _ stack] exI [of _ m'] exI [of _ logio]) (simp_all add: eq set_name_def)
qed


text \<open>
  Deleting an id in use puts it on the stack of free ids once, also when the lookup of the metadata
  finds the unlink pending: then the nested call frees the id and the outer one reports a failure.
\<close>

lemma delete_in_use:
  assumes ok: "client_ok c" and f: "0 \<le> f" "f < max_files c" and use: "in_use c f"
    and del: "unifyfs_fid_delete c f = Some (rc, c')"
  shows "released f c c' \<and> (\<not> fm_pending_unlink (meta_of c f) \<longrightarrow> rc = UNIFYFS_SUCCESS)"
proof (cases "fm_pending_unlink (meta_of c f)")
  case False
  then show ?thesis
    using delete_plain [OF f client_okD(1) [OF ok f] _ _ del] client_okD(3) [OF ok f] use by (simp add: fid_ok_def)
next
  case True
  let ?name = "\<lparr>fn_in_use = False, fn_name = []\<rparr>"
  let ?m = "(meta_of c f)\<lparr>fm_pending_unlink := False\<rparr>"
  let ?c = "set_meta (set_name c f ?name) f ?m"
  have fid: "fm_fid (meta_of c f) = f" using client_okD(3) [OF ok f] use by (simp add: fid_ok_def)
  have meta: "meta_at ?c f = Some ?m" using ok f by (simp add: meta_at_def client_ok_def)
  obtain rc2 c2 where c2: "unifyfs_fid_delete ?c f = Some (rc2, c2)"
    using del client_okD(1,2) [OF ok f] True fid f
    by (auto simp: unifyfs_fid_delete.simps [of c] fid_storage_free.simps [of "set_name c f ?name"]
        unifyfs_get_meta_from_fid.simps [of "set_name c f ?name"] bind_eq_Some_conv)
  then have "c' = c2"
    using del client_okD(1,2) [OF ok f] True fid f
    by (auto simp: unifyfs_fid_delete.simps [of c] fid_storage_free.simps [of "set_name c f ?name"]
        unifyfs_get_meta_from_fid.simps [of "set_name c f ?name"] bind_eq_Some_conv split: if_splits)
  moreover have "released f ?c c2" using delete_plain [OF f(1) _ meta _ _ c2] f(2) fid by simp
  ultimately show ?thesis using True by (auto simp: released_def set_meta_def set_name_def)
qed

lemma released_step:
  assumes ok: "client_ok c" and f: "0 \<le> f" "f < max_files c" and use: "in_use c f" and rel: "released f c c'"
  shows "ok_step c c' \<and> \<not> in_use c' f \<and> fm_fid (meta_of c' f) = - 1 \<and> f \<in> set (free_ids (cl_free_fids c'))"
proof -
  have inv: "stack_inv (cl_free_fids c)" and notin: "f \<notin> set (free_ids (cl_free_fids c))"
    using ok client_okD(3) [OF ok f] use by (auto simp: client_ok_def fid_ok_def)
  obtain stack m logio where push: "unifyfs_stack_push (cl_free_fids c) f = Some stack" and m: "fm_fid m = - 1" "fm_storage m = FILE_STORAGE_NULL"
    and c': "c' = c\<lparr>cl_filelist := (cl_filelist c)[nat f := \<lparr>fn_in_use = False, fn_name = []\<rparr>],
            cl_filemetas := (cl_filemetas c)[nat f := m], cl_logio := logio, cl_free_fids := stack\<rparr>"
    using rel by (auto simp: released_def)
  have stack: "free_ids stack = free_ids (cl_free_fids c) @ [f]" "stack_inv stack" "stack_size stack = stack_size (cl_free_fids c)"
    using stack_push_ok [OF inv client_okD(4) [OF ok f] notin] push by auto
  have "same_but f c c'" using stack by (auto simp: same_but_def c')
  moreover have "fid_ok c' f" "settled c' f" and *: "\<not> in_use c' f" "fm_fid (meta_of c' f) = - 1"
    using ok f stack m by (auto simp: c' fid_ok_def in_use_def meta_ok_def settled_def)
  ultimately show ?thesis using one_step [OF ok _ f, of c'] stack by (auto simp: c')
qed

lemma delete_settled:
  assumes ok: "client_ok c" and f: "0 \<le> f" "f < max_files c" and nouse: "fm_fid (meta_of c f) \<noteq> f"
    and del: "unifyfs_fid_delete c f = Some (rc, c')"
  shows "ok_step c c'"
proof -
  let ?c = "set_name c f \<lparr>fn_in_use = False, fn_name = []\<rparr>"
  have c': "c' = ?c" using del nouse client_okD(1,2) [OF ok f] get_meta_plain [OF f(1), of ?c "meta_of c f"] f(2)
    by (auto simp: unifyfs_fid_delete.simps fid_storage_free.simps split: if_splits)
  have "cl_filemetas c = (cl_filemetas c)[nat f := meta_of c f]" by simp
  then have "same_but f c c'" using ok by (auto simp: same_but_def client_ok_def c' simp del: list_update_id)
  moreover have "fid_ok c' f" "settled c' f" "\<not> in_use c' f"
    using client_okD(3) [OF ok f] nouse ok f by (auto simp: c' fid_ok_def in_use_def meta_ok_def settled_def)
  ultimately show ?thesis using one_step [OF ok _ f, of c'] by blast
qed

lemma delete_step:
  assumes "client_ok c \<Longrightarrow> settled c f" "unifyfs_fid_delete c f = Some (rc, c')"
  shows "ok_step c c'"
proof (cases "client_ok c \<and> f \<in> {0..<max_files c}")
  case True
  then show ?thesis
    using assms delete_in_use [of c f rc c'] released_step [of c f c'] delete_settled [of c f rc c']
    by (cases "in_use c f") (auto simp: settled_def)
next
  case False
  then show ?thesis using assms(2)
    by (auto simp: ok_step_def unifyfs_fid_delete.simps name_at_def client_ok_def split: if_splits)
qed

lemma get_meta_cases:
  assumes get: "unifyfs_get_meta_from_fid c f = Some (found, c')"
  shows "ok_step c c' \<and> (\<forall>m. found = Some m \<longrightarrow> c' = c \<and> 0 \<le> f \<and> f < max_files c \<and>
    meta_at c f = Some m \<and> m = meta_of c f \<and> (fm_fid m = f \<longrightarrow> \<not> fm_pending_unlink m))"
proof (cases "0 \<le> f \<and> f < max_files c \<and> client_ok c \<and> fm_fid (meta_of c f) = f \<and> fm_pending_unlink (meta_of c f)")
  case True
  let ?m = "(meta_of c f)\<lparr>fm_pending_unlink := False\<rparr>"
  have in_use: "in_use c f" and meta: "meta_ok c (meta_of c f)" using client_okD(3) [of c f] True by (auto simp: fid_ok_def)
  have "ok_step c (set_meta c f ?m)" using True meta by (intro set_meta_step) (auto simp: meta_ok_def)
  moreover obtain rc where del: "unifyfs_fid_delete (set_meta c f ?m) f = Some (rc, c')" and found: "found = None"
    using get True client_okD(1) [of c f] by (auto simp: unifyfs_get_meta_from_fid.simps bind_eq_Some_conv)
  moreover have "ok_step (set_meta c f ?m) c'"
    by (rule delete_step [OF _ del]) (use in_use in \<open>auto simp: settled_def in_use_def\<close>)
  ultimately show ?thesis using ok_step_trans by blast
next
  case False
  then show ?thesis using get
    by (cases "client_ok c") (auto simp: unifyfs_get_meta_from_fid.simps ok_step_def meta_at_def client_ok_def
        bind_eq_Some_conv split: if_splits option.splits)
qed

section \<open>The operations keep the table in order\<close>

lemma ok_stepD:
  assumes "ok_step c c'" "client_ok c"
  shows "client_ok c'" "max_files c' = max_files c" "settled c f \<Longrightarrow> settled c' f"
  using assms by (auto simp: ok_step_def)

lemma client_ok_log [simp]:
  "client_ok (c\<lparr>cl_logio := l\<rparr>) = client_ok c" "client_ok (c\<lparr>cl_index := ix\<rparr>) = client_ok c"
  "settled (c\<lparr>cl_logio := l\<rparr>) = settled c" "settled (c\<lparr>cl_index := ix\<rparr>) = settled c"
  "in_use (c\<lparr>cl_logio := l\<rparr>) = in_use c" "in_use (c\<lparr>cl_index := ix\<rparr>) = in_use c"
  by (simp_all add: client_ok_def names_unique_def settled_def fid_ok_def in_use_def meta_ok_def fun_eq_iff)

lemma ok_step_log [simp]:
  "ok_step c (c'\<lparr>cl_logio := l\<rparr>) = ok_step c c'" "ok_step (c\<lparr>cl_logio := l\<rparr>) c' = ok_step c c'"
  "ok_step c (c'\<lparr>cl_index := ix\<rparr>) = ok_step c c'" "ok_step (c\<lparr>cl_index := ix\<rparr>) c' = ok_step c c'"
  "ok_step c (clear_index c') = ok_step c c'"
  by (simp_all add: ok_step_def clear_index_def)

text \<open>The lookups by path and by gfid find ids in use.\<close>

lemma scan_names_found:
  "scan_names path i ns = r \<Longrightarrow> r \<noteq> - 1 \<Longrightarrow>
     int i \<le> r \<and> nat r - i < length ns \<and> fn_in_use (ns ! (nat r - i)) \<and> strcmp (fn_name (ns ! (nat r - i))) path = 0"
proof (induction path i ns rule: scan_names.induct)
  case (2 path i n ns)
  then show ?case
    by (cases "fn_in_use n \<and> strcmp (fn_name n) path = 0") (auto simp: nth_Cons' Suc_diff_Suc less_diff_conv2 split: if_splits)
qed simp

lemma scan_gfids_found:
  "scan_gfids gfid i ns = r \<Longrightarrow> r \<noteq> - 1 \<Longrightarrow>
     int i \<le> r \<and> nat r - i < length ns \<and> fn_in_use (fst (ns ! (nat r - i))) \<and>
     fa_gfid (fm_attrs (snd (ns ! (nat r - i)))) = gfid"
proof (induction gfid i ns rule: scan_gfids.induct)
  case (2 gfid i n m ns)
  then show ?case
    by (cases "fn_in_use n \<and> fa_gfid (fm_attrs m) = gfid") (auto simp: nth_Cons' Suc_diff_Suc less_diff_conv2 split: if_splits)
qed simp

lemma strcmp_eq [simp]: "strcmp as bs = 0 \<longleftrightarrow> as = bs"
  by (induction as bs rule: strcmp.induct) auto

lemma scan_names_none: "scan_names path i ns = - 1 \<longleftrightarrow> (\<forall>n \<in> set ns. fn_in_use n \<longrightarrow> fn_name n \<noteq> path)"
  by (induction path i ns rule: scan_names.induct) auto

lemma scan_names_ge: "- 1 \<le> scan_names path i ns"
  by (induction path i ns rule: scan_names.induct) auto

lemma fid_from_path_none:
  assumes "unifyfs_fid_from_path c path = - 1" "client_ok c" "g \<in> {0..<max_files c}" "in_use c g"
  shows "name_of c g \<noteq> path"
proof -
  have "cl_filelist c ! nat g \<in> set (take (nat (max_files c)) (cl_filelist c))"
    using assms(2,3) by (auto simp: client_ok_def)
  then show ?thesis using assms(1,4) by (auto simp: unifyfs_fid_from_path_def scan_names_none in_use_def)
qed

lemma fid_from_path_found:
  assumes "unifyfs_fid_from_path c path = f" "f \<noteq> - 1"
  shows "0 \<le> f \<and> f < max_files c \<and> in_use c f \<and> name_of c f = path"
  using scan_names_found [OF assms(1) [unfolded unifyfs_fid_from_path_def] assms(2)]
  by (auto simp: in_use_def)

lemma fid_from_gfid_found:
  assumes "unifyfs_fid_from_gfid c gfid = f" "f \<noteq> - 1"
  shows "0 \<le> f \<and> f < max_files c \<and> in_use c f \<and> fa_gfid (fm_attrs (meta_of c f)) = gfid"
  using scan_gfids_found [OF assms(1) [unfolded unifyfs_fid_from_gfid_def] assms(2)]
  by (auto simp: in_use_def)

lemma settled_found [simp]: "settled c (unifyfs_fid_from_path c path)" "settled c (unifyfs_fid_from_gfid c gfid)"
  using fid_from_path_found [OF refl, of c path] fid_from_gfid_found [OF refl, of c gfid] by (auto simp: settled_def)

text \<open>A new file gets an id that was not in use.\<close>

lemma create_file_step:
  assumes create: "unifyfs_fid_create_file env path private c = Some (res, c')" and new: "unifyfs_fid_from_path c path = - 1"
  shows "ok_step c c' \<and> (client_ok c \<longrightarrow> (\<forall>f. res = Inr f \<longrightarrow> 0 \<le> f \<and> f < max_files c \<and> \<not> in_use c f \<and> in_use c' f))"
proof (cases "client_ok c \<and> length path + 1 \<le> UNIFYFS_MAX_FILENAME")
  case True
  then have ok: "client_ok c" and inv: "stack_inv (cl_free_fids c)" by (simp_all add: client_ok_def)
  obtain i stack where pop: "unifyfs_stack_pop (cl_free_fids c) = Some (i, stack)"
    using create True by (auto simp: unifyfs_fid_create_file_def unifyfs_fid_alloc_def bind_eq_Some_conv)
  show ?thesis
  proof (cases "i = - 1")
    case True
    then show ?thesis using stack_pool.take_cases [OF inv pop] create pop
      by (auto simp: unifyfs_fid_create_file_def unifyfs_fid_alloc_def split: if_splits)
  next
    case False
    then have i: "i \<in> set (free_ids (cl_free_fids c))" "stack_inv stack" "set (free_ids stack) = set (free_ids (cl_free_fids c)) - {i}"
      using stack_pool.take_cases [OF inv pop] by auto
    then have range: "0 \<le> i" "i < max_files c" using stack_invD(5) [OF inv] ok by (auto simp: client_ok_def)
    have stk: "stack_size stack = stack_size (cl_free_fids c)" using pop by (auto simp: unifyfs_stack_pop_def Let_def split: if_splits)
    let ?c = "set_name (c\<lparr>cl_free_fids := stack\<rparr>) i \<lparr>fn_in_use = True, fn_name = path\<rparr>"
    have fok: "fid_ok c i" using client_okD(3) [OF ok range] .
    have at: "meta_at ?c i = Some (meta_of c i)" "name_at (c\<lparr>cl_free_fids := stack\<rparr>) i = Some (cl_filelist c ! nat i)"
      using ok range by (auto simp: meta_at_def name_at_def client_ok_def)
    have "unifyfs_get_meta_from_fid ?c i = Some (Some (meta_of c i), ?c)"
      using at(1) fok i(1) range by (intro get_meta_plain) (auto simp: fid_ok_def)
    then obtain m where c': "c' = set_meta ?c i m" "fm_fid m = i" "fm_storage m = FILE_STORAGE_NULL" "\<not> fm_pending_unlink m"
      and res: "res = Inr i"
      using create pop range True at by (auto simp: unifyfs_fid_create_file_def unifyfs_fid_alloc_def)
    have "same_but i c c'" using i stk by (auto simp: same_but_def c'(1))
    moreover have "fid_ok c' i" "settled c' i" "in_use c' i"
      using c'(2-) i ok range by (auto simp: c'(1) fid_ok_def in_use_def meta_ok_def settled_def)
    moreover have "name_of c' i = path" using ok range by (simp add: c'(1))
    ultimately show ?thesis using fid_from_path_none [OF new ok] one_step [OF ok _ range, of c'] range res fok i(1) by (auto simp: fid_ok_def)
  qed
next
  case False
  then show ?thesis using create by (auto simp: unifyfs_fid_create_file_def ok_step_def)
qed

text \<open>Operations on the metadata of one id.\<close>

lemma get_meta_None: "unifyfs_get_meta_from_fid c f = Some (None, c') \<Longrightarrow> ok_step c c'"
  using get_meta_cases by blast

lemma get_meta_Some:
  assumes "unifyfs_get_meta_from_fid c f = Some (Some m, c')"
  shows "c' = c \<and> 0 \<le> f \<and> f < max_files c \<and> m = meta_of c f"
  using get_meta_cases [OF assms] by blast

lemma get_meta_step: "unifyfs_get_meta_from_fid c f = Some (found, c') \<Longrightarrow> ok_step c c'"
  using get_meta_cases by blast

lemma meta_okD:
  assumes "client_ok c" "0 \<le> f" "f < max_files c"
  shows "meta_ok c (meta_of c f)"
  using client_okD(3) [OF assms] by (simp add: fid_ok_def)

lemmas option_chain = bind_eq_Some_conv case_prod_beta

lemma query_steps:
  "unifyfs_fid_is_laminated c f = Some (r1, c') \<Longrightarrow> ok_step c c'"
  "unifyfs_fid_is_dir c f = Some (r2, c') \<Longrightarrow> ok_step c c'"
  "unifyfs_gfid_from_fid c f = Some (r3, c') \<Longrightarrow> ok_step c c'"
  "unifyfs_fid_global_size c f = Some (r4, c') \<Longrightarrow> ok_step c c'"
  "unifyfs_fid_sync_data fs f c = Some (r5, c') \<Longrightarrow> ok_step c c'"
  "unifyfs_set_global_file_meta_from_fid env srv f op (c, s) = Some (r6, c', s') \<Longrightarrow> ok_step c c'"
  by (auto simp: unifyfs_fid_is_laminated_def unifyfs_fid_is_dir_def unifyfs_gfid_from_fid_def unifyfs_fid_global_size_def
      unifyfs_fid_sync_data_def unifyfs_set_global_file_meta_from_fid_def Let_def option_chain
      split: option.splits if_splits dest: get_meta_step)

lemma meta_ok_simps [simp]:
  "meta_ok c (m\<lparr>fm_attrs := a\<rparr>) = meta_ok c m" "meta_ok c (m\<lparr>fm_pending_unlink := p\<rparr>) = meta_ok c m"
  "meta_ok c (m\<lparr>fm_needs_writes_sync := p\<rparr>) = meta_ok c m" "meta_ok (set_meta c f m') = meta_ok c"
  "meta_ok (clear_index c) = meta_ok c" "meta_ok (c\<lparr>cl_index := ix\<rparr>) = meta_ok c"
  by (auto simp: meta_ok_def clear_index_def fun_eq_iff)

lemma update_meta_step:
  assumes "unifyfs_fid_update_file_meta c f attrs = Some (rc, c')"
  shows "ok_step c c'"
proof -
  obtain found c1 where get: "unifyfs_get_meta_from_fid c f = Some (found, c1)"
    using assms by (auto simp: unifyfs_fid_update_file_meta_def option_chain)
  show ?thesis
  proof (cases found)
    case None
    then show ?thesis using assms get by (auto simp: unifyfs_fid_update_file_meta_def dest: get_meta_step)
  next
    case (Some m)
    then show ?thesis using assms get get_meta_Some [of c f m c1]
      by (auto simp: unifyfs_fid_update_file_meta_def intro!: set_meta_step dest: meta_okD)
  qed
qed

lemma storage_alloc_step:
  assumes "fid_storage_alloc c f = Some (rc, c')"
  shows "ok_step c c'"
proof -
  obtain found c1 where get: "unifyfs_get_meta_from_fid c f = Some (found, c1)"
    using assms by (auto simp: fid_storage_alloc_def option_chain)
  show ?thesis
  proof (cases found)
    case None
    then show ?thesis using assms get by (auto simp: fid_storage_alloc_def dest: get_meta_step)
  next
    case (Some m)
    then show ?thesis using assms get get_meta_Some [of c f m c1]
      by (auto simp: fid_storage_alloc_def Let_def meta_ok_def intro!: set_meta_step split: if_splits)
  qed
qed

lemma callback_step:
  assumes "unlink_callback gfid c = Some c'"
  shows "ok_step c c'"
proof (cases "unifyfs_fid_from_gfid c gfid = - 1")
  case True
  then show ?thesis using assms by (simp add: unlink_callback_def)
next
  case False
  let ?f = "unifyfs_fid_from_gfid c gfid"
  obtain found c1 where get: "unifyfs_get_meta_from_fid c ?f = Some (found, c1)"
    using assms False by (auto simp: unlink_callback_def option_chain Let_def)
  show ?thesis
  proof (cases found)
    case None
    then show ?thesis using assms get False by (auto simp: unlink_callback_def dest: get_meta_step)
  next
    case (Some m)
    then have "c' = (if ?f = fm_fid m then set_meta c ?f (m\<lparr>fm_pending_unlink := True\<rparr>) else c)"
      using assms get False get_meta_Some [of c ?f m c1] by (auto simp: unlink_callback_def Let_def)
    then show ?thesis using get Some get_meta_Some [of c ?f m c1] fid_from_gfid_found [OF refl False]
      by (auto intro!: set_meta_step dest: meta_okD)
  qed
qed

lemma rewrite_step:
  assumes rw: "rewrite_index_from_seg_tree c f m = Some (k, c', m')" and f: "0 \<le> f" "f < max_files c" and m: "m = meta_of c f"
  shows "ok_step c c' \<and> (client_ok c \<longrightarrow> m' = meta_of c' f)"
proof -
  obtain T ix where T: "seg_tree_clear (fm_extents_sync m) = Some T" and m': "m' = m\<lparr>fm_extents_sync := T\<rparr>"
    and c': "c' = set_meta (c\<lparr>cl_index := ix\<rparr>) f m'"
    using rw by (auto simp: rewrite_index_from_seg_tree_def Let_def clear_index_def option_chain split: if_splits)
  have "ok_step (c\<lparr>cl_index := ix\<rparr>) c'" unfolding c'
  proof (rule set_meta_step)
    assume "client_ok (c\<lparr>cl_index := ix\<rparr>)"
    then have ok: "client_ok c" by simp
    show "fm_fid m' = fm_fid (meta_of (c\<lparr>cl_index := ix\<rparr>) f) \<and> meta_ok (c\<lparr>cl_index := ix\<rparr>) m' \<and>
      (fm_pending_unlink m' \<longrightarrow> fm_pending_unlink (meta_of (c\<lparr>cl_index := ix\<rparr>) f) \<or> in_use (c\<lparr>cl_index := ix\<rparr>) f)"
      using meta_okD [OF ok f] seg_clear_spec [of "fm_extents_sync m"] T by (auto simp: m' m meta_ok_def)
  qed (use f in auto)
  then show ?thesis using f by (auto simp: c')
qed

lemma sync_step:
  assumes "unifyfs_fid_sync_extents srv f (c, s) = Some (rc, c', s')"
  shows "ok_step c c'"
proof -
  obtain found c1 where get: "unifyfs_get_meta_from_fid c f = Some (found, c1)"
    using assms by (auto simp: unifyfs_fid_sync_extents_def option_chain)
  show ?thesis
  proof (cases "\<exists>m. found = Some m \<and> fm_fid m = f \<and> fm_needs_writes_sync m")
    case False
    then show ?thesis using assms get by (auto simp: unifyfs_fid_sync_extents_def split: option.splits if_splits dest: get_meta_step)
  next
    case True
    then obtain m where m: "found = Some m" "fm_fid m = f" "fm_needs_writes_sync m" by blast
    then have c1: "c1 = c" "0 \<le> f" "f < max_files c" "m = meta_of c f" using get get_meta_Some [of c f m c1] by auto
    obtain k c2 m2 where rw: "rewrite_index_from_seg_tree c f m = Some (k, c2, m2)"
      using assms get m c1(1) by (auto simp: unifyfs_fid_sync_extents_def option_chain)
    note step = rewrite_step [OF rw c1(2-4)]
    have "ok_step c (set_meta c2 f (m2\<lparr>fm_needs_writes_sync := False\<rparr>))"
    proof (cases "client_ok c")
      case True
      then have ok2: "client_ok c2" and "max_files c2 = max_files c" "m2 = meta_of c2 f" using step by (auto simp: ok_step_def)
      then have "ok_step c2 (set_meta c2 f (m2\<lparr>fm_needs_writes_sync := False\<rparr>))"
        using c1(2,3) meta_okD [of c2 f] by (intro set_meta_step) auto
      then show ?thesis using step ok_step_trans by blast
    qed (simp add: ok_step_def)
    then show ?thesis using assms get m c1(1) rw
      by (auto simp: unifyfs_fid_sync_extents_def option_chain split: if_splits)
  qed
qed

lemma size_steps:
  "unifyfs_fid_logical_size srv f (c, s) = Some (sz, c', s') \<Longrightarrow> ok_step c c'"
  "unifyfs_gfid_filesize srv gfid (c, s) = Some (sz', c', s') \<Longrightarrow> ok_step c c'"
proof -
  show logical: "unifyfs_fid_logical_size srv f (c, s) = Some (sz, c', s') \<Longrightarrow> ok_step c c'" for f sz
    by (auto simp: unifyfs_fid_logical_size_def option_chain split: if_splits
        dest!: query_steps(1,3,4) sync_step elim!: ok_step_trans)
  show "unifyfs_gfid_filesize srv gfid (c, s) = Some (sz', c', s') \<Longrightarrow> ok_step c c'"
    by (auto simp: unifyfs_gfid_filesize_def option_chain Let_def split: if_splits dest: logical)
qed

lemma create_directory_step:
  assumes "unifyfs_fid_create_directory env srv path (c, s) = Some (rc, c', s')"
  shows "ok_step c c'"
proof -
  have mode: "ok_step c (set_meta c2 f (m\<lparr>fm_attrs := a\<rparr>))"
    if "ok_step c c1" "unifyfs_get_meta_from_fid c1 f = Some (Some m, c2)" for c1 c2 f m a
  proof -
    have "c2 = c1" "0 \<le> f" "f < max_files c1" "m = meta_of c1 f" using get_meta_Some [OF that(2)] by auto
    then have "ok_step c1 (set_meta c2 f (m\<lparr>fm_attrs := a\<rparr>))" by (auto intro!: set_meta_step dest: meta_okD)
    then show ?thesis using that(1) ok_step_trans by blast
  qed
  show ?thesis
  proof (cases "c' = c")
    case False
    then obtain res c1 where create: "unifyfs_fid_create_file env path False c = Some (res, c1)" "unifyfs_fid_from_path c path = - 1"
      using assms by (auto simp: unifyfs_fid_create_directory_def option_chain Let_def split: if_splits)
    note c1 = conjunct1 [OF create_file_step [OF create]]
    show ?thesis
    proof (cases res)
      case (Inl e)
      then show ?thesis using assms create c1 False
        by (auto simp: unifyfs_fid_create_directory_def option_chain Let_def split: if_splits)
    next
      case (Inr f)
      then show ?thesis using assms create False
        by (auto simp: unifyfs_fid_create_directory_def option_chain Let_def split: if_splits
            dest!: query_steps(6) intro: mode [OF c1] ok_step_trans [OF mode [OF c1]])
    qed
  qed simp
qed

text \<open>The part of \<open>unifyfs_fid_fetch\<close> for a path that has no id yet.\<close>

lemma fetch_new_step:
  assumes create: "unifyfs_fid_create_file env path private c = Some (res1, c1)" "unifyfs_fid_from_path c path = - 1"
    and rest: "(case res1 of
        Inl e \<Rightarrow> Some (Inl e, c1)
      | Inr fid \<Rightarrow> do {
          (ret, c) \<leftarrow> fid_storage_alloc c1 fid;
          if ret \<noteq> UNIFYFS_SUCCESS then do { (rc, c) \<leftarrow> unifyfs_fid_delete c fid; Some (Inl ENOMEM, c) }
          else Some (Inr fid, c)
        }) = Some (res, c')"
  shows "ok_step c c'"
proof (cases "client_ok c")
  case True
  note c1 = create_file_step [OF create]
  show ?thesis
  proof (cases res1)
    case (Inl e)
    then show ?thesis using assms create c1 by auto
  next
    case (Inr f)
    obtain ret c2 where alloc: "fid_storage_alloc c1 f = Some (ret, c2)"
      using assms create Inr by (auto simp: option_chain)
    have c2: "ok_step c c2" using c1 storage_alloc_step [OF alloc] ok_step_trans by blast
    have "settled c2 f" using c1 storage_alloc_step [OF alloc] True Inr by (auto simp: ok_step_def settled_def)
    then show ?thesis using assms create Inr alloc c2 delete_step [of c2 f] ok_step_trans [of c c2]
      by (auto simp: option_chain split: if_splits)
  qed
qed (simp add: ok_step_def)

lemma fetch_step:
  assumes fetch: "unifyfs_fid_fetch env srv path (c, s) = Some (rc, c', s')"
  shows "ok_step c c'"
proof (cases "c' = c")
  case False
  obtain ret gfattr s1 where get: "unifyfs_get_global_file_meta srv (unifyfs_generate_gfid (en_md5 env) path) s = Some (ret, gfattr, s1)"
    using fetch False by (auto simp: unifyfs_fid_fetch_def option_chain Let_def split: if_splits)
  show ?thesis
  proof (cases gfattr)
    case None
    then show ?thesis using fetch False get delete_step [OF settled_found(1)]
      by (auto simp: unifyfs_fid_fetch_def option_chain Let_def split: if_splits)
  next
    case (Some attr)
    have known: ?thesis if "0 \<le> unifyfs_fid_from_path c path"
      using that Some fetch False get
      by (auto simp: unifyfs_fid_fetch_def Let_def option_chain split: if_splits dest: update_meta_step)
    have new: ?thesis if "\<not> 0 \<le> unifyfs_fid_from_path c path"
    proof -
      have none: "unifyfs_fid_from_path c path = - 1"
        using that scan_names_ge [of path 0 "take (nat (max_files c)) (cl_filelist c)"] by (simp add: unifyfs_fid_from_path_def)
      note eq = fetch [unfolded unifyfs_fid_fetch_def, simplified Let_def get Some that if_False prod.case bind.simps option.case]
      obtain res c1 where part: "ok_step c c1" "(case res of Inl e \<Rightarrow> Some (e, c1, s1)
          | Inr fid \<Rightarrow> unifyfs_fid_update_file_meta c1 fid attr \<bind> (\<lambda>(rc, c). Some (UNIFYFS_SUCCESS, c, s1))) = Some (rc, c', s')"
        using eq False by (auto simp: bind_eq_Some_conv [of _ _ "(rc, c', s')"] dest: fetch_new_step [OF _ none] split: if_splits)
      then show ?thesis by (cases res) (auto simp: option_chain dest!: update_meta_step intro: ok_step_trans)
    qed
    show ?thesis using known new by blast
  qed
qed simp

lemma truncate_meta_ok:
  assumes trunc: "fid_truncate_write_meta env c m sz = Some (rc, m')" and m: "meta_ok c m" "fm_storage m = FILE_STORAGE_LOGIO"
  shows "meta_ok c m' \<and> fm_fid m' = fm_fid m \<and> fm_pending_unlink m' = fm_pending_unlink m"
proof -
  have sync: "seg_inv (fm_extents_sync m)" and ext: "use_local_extents c \<Longrightarrow> seg_inv (fm_extents m)"
    using m by (auto simp: meta_ok_def)
  have clear: "seg_tree_clear T = Some T' \<Longrightarrow> seg_inv T \<Longrightarrow> seg_inv T'" for T T'
    using seg_clear_spec [of T] by auto
  have remove: "seg_tree_remove al T sz (- 1) = Some (r, T') \<Longrightarrow> seg_inv T \<Longrightarrow> seg_inv T'" for al T T' r
    using seg_remove_tail [of T al sz] by auto
  have E: "use_local_extents c \<and> seg_inv E \<or> E = fm_extents m \<Longrightarrow> seg_inv S \<Longrightarrow> m' = m\<lparr>fm_extents_sync := S, fm_extents := E\<rparr> \<Longrightarrow> ?thesis" for S E
    using m by (auto simp: meta_ok_def)
  show ?thesis
  proof (cases "sz = 0")
    case True
    then obtain S E where "seg_tree_clear (fm_extents_sync m) = Some S" "m' = m\<lparr>fm_extents_sync := S, fm_extents := E\<rparr>"
      "(if use_local_extents c then seg_tree_clear (fm_extents m) else Some (fm_extents m)) = Some E"
      using trunc by (auto simp: fid_truncate_write_meta_def bind_eq_Some_conv)
    then show ?thesis using clear sync ext E [of E S] by (auto split: if_splits)
  next
    case False
    then obtain S E r r' where "seg_tree_remove (en_alloc env) (fm_extents_sync m) sz (- 1) = Some (r, S)"
      "m' = m\<lparr>fm_extents_sync := S, fm_extents := E\<rparr>"
      "(if use_local_extents c then seg_tree_remove (en_alloc env) (fm_extents m) sz (- 1) else Some (r, fm_extents m)) = Some (r', E)"
      using trunc by (auto simp: fid_truncate_write_meta_def bind_eq_Some_conv)
    then show ?thesis using remove sync ext E [of E S] by (auto split: if_splits)
  qed
qed

lemma truncate_step:
  assumes "unifyfs_fid_truncate env srv f len (c, s) = Some (rc, c', s')"
  shows "ok_step c c'"
proof -
  obtain found c1 where get: "unifyfs_get_meta_from_fid c f = Some (found, c1)"
    using assms by (auto simp: unifyfs_fid_truncate_def option_chain)
  then obtain m where found: "found = Some m" using assms by (cases found) (auto simp: unifyfs_fid_truncate_def)
  then have c1: "c1 = c" "0 \<le> f" "f < max_files c" "m = meta_of c f" using get get_meta_Some [of c f m c1] by auto
  have size: "ok_step c2 (set_meta c2 f (m2\<lparr>fm_attrs := a\<rparr>))" if "meta_at c2 f = Some m2" "max_files c2 = max_files c" for c2 m2 a
    using that c1 by (intro set_meta_step) (auto simp: meta_at_def dest: meta_okD split: if_splits)
  show ?thesis
  proof (cases "client_ok c")
    case True
    have trunc: "ok_step c (set_meta c f m2)"
      if "fid_truncate_write_meta env c m len = Some (r, m2)" "fm_storage m = FILE_STORAGE_LOGIO" for r m2
      using truncate_meta_ok [OF that(1)] that(2) c1 meta_okD [OF True c1(2,3)] by (intro set_meta_step) auto
    have rest: "ok_step c c5"
      if "fid_truncate_write_meta env c m len = Some (r, m2)" "fm_storage m = FILE_STORAGE_LOGIO"
        "unifyfs_fid_sync_extents srv f (set_meta c f m2, s) = Some (r', c3, s3)"
        "meta_at c3 f = Some m3" "unifyfs_gfid_from_fid (set_meta c3 f (m3\<lparr>fm_attrs := a\<rparr>)) f = Some (g, c5)"
      for r m2 r' c3 s3 m3 a g c5
    proof -
      have 3: "ok_step c c3" using trunc [OF that(1,2)] sync_step [OF that(3)] ok_step_trans by blast
      then have "max_files c3 = max_files c" using True by (simp add: ok_step_def)
      from size [OF that(4) this] 3 query_steps(3) [OF that(5)] show ?thesis using ok_step_trans by blast
    qed
    show ?thesis using assms get found c1(1)
      by (auto simp: unifyfs_fid_truncate_def option_chain Let_def split: if_splits
          intro: trunc rest dest: ok_step_trans [OF trunc sync_step])
  qed (simp add: ok_step_def)
qed

text \<open>Deleting an id that an earlier step has found.\<close>

lemma delete_after:
  assumes "ok_step c c1" "client_ok c \<Longrightarrow> settled c1 f" "unifyfs_fid_delete c1 f = Some (rc, c')"
  shows "ok_step c c'"
proof (cases "client_ok c")
  case True
  then show ?thesis using delete_step [OF _ assms(3)] assms(1,2) ok_step_trans by blast
qed (simp add: ok_step_def)

lemma open_fetched_step:
  assumes opened: "open_fetched env srv f flags mode (c, s) = Some (res, c', s')" and f: "client_ok c \<Longrightarrow> settled c f"
  shows "ok_step c c'"
proof -
  obtain d c1 where c1: "unifyfs_fid_is_dir c f = Some (d, c1)"
    using opened by (auto simp: open_fetched_def option_chain)
  note step1 = query_steps(2) [OF c1]
  have del: "ok_step c c'" if "ok_step c c2" "unifyfs_fid_delete c2 f = Some (r, c')" for c2 r c'
    using f delete_after [OF that(1) _ that(2)] that(1) by (auto simp: ok_step_def)
  show ?thesis
  proof (cases "(flags AND O_DIRECTORY \<noteq> 0 \<and> \<not> d) \<or> (flags AND O_DIRECTORY = 0 \<and> d)")
    case True
    then show ?thesis using opened c1 del [OF step1] by (auto simp: open_fetched_def option_chain)
  next
    case False
    obtain l c2 where c2: "unifyfs_fid_is_laminated c1 f = Some (l, c2)"
      using opened c1 False by (auto simp: open_fetched_def option_chain)
    note step2 = ok_step_trans [OF step1 query_steps(1) [OF c2]]
    show ?thesis using opened c1 c2 False del [OF step2] step2
      by (auto simp: open_fetched_def option_chain Let_def split: if_splits dest!: truncate_step size_steps(1) intro: ok_step_trans)
  qed
qed

lemma open_step:
  assumes opened: "unifyfs_fid_open env srv path flags mode (c, s) = Some (res, c', s')"
  shows "ok_step c c'"
proof -
  have "ok_step c c'" if "unifyfs_fid_fetch env srv path (c, s1) = Some (r, c1, s2)"
    "open_fetched env srv (unifyfs_fid_from_path c1 path) flags mode' (c1, s2) = Some (res, c', s')" for s1 r c1 s2 mode'
    using fetch_step [OF that(1)] open_fetched_step [OF that(2)] ok_step_trans by simp
  then show ?thesis using opened
    by (auto simp: unifyfs_fid_open_def option_chain Let_def split: if_splits dest: fetch_step)
qed

lemma unlink_step:
  assumes "unifyfs_fid_unlink srv f (c, s) = Some (rc, c', s')" "client_ok c \<Longrightarrow> settled c f"
  shows "ok_step c c'"
proof -
  obtain g c1 r c2 where c1: "unifyfs_gfid_from_fid c f = Some (g, c1)" "unifyfs_fid_delete c1 f = Some (r, c2)"
    and c': "c' = c2 \<or> (\<exists>l. c' = c2\<lparr>cl_logio := l\<rparr>)"
    using assms(1) by (auto simp: unifyfs_fid_unlink_def option_chain split: if_splits)
  have "ok_step c c2" using query_steps(3) [OF c1(1)] assms(2)
    by (intro delete_after [OF _ _ c1(2)]) (auto simp: ok_step_def)
  then show ?thesis using c' by auto
qed

section \<open>Writing\<close>

lemma set_tree_step:
  assumes "meta_at c f = Some m" "f < max_files c" "fm_fid m' = fm_fid m" "fm_pending_unlink m' = fm_pending_unlink m"
    "meta_ok c m \<Longrightarrow> meta_ok c m'"
  shows "ok_step c (set_meta c f m')"
proof -
  have f: "0 \<le> f" "m = meta_of c f" using assms(1) by (auto simp: meta_at_def split: if_splits)
  show ?thesis using assms f meta_okD [OF _ f(1) assms(2)] by (intro set_meta_step) auto
qed

text \<open>The range of a write does not wrap around.\<close>

lemma seg_add_inv: "seg_inv T \<Longrightarrow> s \<le> e \<Longrightarrow> seg_tree_add al T s e p k = Some (rc, T') \<Longrightarrow> seg_inv T'"
  by (rule seg_add_cases [of T s e al p k]) auto

text \<open>The stages of recording a write.\<close>

lemma add_write_cases:
  assumes add: "add_write_meta_to_index env srv f pos log len (c, s) = Some (rc, c', s')"
  obtains m E c2 s2 m2 r T where "meta_at c f = Some m"
    "if use_local_extents c then \<exists>r. seg_tree_add (en_alloc env 1) (fm_extents m) pos (pos + len - 1) log (cl_client_id c) = Some (r, E)
      else E = fm_extents m"
    "if seg_tree_count (fm_extents_sync m) \<ge> max_write_index_entries c - 2
      then \<exists>r. unifyfs_fid_sync_extents srv (fm_fid m) (set_meta c f (m\<lparr>fm_extents := E\<rparr>), s) = Some (r, c2, s2)
      else c2 = set_meta c f (m\<lparr>fm_extents := E\<rparr>) \<and> s2 = s"
    "meta_at c2 f = Some m2"
    "seg_tree_add (en_alloc env 2) (fm_extents_sync m2) pos (pos + len - 1) log (cl_client_id c2) = Some (r, T)"
    "rc = UNIFYFS_SUCCESS" "c' = set_meta c2 f (m2\<lparr>fm_extents_sync := T\<rparr>)" "s' = s2"
proof -
  obtain m where m: "meta_at c f = Some m" using add by (auto simp: add_write_meta_to_index_def option_chain)
  let ?X = "if use_local_extents c then do {
         (rc, T) \<leftarrow> seg_tree_add (en_alloc env 1) (fm_extents m) pos (pos + len - 1) log (cl_client_id c);
         Some T
       } else Some (fm_extents m)"
  obtain E where E: "?X = Some E" using add m by (cases ?X) (simp_all add: add_write_meta_to_index_def)
  let ?c = "set_meta c f (m\<lparr>fm_extents := E\<rparr>)"
  let ?Y = "if seg_tree_count (fm_extents_sync m) \<ge> max_write_index_entries c - 2
    then unifyfs_fid_sync_extents srv (fm_fid m) (?c, s) \<bind> (\<lambda>(rc, c, s). Some (c, s)) else Some (?c, s)"
  have add': "(?Y \<bind> (\<lambda>(c, s). meta_at c f \<bind> (\<lambda>meta.
     seg_tree_add (en_alloc env 2) (fm_extents_sync meta) pos (pos + len - 1) log (cl_client_id c) \<bind> (\<lambda>(rc, T).
       Some (UNIFYFS_SUCCESS, set_meta c f (meta\<lparr>fm_extents_sync := T\<rparr>), s))))) = Some (rc, c', s')"
    using add m E by (simp add: add_write_meta_to_index_def Let_def cong: if_cong)
  then obtain c2 s2 where Y: "?Y = Some (c2, s2)" by (auto simp: bind_eq_Some_conv)
  then obtain m2 r T where m2: "meta_at c2 f = Some m2"
    "seg_tree_add (en_alloc env 2) (fm_extents_sync m2) pos (pos + len - 1) log (cl_client_id c2) = Some (r, T)"
    "rc = UNIFYFS_SUCCESS" "c' = set_meta c2 f (m2\<lparr>fm_extents_sync := T\<rparr>)" "s' = s2"
    using add' unfolding Y by (auto simp: bind_eq_Some_conv)
  show thesis
    by (rule that [OF m _ _ m2]) (use E Y in \<open>auto simp: option_chain split: if_splits\<close>)
qed

lemma add_write_step:
  assumes add: "add_write_meta_to_index env srv f pos log len (c, s) = Some (rc, c', s')"
    and len: "pos \<le> pos + len - 1" and f: "f < max_files c"
  shows "ok_step c c'"
proof (cases "client_ok c")
  case True
  show ?thesis
  proof (rule add_write_cases [OF add], goal_cases)
    case (1 m E c2 s2 m2 r T)
    let ?c = "set_meta c f (m\<lparr>fm_extents := E\<rparr>)"
    have "meta_ok c (m\<lparr>fm_extents := E\<rparr>)" if "meta_ok c m"
      using that 1(2) by (auto simp: meta_ok_def split: if_splits intro: seg_add_inv [OF _ len])
    then have c1: "ok_step c ?c" by (intro set_tree_step [OF 1(1) f]) auto
    have c2: "ok_step c c2" using 1(3) c1 by (auto split: if_splits dest: sync_step intro: ok_step_trans)
    then have f2: "f < max_files c2" using f True by (simp add: ok_step_def)
    have "meta_ok c2 (m2\<lparr>fm_extents_sync := T\<rparr>)" if "meta_ok c2 m2"
      using that 1(5) by (auto simp: meta_ok_def intro: seg_add_inv [OF _ len])
    then have "ok_step c2 c'" unfolding 1(7) by (intro set_tree_step [OF 1(4) f2]) auto
    then show ?case using c2 ok_step_trans by blast
  qed
qed (simp add: ok_step_def)

text \<open>
  What a write relies on: the bytes are in the range of offsets, and a \<^verbatim>\<open>pwrite\<close> of bytes to the
  spill file writes some of them or fails with an error code.
\<close>

definition io_ok :: "client_env \<Rightarrow> bool" where
  "io_ok env \<longleftrightarrow> en_pwrite env \<noteq> Inr 0 \<and> en_pwrite env \<noteq> Inl UNIFYFS_SUCCESS"

definition in_offsets :: "u64 \<Rightarrow> u64 \<Rightarrow> bool" where
  "in_offsets pos count \<longleftrightarrow> unat pos + unat count \<le> 2 ^ 64"

lemma log_sizes_sum:
  assumes "get_log_sizes off n sz = (a, b, o')"
  shows "unat a + unat b = unat n"
proof -
  have "unat off + unat n < 2 ^ 64 \<Longrightarrow> unat (off + n) = unat off + unat n" by (simp add: unat_word_ariths)
  moreover have "\<not> unat off + unat n < 2 ^ 64 \<Longrightarrow> unat (off + n) < unat off"
    using unsigned_less [of off, where 'a = nat] unsigned_less [of n, where 'a = nat] by (auto simp: unat_word_ariths mod_if)
  ultimately have "sz - off \<le> n" if "\<not> off + n \<le> sz" "off < sz"
    using that by (cases "unat off + unat n < 2 ^ 64") (auto simp: word_le_nat_alt word_less_nat_alt unat_sub)
  then show ?thesis using assms
    by (auto simp: get_log_sizes_def unat_sub word_le_nat_alt [of "_ - _"] split: if_splits)
qed

lemma logio_write_count:
  assumes w: "unifyfs_logio_write io ctx off n buf = Some (UNIFYFS_SUCCESS, w, ctx')" and n: "n \<noteq> 0"
    and io: "io \<noteq> Inr 0" "io \<noteq> Inl UNIFYFS_SUCCESS"
  shows "0 < w \<and> w \<le> unat n"
proof -
  obtain a b o' where sizes: "get_log_sizes off n (mem_data_sz ctx) = (a, b, o')" by (cases "get_log_sizes off n (mem_data_sz ctx)") auto
  note sum = log_sizes_sum [OF sizes]
  have b: "0 < b \<longleftrightarrow> 0 < unat b" "0 < a \<longleftrightarrow> 0 < unat a" by (simp_all add: word_less_nat_alt)
  have n': "0 < unat n" using n by (simp add: unat_gt_0)
  have len: "unat n \<le> length buf" using w n by (auto simp: unifyfs_logio_write_def split: if_splits)
  show ?thesis using w n io sum len sizes n'
    by (auto simp: unifyfs_logio_write_def Let_def option_chain file_pwrite_def b split: if_splits option.splits sum.splits)
qed

lemma write_range:
  assumes "in_offsets pos count" "0 < w" "w \<le> unat count"
  shows "pos \<le> pos + of_nat w - 1"
proof -
  have w: "unat (of_nat w :: u64) = w" using assms(3) unsigned_less [of count, where 'a = nat] by (simp add: unat_of_nat)
  have "unat (pos + (of_nat w - 1)) = unat pos + (w - 1)"
    using assms w by (simp add: in_offsets_def unat_word_ariths unat_sub word_le_nat_alt)
  then show ?thesis by (simp add: word_le_nat_alt algebra_simps)
qed

lemma logio_write_cases:
  assumes wr: "fid_logio_write env srv f m pos buf count (c, s) = Some (rc, w, c', s')"
  shows "rc \<noteq> UNIFYFS_SUCCESS \<and> (\<exists>l. c' = c\<lparr>cl_logio := l\<rparr>) \<and> s' = s \<or>
    fm_storage m = FILE_STORAGE_LOGIO \<and>
    (\<exists>off l1 l2. unifyfs_logio_alloc (cl_logio c) count = Some (UNIFYFS_SUCCESS, Some off, l1) \<and>
       unifyfs_logio_write (en_pwrite env) l1 off count buf = Some (UNIFYFS_SUCCESS, w, l2) \<and>
       add_write_meta_to_index env srv f pos off (of_nat w) (c\<lparr>cl_logio := l2\<rparr>, s) = Some (rc, c', s'))"
proof (cases "fm_storage m = FILE_STORAGE_LOGIO")
  case False
  then show ?thesis using wr by (auto simp: fid_logio_write_def intro: exI [of _ "cl_logio c"])
next
  case True
  then obtain rc1 off1 l1 where alloc: "unifyfs_logio_alloc (cl_logio c) count = Some (rc1, off1, l1)"
    using wr by (auto simp: fid_logio_write_def option_chain)
  show ?thesis
  proof (cases "rc1 = UNIFYFS_SUCCESS")
    case False
    then show ?thesis using wr True alloc by (auto simp: fid_logio_write_def)
  next
    case success: True
    obtain off where off: "off1 = Some off" using wr True alloc success by (cases off1) (auto simp: fid_logio_write_def)
    obtain rc2 w2 l2 where wrote: "unifyfs_logio_write (en_pwrite env) l1 off count buf = Some (rc2, w2, l2)"
      using wr True alloc success off by (auto simp: fid_logio_write_def option_chain)
    show ?thesis using wr True alloc success off wrote
      by (cases "rc2 = UNIFYFS_SUCCESS") (auto simp: fid_logio_write_def option_chain)
  qed
qed

lemma logio_write_step:
  assumes wr: "fid_logio_write env srv f m pos buf count (c, s) = Some (rc, w, c', s')" and count: "count \<noteq> 0"
    and ok: "io_ok env" "in_offsets pos count" and f: "f < max_files c"
  shows "ok_step c c'"
proof -
  have "ok_step c c'" if "unifyfs_logio_write (en_pwrite env) l1 off count buf = Some (UNIFYFS_SUCCESS, w, l2)"
    "add_write_meta_to_index env srv f pos off (of_nat w) (c\<lparr>cl_logio := l2\<rparr>, s) = Some (rc, c', s')" for l1 off l2
  proof -
    have "0 < w \<and> w \<le> unat count" using logio_write_count [OF that(1) count] ok(1) by (simp add: io_ok_def)
    then have "ok_step (c\<lparr>cl_logio := l2\<rparr>) c'" using write_range [OF ok(2)] f by (intro add_write_step [OF that(2)]) auto
    then show ?thesis by simp
  qed
  then show ?thesis using logio_write_cases [OF wr] by auto
qed

lemma write_cases:
  assumes wr: "unifyfs_fid_write env srv f pos buf count (c, s) = Some (rc, w, c', s')" and count: "count \<noteq> 0"
  obtains m where "0 \<le> f" "f < max_files c" "meta_at c f = Some m" "m = meta_of c f"
    "unifyfs_get_meta_from_fid c f = Some (Some m, c)"
    "fa_is_laminated (fm_attrs m) \<noteq> 0 \<and> rc = EROFS \<and> c' = c \<and> s' = s \<or>
     fa_is_laminated (fm_attrs m) = 0 \<and> fm_storage m \<noteq> FILE_STORAGE_LOGIO \<and> rc = EIO \<and> c' = c \<and> s' = s \<or>
     fa_is_laminated (fm_attrs m) = 0 \<and> fm_storage m = FILE_STORAGE_LOGIO \<and>
     (\<exists>rc1 c1 s1. fid_logio_write env srv f m pos buf count (c, s) = Some (rc1, w, c1, s1) \<and>
        (rc1 \<noteq> UNIFYFS_SUCCESS \<and> rc = rc1 \<and> c' = c1 \<and> s' = s1 \<or>
         rc1 = UNIFYFS_SUCCESS \<and> (\<exists>m1. meta_at c1 f = Some m1 \<and>
           (if use_write_sync c1
            then unifyfs_fid_sync_extents srv f (set_meta c1 f (m1\<lparr>fm_needs_writes_sync := True\<rparr>), s1) = Some (rc, c', s')
            else rc = UNIFYFS_SUCCESS \<and> c' = set_meta c1 f (m1\<lparr>fm_needs_writes_sync := True\<rparr>) \<and> s' = s1))))"
proof -
  obtain found c1 where get: "unifyfs_get_meta_from_fid c f = Some (found, c1)"
    using wr count by (auto simp: unifyfs_fid_write_def option_chain)
  then obtain m where found: "found = Some m" using wr count by (cases found) (auto simp: unifyfs_fid_write_def)
  have m: "c1 = c" "0 \<le> f" "f < max_files c" "meta_at c f = Some m" "m = meta_of c f"
    using get_meta_cases [OF get] found by auto
  show thesis
  proof (rule that [OF m(2-)], goal_cases)
    case 2
    note eq = wr [unfolded unifyfs_fid_write_def, simplified get found m(1) prod.case bind.simps count if_False]
    show ?case
    proof (cases "fa_is_laminated (fm_attrs m) = 0 \<and> fm_storage m = FILE_STORAGE_LOGIO")
      case True
      obtain rc1 w1 c2 s2 where log: "fid_logio_write env srv f m pos buf count (c, s) = Some (rc1, w1, c2, s2)"
        using eq True by (auto simp: bind_eq_Some_conv)
      show ?thesis
      proof (cases "rc1 = UNIFYFS_SUCCESS")
        case success: True
        obtain m1 where m1: "meta_at c2 f = Some m1" using eq True log success by (auto simp: bind_eq_Some_conv)
        show ?thesis using eq True log success m1
          by (cases "use_write_sync c2") (auto simp: bind_eq_Some_conv Let_def)
      qed (use eq True log in auto)
    qed (use eq in \<open>auto split: if_splits\<close>)
  qed (use get found m(1) in simp)
qed

lemma write_step:
  assumes wr: "unifyfs_fid_write env srv f pos buf count (c, s) = Some (rc, w, c', s')"
    and ok: "io_ok env" "in_offsets pos count"
  shows "ok_step c c'"
proof (cases "count = 0")
  case True
  then show ?thesis using wr by (simp add: unifyfs_fid_write_def)
next
  case False
  show ?thesis
  proof (rule write_cases [OF wr False], goal_cases)
    case (1 m)
    note log = logio_write_step [OF _ False ok 1(2)]
    have dirty: "ok_step c (set_meta c2 f (m2\<lparr>fm_needs_writes_sync := True\<rparr>))" if "ok_step c c2" "meta_at c2 f = Some m2" for c2 m2
    proof (cases "client_ok c")
      case True
      then have "f < max_files c2" using that(1) 1(2) by (simp add: ok_step_def)
      then have "ok_step c2 (set_meta c2 f (m2\<lparr>fm_needs_writes_sync := True\<rparr>))" by (intro set_tree_step [OF that(2)]) auto
      then show ?thesis using that(1) ok_step_trans by blast
    qed (simp add: ok_step_def)
    show ?case using 1(6)
      by (auto dest: log sync_step intro: dirty split: if_splits intro: ok_step_trans [OF dirty [OF log] sync_step])
  qed
qed

end
