(* ===== verification/Client_Api.thy ===== *)
theory Client_Api
  imports Client_Table
begin

text \<open>
  The file operations of the library API, \<^verbatim>\<open>client/src/unifyfs_api_file.c\<close>. They name files by path or
  by global id. The checks for null arguments are not modelled, a handle is always valid. \<open>mount\<close> is the
  mount prefix of the client.
\<close>

section \<open>Operations\<close>

fun strncmp :: "string \<Rightarrow> string \<Rightarrow> nat \<Rightarrow> int" where
  "strncmp as bs 0 = 0"
| "strncmp [] [] (Suc n) = 0"
| "strncmp [] (b # bs) (Suc n) = - 1"
| "strncmp (a # as) [] (Suc n) = 1"
| "strncmp (a # as) (b # bs) (Suc n) =
     (if a = b then strncmp as bs n else if (of_char a :: nat) < of_char b then - 1 else 1)"

definition is_unifyfs_path :: "string \<Rightarrow> string \<Rightarrow> bool" where
  "is_unifyfs_path mount filepath =
     (let len = length mount in
      strncmp filepath mount len = 0 \<and> \<not> (length filepath > len \<and> filepath ! len \<noteq> CHR ''/''))"

text \<open>The gfid returned is \<^term>\<open>0 :: int\<close>, \<^verbatim>\<open>UNIFYFS_INVALID_GFID\<close>, on an error.\<close>

definition UNIFYFS_INVALID_GFID :: int where
  "UNIFYFS_INVALID_GFID = 0"

definition unifyfs_open ::
  "client_env \<Rightarrow> 's client_rpcs \<Rightarrow> string \<Rightarrow> u32 \<Rightarrow> string \<Rightarrow> client \<times> 's \<Rightarrow> (unifyfs_rc \<times> int \<times> client \<times> 's) option" where
  "unifyfs_open env srv mount flags filepath cs =
     (if \<not> is_unifyfs_path mount filepath then Some (EINVAL, UNIFYFS_INVALID_GFID, cs)
      else if flags AND NOT (O_RDONLY OR O_RDWR OR O_WRONLY) \<noteq> 0 then Some (EINVAL, UNIFYFS_INVALID_GFID, cs)
      else do {
        (rc, cs) \<leftarrow> unifyfs_fid_fetch env srv filepath cs;
        Some (rc, if rc = UNIFYFS_SUCCESS then unifyfs_generate_gfid (en_md5 env) filepath else UNIFYFS_INVALID_GFID, cs)
      })"

definition unifyfs_create ::
  "client_env \<Rightarrow> 's client_rpcs \<Rightarrow> string \<Rightarrow> u32 \<Rightarrow> string \<Rightarrow> client \<times> 's \<Rightarrow> (unifyfs_rc \<times> int \<times> client \<times> 's) option" where
  "unifyfs_create env srv mount flags filepath cs = (case cs of (c, s) \<Rightarrow>
     if \<not> is_unifyfs_path mount filepath then Some (EINVAL, UNIFYFS_INVALID_GFID, c, s)
     else do {
       (ret, s) \<leftarrow> unifyfs_gfid_create env srv filepath True (flags AND O_EXCL \<noteq> 0 \<and> use_excl_private c)
         UNIFYFS_STAT_DEFAULT_FILE_MODE s;
       if ret \<noteq> UNIFYFS_SUCCESS then Some (ret, UNIFYFS_INVALID_GFID, c, s)
       else unifyfs_open env srv mount flags filepath (c, s)
     })"

definition unifyfs_sync :: "'s client_rpcs \<Rightarrow> int \<Rightarrow> client \<times> 's \<Rightarrow> (unifyfs_rc \<times> client \<times> 's) option" where
  "unifyfs_sync srv gfid cs = (case cs of (c, s) \<Rightarrow>
     if gfid = UNIFYFS_INVALID_GFID then Some (EINVAL, c, s)
     else
       let fid = unifyfs_fid_from_gfid c gfid in
       if fid = - 1 then Some (EINVAL, c, s) else unifyfs_fid_sync_extents srv fid (c, s))"

record unifyfs_file_status =
  fs_laminated :: int
  fs_mode :: u32
  fs_local_file_size :: u64
  fs_global_file_size :: u64
  fs_local_write_nbytes :: u64

definition unifyfs_stat ::
  "'s client_rpcs \<Rightarrow> int \<Rightarrow> client \<times> 's \<Rightarrow> (unifyfs_rc \<times> unifyfs_file_status option \<times> client \<times> 's) option" where
  "unifyfs_stat srv gfid cs = (case cs of (c, s) \<Rightarrow>
     if gfid = UNIFYFS_INVALID_GFID then Some (EINVAL, None, c, s)
     else
       let fid = unifyfs_fid_from_gfid c gfid in
       if fid = - 1 then Some (EINVAL, None, c, s)
       else do {
         (found, c) \<leftarrow> unifyfs_get_meta_from_fid c fid;
         case found of
           None \<Rightarrow> Some (UNIFYFS_FAILURE, None, c, s)
         | Some meta \<Rightarrow> do {
             (rc, attr, s) \<leftarrow> unifyfs_get_global_file_meta srv gfid s;
             (rc, c) \<leftarrow> (case attr of
                 None \<Rightarrow> Some (rc, c)
               | Some attr \<Rightarrow> unifyfs_fid_update_file_meta c fid attr);
             meta \<leftarrow> meta_at c fid;
             let attrs = fm_attrs meta in
             Some (UNIFYFS_SUCCESS, Some \<lparr>fs_laminated = fa_is_laminated attrs, fs_mode = fa_mode attrs,
               fs_local_file_size = fa_size attrs, fs_global_file_size = fa_size attrs, fs_local_write_nbytes = 0\<rparr>, c, s)
           }
       })"

definition unifyfs_laminate ::
  "client_env \<Rightarrow> 's client_rpcs \<Rightarrow> string \<Rightarrow> string \<Rightarrow> client \<times> 's \<Rightarrow> (unifyfs_rc \<times> client \<times> 's) option" where
  "unifyfs_laminate env srv mount filepath cs = (case cs of (c, s) \<Rightarrow>
     if \<not> is_unifyfs_path mount filepath then Some (EINVAL, c, s)
     else
       let gfid = unifyfs_generate_gfid (en_md5 env) filepath in do {
         (rc, s) \<leftarrow> rpc_laminate srv gfid s;
         let fid = unifyfs_fid_from_gfid c gfid in
         if rc = UNIFYFS_SUCCESS \<and> fid \<noteq> - 1 then do {
           (rc, attr, s) \<leftarrow> unifyfs_get_global_file_meta srv gfid s;
           case attr of
             None \<Rightarrow> Some (rc, c, s)
           | Some attr \<Rightarrow> do { (r, c) \<leftarrow> unifyfs_fid_update_file_meta c fid attr; Some (rc, c, s) }
         } else Some (rc, c, s)
       })"

definition unifyfs_remove ::
  "client_env \<Rightarrow> 's client_rpcs \<Rightarrow> string \<Rightarrow> string \<Rightarrow> client \<times> 's \<Rightarrow> (unifyfs_rc \<times> client \<times> 's) option" where
  "unifyfs_remove env srv mount filepath cs = (case cs of (c, s) \<Rightarrow>
     if \<not> is_unifyfs_path mount filepath then Some (EINVAL, c, s)
     else
       let gfid = unifyfs_generate_gfid (en_md5 env) filepath; fid = unifyfs_fid_from_gfid c gfid in do {
         (ret, c) \<leftarrow> (if fid \<noteq> - 1 then unifyfs_fid_delete c fid else Some (UNIFYFS_SUCCESS, c));
         (rc, logio, s) \<leftarrow> rpc_unlink srv gfid (cl_logio c) s;
         Some (if rc \<noteq> UNIFYFS_SUCCESS then rc else ret, c\<lparr>cl_logio := logio\<rparr>, s)
       })"

section \<open>Runs of a client\<close>

text \<open>
  What an application and the server can ask of a client. Open, mkdir and unlink are the calls of the
  system-call wrappers; a write or a truncation names the file by the id that its gfid has, as the
  dispatch of I/O requests does. Each request has its own environment.
\<close>

datatype client_request =
    Open_File client_env string u32 u32
  | Make_Directory client_env string
  | Unlink_File string
  | Api_Create client_env string u32 string
  | Api_Open client_env string u32 string
  | Api_Laminate client_env string string
  | Api_Remove client_env string string
  | Api_Sync int
  | Api_Stat int
  | File_Size int
  | Write_File client_env int u64 "u8 list" u64
  | Truncate_File client_env int u64
  | Unlink_Callback int

fun client_perform :: "'s client_rpcs \<Rightarrow> client_request \<Rightarrow> client \<times> 's \<Rightarrow> (client \<times> 's) option" where
  "client_perform srv (Open_File env path flags mode) cs = map_option snd (unifyfs_fid_open env srv path flags mode cs)"
| "client_perform srv (Make_Directory env path) cs = map_option snd (unifyfs_fid_create_directory env srv path cs)"
| "client_perform srv (Unlink_File path) cs = map_option snd (unifyfs_fid_unlink srv (unifyfs_fid_from_path (fst cs) path) cs)"
| "client_perform srv (Api_Create env mount flags path) cs = map_option (snd \<circ> snd) (unifyfs_create env srv mount flags path cs)"
| "client_perform srv (Api_Open env mount flags path) cs = map_option (snd \<circ> snd) (unifyfs_open env srv mount flags path cs)"
| "client_perform srv (Api_Laminate env mount path) cs = map_option snd (unifyfs_laminate env srv mount path cs)"
| "client_perform srv (Api_Remove env mount path) cs = map_option snd (unifyfs_remove env srv mount path cs)"
| "client_perform srv (Api_Sync gfid) cs = map_option snd (unifyfs_sync srv gfid cs)"
| "client_perform srv (Api_Stat gfid) cs = map_option (snd \<circ> snd) (unifyfs_stat srv gfid cs)"
| "client_perform srv (File_Size gfid) cs = map_option snd (unifyfs_gfid_filesize srv gfid cs)"
| "client_perform srv (Write_File env gfid pos buf count) cs =
     map_option (snd \<circ> snd) (unifyfs_fid_write env srv (unifyfs_fid_from_gfid (fst cs) gfid) pos buf count cs)"
| "client_perform srv (Truncate_File env gfid len) cs =
     map_option snd (unifyfs_fid_truncate env srv (unifyfs_fid_from_gfid (fst cs) gfid) len cs)"
| "client_perform srv (Unlink_Callback gfid) (c, s) = map_option (\<lambda>c. (c, s)) (unlink_callback gfid c)"

fun client_run :: "'s client_rpcs \<Rightarrow> client_request list \<Rightarrow> client \<times> 's \<Rightarrow> (client \<times> 's) option" where
  "client_run srv [] cs = Some cs"
| "client_run srv (r # rs) cs = do { cs \<leftarrow> client_perform srv r cs; client_run srv rs cs }"

fun client_request_ok :: "client_request \<Rightarrow> bool" where
  "client_request_ok (Write_File env gfid pos buf count) = (io_ok env \<and> in_offsets pos count)"
| "client_request_ok _ = True"

lemma api_open_step: "unifyfs_open env srv mount flags path (c, s) = Some (rc, g, c', s') \<Longrightarrow> ok_step c c'"
  by (auto simp: unifyfs_open_def option_chain split: if_splits dest: fetch_step)

lemma api_steps:
  "unifyfs_create env srv mount flags path (c, s) = Some (rc1, g, c', s') \<Longrightarrow> ok_step c c'"
  "unifyfs_sync srv gfid (c, s) = Some (rc2, c', s') \<Longrightarrow> ok_step c c'"
  "unifyfs_laminate env srv mount path (c, s) = Some (rc3, c', s') \<Longrightarrow> ok_step c c'"
  "unifyfs_remove env srv mount path (c, s) = Some (rc4, c', s') \<Longrightarrow> ok_step c c'"
  by (auto simp: unifyfs_create_def unifyfs_sync_def unifyfs_laminate_def unifyfs_remove_def option_chain Let_def
      split: if_splits option.splits dest: api_open_step sync_step update_meta_step delete_step [OF settled_found(2)])

lemma api_stat_step:
  assumes "unifyfs_stat srv gfid (c, s) = Some (rc, st, c', s')"
  shows "ok_step c c'"
proof -
  have "ok_step c c'" if "unifyfs_get_meta_from_fid c f = Some (Some m, c1)" "unifyfs_fid_update_file_meta c1 f a = Some (r, c')" for f m c1 a r
    using get_meta_Some [OF that(1)] update_meta_step [OF that(2)] by simp
  then show ?thesis using assms
    by (auto simp: unifyfs_stat_def option_chain Let_def split: if_splits option.splits dest: get_meta_step)
qed

lemma client_step:
  assumes "client_perform srv r (c, s) = Some (c', s')" "client_request_ok r"
  shows "ok_step c c'"
  using assms
  by (cases r) (auto dest: open_step create_directory_step unlink_step [OF _ settled_found(1)] api_open_step api_steps api_stat_step
      size_steps(2) write_step truncate_step callback_step)

lemma client_run_step:
  assumes "client_run srv rs (c, s) = Some (c', s')" "list_all client_request_ok rs"
  shows "ok_step c c'"
  using assms
proof (induction rs arbitrary: c s)
  case (Cons r rs)
  obtain c1 s1 where c1: "client_perform srv r (c, s) = Some (c1, s1)" "client_run srv rs (c1, s1) = Some (c', s')"
    using Cons.prems(1) by (auto simp: bind_eq_Some_conv)
  then show ?case using client_step [OF c1(1)] Cons.IH [OF c1(2)] Cons.prems(2) ok_step_trans by auto
qed simp

text \<open>A superblock of zeros with room for \<open>n\<close> files.\<close>

definition zero_superblock :: "client \<Rightarrow> bool" where
  "zero_superblock c \<longleftrightarrow> 0 \<le> max_files c \<and> length (cl_filelist c) = nat (max_files c) \<and>
     length (cl_filemetas c) = nat (max_files c) \<and>
     (\<forall>m \<in> set (cl_filemetas c). \<not> fm_pending_unlink m \<and> fm_storage m = FILE_STORAGE_NULL)"

lemma init_ok:
  assumes z: "zero_superblock c"
  shows "client_ok (init_superblock_structures c)" "max_files (init_superblock_structures c) = max_files c"
proof -
  let ?c = "init_superblock_structures c"
  have m: "meta_of c f \<in> set (cl_filemetas c)" if "f \<in> {0..<max_files c}" for f
    using z that by (auto simp: zero_superblock_def)
  have u: "\<not> in_use ?c f" if "f \<in> {0..<max_files c}" for f
    using z that by (auto simp: zero_superblock_def init_superblock_structures_def in_use_def)
  then have "names_unique ?c" by (auto simp: names_unique_def init_superblock_structures_def inj_on_def)
  moreover have "fid_ok ?c f" if "f \<in> {0..<max_files c}" for f
    using z that u m [OF that] stack_init_ok [of "max_files c"]
    by (auto simp: fid_ok_def meta_ok_def zero_superblock_def init_superblock_structures_def)
  ultimately show "client_ok ?c" using z stack_init_ok [of "max_files c"]
    by (auto simp: client_ok_def zero_superblock_def init_superblock_structures_def unifyfs_stack_init_def)
  show "max_files ?c = max_files c" by (simp add: init_superblock_structures_def)
qed

section \<open>Properties\<close>

lemma fid_from_path_in_use:
  assumes ok: "client_ok c" and f: "f \<in> {0..<max_files c}" "in_use c f"
  shows "unifyfs_fid_from_path c (name_of c f) = f"
proof -
  let ?g = "unifyfs_fid_from_path c (name_of c f)"
  have "?g \<noteq> - 1" using fid_from_path_none [OF _ ok f] by auto
  then have "?g \<in> {f \<in> {0..<max_files c}. in_use c f}" "name_of c ?g = name_of c f"
    using fid_from_path_found [OF refl, of c "name_of c f"] by auto
  then show ?thesis using ok f by (auto simp: client_ok_def names_unique_def inj_on_def)
qed

text \<open>Two files, a log without regions, and a server that knows every file.\<close>

definition example_client :: client where
  "example_client = \<lparr>cl_app_id = 0, cl_client_id = 1, use_excl_private = False, use_local_extents = False,
     use_node_local_extents = False, use_write_sync = False, max_files = 2, max_write_index_entries = 8,
     cl_free_fids = unifyfs_stack_init 0, cl_filelist = replicate 2 \<lparr>fn_in_use = False, fn_name = []\<rparr>,
     cl_filemetas = replicate 2 \<lparr>fm_fid = 0, fm_storage = FILE_STORAGE_NULL, fm_pending_unlink = False,
       fm_needs_writes_sync = False, fm_needs_reads_sync = False, fm_extents_sync = seg_tree_init,
       fm_extents = seg_tree_init, fm_attrs = unifyfs_file_attr_set_invalid\<rparr>,
     cl_index = [], cl_logio = example_ctx 8 16\<rparr>"

definition example_env :: client_env where
  "example_env = \<lparr>en_md5 = (\<lambda>path. 5), en_now = \<lparr>tv_sec = 0, tv_nsec = 0\<rparr>, en_uid = 0, en_gid = 0,
     en_alloc = (\<lambda>_ _. True), en_pwrite = Inr 16\<rparr>"

definition example_server :: "unit client_rpcs" where
  "example_server = \<lparr>rpc_metaset = (\<lambda>_ _ _. Some (UNIFYFS_SUCCESS, ())),
     rpc_metaget = (\<lambda>gfid _. Some (UNIFYFS_SUCCESS, unifyfs_file_attr_set_invalid\<lparr>fa_gfid := gfid, fa_is_laminated := 0, fa_mode := 0x81A4\<rparr>, ())),
     rpc_sync = (\<lambda>_ _ _. Some (UNIFYFS_SUCCESS, ())), rpc_filesize = (\<lambda>_ _. Some (UNIFYFS_SUCCESS, 0, ())),
     rpc_truncate = (\<lambda>_ _ _. Some (UNIFYFS_SUCCESS, ())), rpc_unlink = (\<lambda>_ l _. Some (UNIFYFS_SUCCESS, l, ())),
     rpc_laminate = (\<lambda>_ _. Some (UNIFYFS_SUCCESS, ()))\<rparr>"

text \<open>
  (C16) Whatever the application and the server do: in every state that a client reaches from a new
  superblock, an id is in use exactly when it is not on the stack of free ids, the stack has no id
  twice, the metadata of an id in use belong to it, and the lookup of the path of an id in use
  finds this id, so no path has two ids.
\<close>

theorem client_table_kept:
  assumes "zero_superblock c0" and "list_all client_request_ok rs"
    and "client_run srv rs (init_superblock_structures c0, s0) = Some (c, s)"
  shows "max_files c = max_files c0 \<and> distinct (free_ids (cl_free_fids c)) \<and>
    (\<forall>f \<in> {0..<max_files c}. (in_use c f \<longleftrightarrow> f \<notin> set (free_ids (cl_free_fids c))) \<and>
       (in_use c f \<longrightarrow> fm_fid (meta_of c f) = f \<and> unifyfs_fid_from_path c (name_of c f) = f))"
proof -
  have ok: "client_ok c" and m: "max_files c = max_files c0"
    using init_ok [OF assms(1)] client_run_step [OF assms(3,2)] by (auto simp: ok_step_def)
  have "stack_inv (cl_free_fids c)" using ok by (simp add: client_ok_def)
  moreover have "(in_use c f \<longleftrightarrow> f \<notin> set (free_ids (cl_free_fids c))) \<and> (in_use c f \<longrightarrow> fm_fid (meta_of c f) = f)"
    if "f \<in> {0..<max_files c}" for f
    using client_okD(3) [OF ok] that by (simp add: fid_ok_def)
  ultimately show ?thesis using m stack_invD(4) fid_from_path_in_use [OF ok] by blast
qed

theorem client_table_kept_witness:
  "\<exists>c. client_run example_server [Open_File example_env ''/u/a'' (O_CREAT OR O_RDWR) 0] (init_superblock_structures example_client, ())
     = Some (c, ()) \<and> in_use c 0 \<and> unifyfs_fid_from_path c (name_of c 0) = 0"
proof -
  let ?run = "client_run example_server [Open_File example_env ''/u/a'' (O_CREAT OR O_RDWR) 0] (init_superblock_structures example_client, ())"
  have "map_option (\<lambda>(c, s). (max_files c, in_use c 0)) ?run = Some (2, True)" by code_simp
  then obtain c where c: "?run = Some (c, ())" "max_files c = 2" "in_use c 0" by auto
  have "zero_superblock example_client" by (simp add: zero_superblock_def example_client_def)
  from client_table_kept [OF this _ c(1)] c show ?thesis by auto
qed

text \<open>A path belongs to the file system exactly when it is the mount point or continues it with a slash.\<close>

theorem is_unifyfs_path_iff:
  "is_unifyfs_path mount path \<longleftrightarrow> path = mount \<or> (\<exists>rest. path = mount @ CHR ''/'' # rest)"
proof -
  have cmp: "strncmp path mount (length mount) = 0 \<longleftrightarrow> (\<exists>rest. path = mount @ rest)"
    by (induction path mount "length mount" rule: strncmp.induct) auto
  have "is_unifyfs_path mount (mount @ rest) \<longleftrightarrow> rest = [] \<or> (\<exists>r. rest = CHR ''/'' # r)" for rest
  proof -
    have "strncmp (mount @ rest) mount (length mount) = 0" by (induction mount) auto
    then show ?thesis by (cases rest) (auto simp: is_unifyfs_path_def)
  qed
  moreover have "is_unifyfs_path mount path \<Longrightarrow> \<exists>rest. path = mount @ rest" using cmp by (simp add: is_unifyfs_path_def Let_def)
  ultimately show ?thesis by (metis append.right_neutral)
qed

text \<open>
  (C34) Creating a file with \<open>O_EXCL\<close> or any flag besides the access mode fails with EINVAL after the
  server has created the file: the file then exists, and the call cannot succeed.
\<close>

theorem unifyfs_create_rejects_flags:
  assumes "is_unifyfs_path mount path" and "length path + 1 \<le> UNIFYFS_MAX_FILENAME"
    and "flags AND NOT (O_RDONLY OR O_RDWR OR O_WRONLY) \<noteq> 0"
    and "rpc_metaset srv UNIFYFS_FILE_ATTR_OP_CREATE
      (new_attrs env path (flags AND O_EXCL \<noteq> 0 \<and> use_excl_private c) UNIFYFS_STAT_DEFAULT_FILE_MODE) s = Some (UNIFYFS_SUCCESS, s')"
  shows "unifyfs_create env srv mount flags path (c, s) = Some (EINVAL, UNIFYFS_INVALID_GFID, c, s')"
proof -
  have "new_attrs env path p m\<lparr>fa_gfid := unifyfs_generate_gfid (en_md5 env) path\<rparr> = new_attrs env path p m" for p m
    by (simp add: new_attrs_def)
  then show ?thesis using assms
    by (simp add: unifyfs_create_def unifyfs_gfid_create_def unifyfs_set_global_file_meta_def unifyfs_open_def)
qed

theorem unifyfs_create_rejects_flags_witness:
  "unifyfs_create example_env example_server ''/u'' O_EXCL ''/u/a'' (example_client, ()) = Some (EINVAL, 0, example_client, ())"
proof -
  have "is_unifyfs_path ''/u'' ''/u/a''" "length ''/u/a'' + 1 \<le> UNIFYFS_MAX_FILENAME"
    "O_EXCL AND NOT (O_RDONLY OR O_RDWR OR O_WRONLY) \<noteq> 0"
    by code_simp+
  from unifyfs_create_rejects_flags [OF this, of example_server example_env example_client "()" "()"]
  show ?thesis by (simp add: example_server_def UNIFYFS_INVALID_GFID_def)
qed

text \<open>
  (C38) After the server has reported that another client unlinked a file, the next write of the
  application to it does not return: the lookup of the metadata deletes the file, and the assertion
  that there are metadata fails.
\<close>

theorem write_after_unlink_aborts:
  assumes ok: "client_ok c" and found: "unifyfs_fid_from_gfid c gfid \<noteq> - 1"
    and "\<not> fm_pending_unlink (meta_of c (unifyfs_fid_from_gfid c gfid))" and "count \<noteq> 0"
  shows "\<exists>c'. unlink_callback gfid c = Some c' \<and>
    unifyfs_fid_write env srv (unifyfs_fid_from_gfid c' gfid) pos buf count (c', s) = None"
proof -
  let ?f = "unifyfs_fid_from_gfid c gfid"
  have f: "0 \<le> ?f" "?f < max_files c" "in_use c ?f" using fid_from_gfid_found [OF refl found] by auto
  have fid: "fm_fid (meta_of c ?f) = ?f" using client_okD(3) [OF ok f(1,2)] f(3) by (simp add: fid_ok_def)
  let ?c = "set_meta c ?f ((meta_of c ?f)\<lparr>fm_pending_unlink := True\<rparr>)"
  have cb: "unlink_callback gfid c = Some ?c"
    using get_meta_plain [OF f(1,2) client_okD(1) [OF ok f(1,2)]] assms(3) found fid by (simp add: unlink_callback_def Let_def)
  have "scan_gfids gfid i (zip ns (ms[k := (ms ! k)\<lparr>fm_pending_unlink := True\<rparr>])) = scan_gfids gfid i (zip ns ms)" for i ns ms k
    by (induction ns arbitrary: i ms k) (auto simp: zip_Cons1 split: list.splits nat.splits)
  moreover have "take (nat (max_files c)) (zip (cl_filelist c) ms) = zip (cl_filelist c) ms" for ms :: "filemeta list"
    using ok by (simp add: client_ok_def)
  ultimately have same: "unifyfs_fid_from_gfid ?c gfid = ?f" by (simp add: unifyfs_fid_from_gfid_def)
  have "meta_at ?c ?f = Some ((meta_of c ?f)\<lparr>fm_pending_unlink := True\<rparr>)"
    using ok f by (auto simp: meta_at_def client_ok_def)
  then have "unifyfs_get_meta_from_fid ?c ?f = Some (found, c2) \<Longrightarrow> found = None" for found c2
    using f fid by (auto simp: unifyfs_get_meta_from_fid.simps option_chain)
  then have "unifyfs_fid_write env srv ?f pos buf count (?c, s) = None"
    using assms(4) by (cases "unifyfs_get_meta_from_fid ?c ?f") (auto simp: unifyfs_fid_write_def)
  then show ?thesis using cb same by auto
qed

theorem write_after_unlink_aborts_witness:
  "\<exists>c c' gfid. client_run example_server [Open_File example_env ''/u/a'' (O_CREAT OR O_RDWR) 0] (init_superblock_structures example_client, ())
     = Some (c, ()) \<and> unlink_callback gfid c = Some c' \<and>
     unifyfs_fid_write example_env example_server (unifyfs_fid_from_gfid c' gfid) 0 [1] 1 (c', ()) = None"
proof -
  let ?rs = "[Open_File example_env ''/u/a'' (O_CREAT OR O_RDWR) 0]"
  let ?run = "client_run example_server ?rs (init_superblock_structures example_client, ())"
  let ?g = "unifyfs_generate_gfid (\<lambda>_. 5) ''/u/a''"
  have "map_option (\<lambda>(c, s). (unifyfs_fid_from_gfid c ?g, fm_pending_unlink (meta_of c 0))) ?run = Some (0, False)" by code_simp
  then obtain c where c: "?run = Some (c, ())" "unifyfs_fid_from_gfid c ?g = 0" "\<not> fm_pending_unlink (meta_of c 0)" by auto
  have "zero_superblock example_client" by (simp add: zero_superblock_def example_client_def)
  then have "client_ok c" using init_ok client_run_step [OF c(1)] by (auto simp: ok_step_def)
  from write_after_unlink_aborts [OF this, of ?g 1] c show ?thesis by fastforce
qed

end
