(* ===== verification/Client_Data.thy ===== *)
theory Client_Data
  imports Client_Table
begin

text \<open>
  The data that a client has written: a byte of a file is at a position of the write log that the
  segment tree of the file gives. Every write gets log space that no other byte of any file uses, so
  it changes the bytes of its range and nothing else; a synchronisation tells the server where the
  bytes are.
\<close>

section \<open>Bytes of a tree\<close>

definition tree_bytes :: "seg_tree \<Rightarrow> logio_context \<Rightarrow> u64 \<Rightarrow> u8 option" where
  "tree_bytes T ctx b = map_option (\<lambda>p. log_byte ctx (unat p)) (seg_log T b)"






section \<open>Writing a file\<close>

text \<open>
  The bytes of the writes to file \<open>f\<close> that the server does not know, and of all its writes when the
  client keeps track of them. \<open>data_inv\<close>: the log is in order, the trees refer to allocated bytes, and unless the client
  also takes the extents of other clients of its node, its tree has only its own.
\<close>

abbreviation sync_bytes :: "client \<Rightarrow> int \<Rightarrow> u64 \<Rightarrow> u8 option" where
  "sync_bytes c f \<equiv> tree_bytes (fm_extents_sync (meta_of c f)) (cl_logio c)"


definition has_data :: "client \<Rightarrow> int \<Rightarrow> bool" where
  "has_data c f \<longleftrightarrow> f \<in> {0..<max_files c} \<and> fm_storage (meta_of c f) = FILE_STORAGE_LOGIO"




text \<open>
  A file that can be written: its id is in use, it is not laminated, no unlink is pending, and the index
  has room for one more write.
\<close>

definition writable :: "client \<Rightarrow> int \<Rightarrow> bool" where
  "writable c f \<longleftrightarrow> has_data c f \<and> in_use c f \<and> \<not> fm_pending_unlink (meta_of c f) \<and>
     fa_is_laminated (fm_attrs (meta_of c f)) = 0 \<and>
     seg_tree_count (fm_extents_sync (meta_of c f)) < max_write_index_entries c - 2"





lemma has_data_log [simp]: "has_data (c\<lparr>cl_logio := l\<rparr>) = has_data c"
  by (simp add: has_data_def fun_eq_iff)

lemma writable_log [simp]: "writable (c\<lparr>cl_logio := l\<rparr>) f = writable c f"
  by (simp add: writable_def has_data_def in_use_def)








section \<open>Synchronisation\<close>

text \<open>The last byte of an index entry, and where it puts a byte.\<close>

definition ix_last :: "index_entry \<Rightarrow> u64" where
  "ix_last x = ix_file_pos x + ix_length x - 1"

definition ix_place :: "index_entry \<Rightarrow> u64 \<Rightarrow> u64" where
  "ix_place x b = ix_log_pos x + (b - ix_file_pos x)"

text \<open>The index describes the tree: disjoint ranges of one file, each byte where the tree has it.\<close>

definition index_of :: "int \<Rightarrow> seg_tree \<Rightarrow> index_entry list \<Rightarrow> bool" where
  "index_of gfid T ix \<longleftrightarrow> ivl_ok ix_file_pos ix_last ix \<and> (\<forall>x \<in> set ix. ix_gfid x = gfid) \<and>
     ivl_lookup ix_file_pos ix_last ix_place ix = seg_log T \<and> of_nat (length ix) = seg_tree_count T"

lemma index_of_nodes:
  assumes "seg_inv T"
  shows "\<exists>ns. seg_tree_iter_loop (st_head T) None = Some ns \<and> index_of gfid T (map (index_of_node gfid) ns)"
proof -
  have last: "ix_last (index_of_node gfid n) = stn_end n" "ix_place (index_of_node gfid n) b = stn_offset n b"
    "ix_file_pos (index_of_node gfid n) = stn_start n" for n b
    by (simp_all add: ix_last_def ix_place_def index_of_node_def stn_offset_def)
  let ?ns = "rb_inorder (st_head T)"
  have "seg_tree_iter_loop (st_head T) None = Some ?ns" using seg_iter.collect_all [OF seg_invD(2) [OF assms]] by simp
  moreover have "ivl_ok ix_file_pos ix_last (map (index_of_node gfid) ?ns)"
    using seg_invD(2) [OF assms] by (simp add: ivl_ok_def sorted_wrt_map last)
  moreover have "ivl_lookup ix_file_pos ix_last ix_place (map (index_of_node gfid) ns) b = ivl_lookup stn_start stn_end stn_offset ns b" for ns b
    by (induction ns) (simp_all add: last)
  moreover have "of_nat (length ?ns) = seg_tree_count T"
    using seg_invD(1) [OF assms] by (simp add: itree_ok_def seg_tree_count_def)
  ultimately show ?thesis by (auto simp: index_of_def seg_log_def index_of_node_def fun_eq_iff)
qed

lemma sync_spec:
  assumes ok: "client_ok c" and f: "has_data c f" "in_use c f" "\<not> fm_pending_unlink (meta_of c f)" "fm_needs_writes_sync (meta_of c f)"
    and fits: "length (rb_inorder (st_head (fm_extents_sync (meta_of c f)))) \<le> unat (max_write_index_entries c)"
  shows "\<exists>ix c'. index_of (fa_gfid (fm_attrs (meta_of c f))) (fm_extents_sync (meta_of c f)) ix \<and>
    unifyfs_fid_sync_extents srv f (c, s) = (if ix = [] then Some (UNIFYFS_SUCCESS, c', s)
      else do { (rc, s) \<leftarrow> rpc_sync srv (fa_gfid (fm_attrs (meta_of c f))) ix s; Some (rc, c', s) }) \<and>
    sync_bytes c' f = (\<lambda>_. None) \<and> \<not> fm_needs_writes_sync (meta_of c' f) \<and> cl_logio c' = cl_logio c \<and>
    (\<forall>g \<ge> 0. g \<noteq> f \<longrightarrow> meta_of c' g = meta_of c g) \<and> fm_attrs (meta_of c' f) = fm_attrs (meta_of c f) \<and>
    fm_extents (meta_of c' f) = fm_extents (meta_of c f)"
proof -
  let ?m = "meta_of c f"
  let ?g = "fa_gfid (fm_attrs ?m)"
  have r: "0 \<le> f" "f < max_files c" and L: "fm_storage ?m = FILE_STORAGE_LOGIO" using f(1) by (auto simp: has_data_def)
  have fid: "fm_fid ?m = f" using client_okD(3) [OF ok r] f(2) by (simp add: fid_ok_def)
  have get: "unifyfs_get_meta_from_fid c f = Some (Some ?m, c)"
    using get_meta_plain [OF r client_okD(1) [OF ok r]] f(3) by simp
  have inv: "seg_inv (fm_extents_sync ?m)" using meta_okD [OF ok r] L by (simp add: meta_ok_def)
  obtain ns where ns: "seg_tree_iter_loop (st_head (fm_extents_sync ?m)) None = Some ns" "index_of ?g (fm_extents_sync ?m) (map (index_of_node ?g) ns)"
    using index_of_nodes [OF inv] by blast
  have len: "ns = rb_inorder (st_head (fm_extents_sync ?m))" using ns(1) seg_iter.collect_all [OF seg_invD(2) [OF inv]] by simp
  have n: "\<not> length ns > unat (max_write_index_entries c)"
    using fits by (simp add: len)
  obtain T where T: "seg_tree_clear (fm_extents_sync ?m) = Some T" "seg_log T = (\<lambda>_. None)" using seg_clear_spec [OF inv] by blast
  let ?ix = "map (index_of_node ?g) ns"
  let ?m' = "?m\<lparr>fm_extents_sync := T\<rparr>"
  have rw: "rewrite_index_from_seg_tree c f ?m = Some (max_node_end 0 ns, set_meta (c\<lparr>cl_index := ?ix\<rparr>) f ?m', ?m')"
    using ns(1) n T(1) by (simp add: rewrite_index_from_seg_tree_def clear_index_def Let_def)
  let ?c = "if ?ix = [] then set_meta (set_meta (c\<lparr>cl_index := ?ix\<rparr>) f ?m') f (?m'\<lparr>fm_needs_writes_sync := False\<rparr>)
    else clear_index (set_meta (set_meta (c\<lparr>cl_index := ?ix\<rparr>) f ?m') f (?m'\<lparr>fm_needs_writes_sync := False\<rparr>))"
  have metas: "cl_filemetas ?c = (cl_filemetas c)[nat f := ?m'\<lparr>fm_needs_writes_sync := False\<rparr>]" "cl_logio ?c = cl_logio c"
    by (simp_all add: clear_index_def)
  have "unifyfs_fid_sync_extents srv f (c, s) = (if ?ix = [] then Some (UNIFYFS_SUCCESS, ?c, s)
      else do { (rc, s) \<leftarrow> rpc_sync srv ?g ?ix s; Some (rc, ?c, s) })"
    using get fid f(4) rw by (simp add: unifyfs_fid_sync_extents_def)
  moreover have "(cl_filemetas ?c) ! nat f = ?m'\<lparr>fm_needs_writes_sync := False\<rparr>" using metas(1) ok r by simp
  moreover have "(cl_filemetas ?c) ! nat g = meta_of c g" if "0 \<le> g" "g \<noteq> f" for g using metas(1) that r by (simp add: nth_list_update_neq)
  ultimately show ?thesis using ns(2) metas(2) T(2)
    by (intro exI [of _ ?ix] exI [of _ ?c]) (auto simp: tree_bytes_def)
qed

section \<open>Properties\<close>







end
