(* ===== verification/Cluster.thy ===== *)
theory Cluster
  imports Inode Client_Fid
begin

text \<open>
  The servers of a job and the file operations that they execute together: the service manager
  (\<^verbatim>\<open>server/src/unifyfs_service_manager.c\<close>), the calls between servers
  (\<^verbatim>\<open>server/src/unifyfs_p2p_rpc.c\<close>, the entry points of \<^verbatim>\<open>server/src/unifyfs_group_rpc.c\<close>), the
  operations that clients request (\<^verbatim>\<open>server/src/unifyfs_fops_rpc.c\<close>) and their handlers in
  \<^verbatim>\<open>server/src/unifyfs_request_manager.c\<close>.

  The state are the servers by rank, the broadcasts that have been started, the synchronisations that
  wait for the service manager, and the responses sent to synchronising clients. A call to another
  server runs its handler there. Its outcome is a parameter: the transport (Margo) can fail
  to send it, the handler can refuse it, and the answer can get lost.
\<close>

section \<open>State\<close>

datatype rpc_outcome = Rpc_Unsent | Rpc_Refused unifyfs_rc | Rpc_Unanswered | Rpc_Answered

datatype bcast_req =
    Bcast_Extents int "extent_metadata list"
  | Bcast_Fileattr int file_attr_op file_attr
  | Bcast_Laminate int file_attr "extent_metadata list"
  | Bcast_Truncate int u64
  | Bcast_Unlink int

record cluster =
  cs_servers :: "int \<Rightarrow> server_state"
  cs_size :: int
  cs_local_extents :: bool
  cs_bcasts :: "(int \<times> bcast_req) list"
  cs_syncs :: "(int \<times> int) list"
  cs_responses :: "(nat \<times> unifyfs_rc) list"

text \<open>
  The outcomes of a call: allocations, the clock, debug logging, the sorting function of the C
  library, remote calls, the pull of bulk data, the start of a broadcast (its return code, and whether
  requests went out), and whether another request for the attributes of the file is pending.
\<close>

record svc_env =
  se_alloc :: "nat \<Rightarrow> nat \<Rightarrow> bool"
  se_now :: int
  se_dbg :: bool
  se_qsort :: "chunk_read_req list \<Rightarrow> chunk_read_req list"
  se_rpc :: rpc_outcome
  se_pull :: bool
  se_bcast :: "unifyfs_rc \<times> bool"
  se_pending :: bool

definition set_server :: "cluster \<Rightarrow> int \<Rightarrow> server_state \<Rightarrow> cluster" where
  "set_server cs rank st = cs\<lparr>cs_servers := (cs_servers cs)(rank := st)\<rparr>"

definition owner_rank :: "cluster \<Rightarrow> int \<Rightarrow> int" where
  "owner_rank cs gfid = hash_gfid_to_server (cs_size cs) gfid"

definition run_at :: "int \<Rightarrow> (server_state \<Rightarrow> ('r \<times> server_state) option) \<Rightarrow> cluster \<Rightarrow> ('r \<times> cluster) option" where
  "run_at rank f cs = do { (r, st) \<leftarrow> f (cs_servers cs rank); Some (r, set_server cs rank st) }"

text \<open>An empty buffer cannot be pulled.\<close>

definition pull_margo_bulk_buffer :: "bool \<Rightarrow> 'a list \<Rightarrow> 'a list option" where
  "pull_margo_bulk_buffer ok xs = (if xs = [] \<or> \<not> ok then None else Some xs)"

definition p2p_call :: "svc_env \<Rightarrow> (cluster \<Rightarrow> (unifyfs_rc \<times> cluster) option) \<Rightarrow> cluster \<Rightarrow> (unifyfs_rc \<times> cluster) option" where
  "p2p_call env handler cs =
     (case se_rpc env of
        Rpc_Unsent \<Rightarrow> Some (UNIFYFS_ERROR_MARGO, cs)
      | Rpc_Refused ret \<Rightarrow> Some (ret, cs)
      | Rpc_Unanswered \<Rightarrow> do { (ret, cs) \<leftarrow> handler cs; Some (UNIFYFS_ERROR_MARGO, cs) }
      | Rpc_Answered \<Rightarrow> handler cs)"

section \<open>Starting broadcasts\<close>

definition start_bcast :: "svc_env \<Rightarrow> int \<Rightarrow> bcast_req \<Rightarrow> cluster \<Rightarrow> unifyfs_rc \<times> cluster" where
  "start_bcast env rank req cs =
     (fst (se_bcast env), if snd (se_bcast env) then cs\<lparr>cs_bcasts := cs_bcasts cs @ [(rank, req)]\<rparr> else cs)"

definition unifyfs_invoke_broadcast_extents :: "svc_env \<Rightarrow> int \<Rightarrow> int \<Rightarrow> cluster \<Rightarrow> (unifyfs_rc \<times> cluster) option" where
  "unifyfs_invoke_broadcast_extents env rank gfid cs = do {
     (ret, n_extents, extents) \<leftarrow> unifyfs_inode_get_extents (se_alloc env 0 0) (cs_servers cs rank) gfid;
     if ret \<noteq> UNIFYFS_SUCCESS then Some (ret, cs)
     else if n_extents = 0 then Some (UNIFYFS_SUCCESS, cs)
     else Some (start_bcast env rank (Bcast_Extents gfid extents) cs)
   }"

definition unifyfs_invoke_broadcast_laminate :: "svc_env \<Rightarrow> int \<Rightarrow> int \<Rightarrow> cluster \<Rightarrow> (unifyfs_rc \<times> cluster) option" where
  "unifyfs_invoke_broadcast_laminate env rank gfid cs =
     (case unifyfs_inode_metaget (cs_servers cs rank) gfid of
        (ret, None) \<Rightarrow> Some (ret, cs)
      | (ret, Some attrs) \<Rightarrow>
          if fa_is_shared attrs = 0 then Some (UNIFYFS_SUCCESS, cs)
          else do {
            (ret, n_extents, extents) \<leftarrow> unifyfs_inode_get_extents (se_alloc env 0 0) (cs_servers cs rank) gfid;
            if ret \<noteq> UNIFYFS_SUCCESS then Some (ret, cs)
            else Some (start_bcast env rank (Bcast_Laminate gfid attrs extents) cs)
          })"

definition unifyfs_invoke_broadcast_truncate :: "svc_env \<Rightarrow> int \<Rightarrow> int \<Rightarrow> u64 \<Rightarrow> cluster \<Rightarrow> unifyfs_rc \<times> cluster" where
  "unifyfs_invoke_broadcast_truncate env rank gfid filesize cs = start_bcast env rank (Bcast_Truncate gfid filesize) cs"

definition unifyfs_invoke_broadcast_fileattr ::
  "svc_env \<Rightarrow> int \<Rightarrow> int \<Rightarrow> file_attr_op \<Rightarrow> file_attr \<Rightarrow> cluster \<Rightarrow> unifyfs_rc \<times> cluster" where
  "unifyfs_invoke_broadcast_fileattr env rank gfid attr_op fattr cs = start_bcast env rank (Bcast_Fileattr gfid attr_op fattr) cs"

definition unifyfs_invoke_broadcast_unlink :: "svc_env \<Rightarrow> int \<Rightarrow> int \<Rightarrow> cluster \<Rightarrow> unifyfs_rc \<times> cluster" where
  "unifyfs_invoke_broadcast_unlink env rank gfid cs = start_bcast env rank (Bcast_Unlink gfid) cs"

section \<open>Operations of the service manager\<close>

definition sm_laminate :: "svc_env \<Rightarrow> int \<Rightarrow> int \<Rightarrow> cluster \<Rightarrow> (unifyfs_rc \<times> cluster) option" where
  "sm_laminate env rank gfid cs =
     (let is_owner = (owner_rank cs gfid = rank);
          (ret, st) = unifyfs_inode_laminate gfid (cs_servers cs rank);
          cs = set_server cs rank st in
      if ret \<noteq> UNIFYFS_SUCCESS then Some (ret, cs)
      else if is_owner then unifyfs_invoke_broadcast_laminate env rank gfid cs
      else Some (ret, cs))"

definition sm_get_fileattr :: "int \<Rightarrow> int \<Rightarrow> cluster \<Rightarrow> unifyfs_rc \<times> file_attr option" where
  "sm_get_fileattr rank gfid cs = unifyfs_inode_metaget (cs_servers cs rank) gfid"

definition sm_set_fileattr ::
  "svc_env \<Rightarrow> int \<Rightarrow> int \<Rightarrow> file_attr_op \<Rightarrow> file_attr \<Rightarrow> cluster \<Rightarrow> (unifyfs_rc \<times> cluster) option" where
  "sm_set_fileattr env rank gfid file_op attrs cs = do {
     (ret, cs) \<leftarrow> run_at rank (unifyfs_inode_metaset (se_alloc env 1) (se_now env) gfid file_op (Some attrs)) cs;
     if ret \<noteq> UNIFYFS_SUCCESS then Some (ret, cs)
     else if owner_rank cs gfid = rank \<and> file_op = UNIFYFS_FILE_ATTR_OP_CREATE
     then let (rc, cs) = unifyfs_invoke_broadcast_fileattr env rank gfid file_op attrs cs in Some (ret, cs)
     else Some (ret, cs)
   }"

definition sm_add_extents :: "(nat \<Rightarrow> nat \<Rightarrow> bool) \<Rightarrow> int \<Rightarrow> int \<Rightarrow> extent_metadata list \<Rightarrow> cluster \<Rightarrow> (unifyfs_rc \<times> cluster) option" where
  "sm_add_extents al rank gfid extents cs = run_at rank (unifyfs_inode_add_extents al gfid extents) cs"

definition sm_find_extents ::
  "svc_env \<Rightarrow> int \<Rightarrow> int \<Rightarrow> unifyfs_extent list \<Rightarrow> cluster \<Rightarrow> (unifyfs_rc \<times> u32 \<times> chunk_read_req list option \<times> bool) option" where
  "sm_find_extents env rank gfid extents cs =
     (case unifyfs_inode_metaget (cs_servers cs rank) gfid of
        (ret, None) \<Rightarrow> Some (ret, 0, None, False)
      | (ret, Some attrs) \<Rightarrow> unifyfs_inode_resolve_extent_chunks (se_qsort env) (se_alloc env) (cs_servers cs rank) extents)"

definition sm_truncate :: "svc_env \<Rightarrow> int \<Rightarrow> int \<Rightarrow> u64 \<Rightarrow> cluster \<Rightarrow> (unifyfs_rc \<times> cluster) option" where
  "sm_truncate env rank gfid filesize cs =
     (let is_owner = (owner_rank cs gfid = rank) in
      case unifyfs_inode_metaget (cs_servers cs rank) gfid of
        (ret, None) \<Rightarrow> Some (if \<not> is_owner \<and> ret = ENOENT then UNIFYFS_SUCCESS else ret, cs)
      | (ret, Some attrs) \<Rightarrow> do {
          let old_size = fa_size attrs;
          (ret, cs) \<leftarrow> run_at rank (unifyfs_inode_truncate (se_dbg env) gfid filesize) cs;
          if ret \<noteq> UNIFYFS_SUCCESS then Some (ret, cs)
          else if is_owner \<and> filesize < old_size then Some (unifyfs_invoke_broadcast_truncate env rank gfid filesize cs)
          else Some (ret, cs)
        })"

section \<open>Calls between servers\<close>

text \<open>The extents travel as bulk data, which the handler pulls.\<close>

definition add_extents_rpc :: "svc_env \<Rightarrow> int \<Rightarrow> int \<Rightarrow> extent_metadata list \<Rightarrow> cluster \<Rightarrow> (unifyfs_rc \<times> cluster) option" where
  "add_extents_rpc env rank gfid extents cs =
     (case pull_margo_bulk_buffer (se_pull env) extents of
        None \<Rightarrow> Some (UNIFYFS_ERROR_MARGO, cs)
      | Some extents \<Rightarrow> sm_add_extents (\<lambda>i. se_alloc env (2 + i)) rank gfid extents cs)"

definition unifyfs_invoke_add_extents_rpc ::
  "svc_env \<Rightarrow> int \<Rightarrow> int \<Rightarrow> extent_metadata list \<Rightarrow> cluster \<Rightarrow> (unifyfs_rc \<times> cluster) option" where
  "unifyfs_invoke_add_extents_rpc env rank gfid extents cs =
     (if owner_rank cs gfid = rank then Some (UNIFYFS_SUCCESS, cs)
      else p2p_call env (add_extents_rpc env (owner_rank cs gfid) gfid extents) cs)"

text \<open>
  The handler \<^verbatim>\<open>find_extents_rpc\<close> changes nothing; its answer is the return code and the chunks, and the
  caller pulls the chunks.
\<close>

definition find_extents_rpc ::
  "svc_env \<Rightarrow> int \<Rightarrow> int \<Rightarrow> unifyfs_extent list \<Rightarrow> cluster \<Rightarrow> (unifyfs_rc \<times> u32 \<times> chunk_read_req list option) option" where
  "find_extents_rpc env rank gfid extents cs =
     (case pull_margo_bulk_buffer (se_pull env) extents of
        None \<Rightarrow> Some (UNIFYFS_ERROR_MARGO, 0, None)
      | Some extents \<Rightarrow> do {
          (ret, n_chunks, chunks, covered) \<leftarrow> sm_find_extents env rank gfid extents cs;
          Some (ret, n_chunks, chunks)
        })"

definition remote_find_extents ::
  "svc_env \<Rightarrow> int \<Rightarrow> int \<Rightarrow> unifyfs_extent list \<Rightarrow> cluster \<Rightarrow> (unifyfs_rc \<times> u32 \<times> chunk_read_req list option) option" where
  "remote_find_extents env owner gfid extents cs =
     (case se_rpc env of
        Rpc_Unsent \<Rightarrow> Some (UNIFYFS_ERROR_MARGO, 0, None)
      | Rpc_Refused ret \<Rightarrow> Some (ret, 0, None)
      | Rpc_Unanswered \<Rightarrow> Some (UNIFYFS_ERROR_MARGO, 0, None)
      | Rpc_Answered \<Rightarrow> do {
          (ret, n_chks, locations) \<leftarrow> find_extents_rpc env owner gfid extents cs;
          if ret = UNIFYFS_SUCCESS \<and> n_chks > 0 then
            (case locations of
               None \<Rightarrow> None
             | Some cs \<Rightarrow> (case pull_margo_bulk_buffer (se_pull env) cs of
                   None \<Rightarrow> Some (UNIFYFS_ERROR_MARGO, 0, None)
                 | Some cs \<Rightarrow> Some (ret, n_chks, Some cs)))
          else Some (ret, 0, None)
        })"

definition unifyfs_invoke_find_extents_rpc ::
  "svc_env \<Rightarrow> int \<Rightarrow> int \<Rightarrow> unifyfs_extent list \<Rightarrow> cluster \<Rightarrow> (unifyfs_rc \<times> u32 \<times> chunk_read_req list option) option" where
  "unifyfs_invoke_find_extents_rpc env rank gfid extents cs =
     (let owner = owner_rank cs gfid; is_owner = (owner = rank) in
      case sm_get_fileattr rank gfid cs of
        (UNIFYFS_SUCCESS, Some attrs) \<Rightarrow>
          let file_laminated = (fa_is_shared attrs \<noteq> 0 \<and> fa_is_laminated attrs \<noteq> 0) in
          if is_owner \<or> cs_local_extents cs \<or> file_laminated then do {
            (ret, n_chunks, chunks, full_coverage) \<leftarrow> sm_find_extents env rank gfid extents cs;
            if is_owner \<or> file_laminated \<or> full_coverage then Some (ret, n_chunks, chunks)
            else remote_find_extents env owner gfid extents cs
          } else remote_find_extents env owner gfid extents cs
      | _ \<Rightarrow> remote_find_extents env owner gfid extents cs)"

text \<open>
  \<^verbatim>\<open>remote_fileattr\<close> is the part of \<^verbatim>\<open>unifyfs_invoke_metaget_rpc\<close> and
  \<^verbatim>\<open>unifyfs_invoke_filesize_rpc\<close> that asks the owner and stores the attributes that it gets. When another
  request for the file is pending, both wait for it and look again.
\<close>

definition remote_fileattr :: "svc_env \<Rightarrow> int \<Rightarrow> int \<Rightarrow> bool \<Rightarrow> cluster \<Rightarrow> (unifyfs_rc \<times> file_attr option \<times> cluster) option" where
  "remote_fileattr env rank gfid need_local_metadata cs =
     (case se_rpc env of
        Rpc_Unsent \<Rightarrow> Some (UNIFYFS_ERROR_MARGO, None, cs)
      | Rpc_Refused ret \<Rightarrow> Some (ret, None, cs)
      | Rpc_Unanswered \<Rightarrow> Some (UNIFYFS_ERROR_MARGO, None, cs)
      | Rpc_Answered \<Rightarrow> (case sm_get_fileattr (owner_rank cs gfid) gfid cs of
            (UNIFYFS_SUCCESS, Some attrs) \<Rightarrow> do {
              (rc, cs) \<leftarrow> sm_set_fileattr env rank gfid
                (if need_local_metadata then UNIFYFS_FILE_ATTR_OP_CREATE else UNIFYFS_FILE_ATTR_OP_UTIME) attrs cs;
              Some (UNIFYFS_SUCCESS, Some attrs, cs)
            }
          | (ret, _) \<Rightarrow> Some (ret, None, cs)))"

definition UNIFYFS_METADATA_CACHE_SECONDS :: int where
  "UNIFYFS_METADATA_CACHE_SECONDS = 5"

definition unifyfs_invoke_metaget_rpc :: "svc_env \<Rightarrow> int \<Rightarrow> int \<Rightarrow> cluster \<Rightarrow> (unifyfs_rc \<times> file_attr option \<times> cluster) option" where
  "unifyfs_invoke_metaget_rpc env rank gfid cs =
     (let (rc, attrs) = sm_get_fileattr rank gfid cs in
      if owner_rank cs gfid = rank then Some (rc, attrs, cs)
      else if (case attrs of None \<Rightarrow> False | Some a \<Rightarrow>
                 rc = UNIFYFS_SUCCESS \<and> (fa_is_laminated a \<noteq> 0 \<or> se_now env \<le> fa_last_update a + UNIFYFS_METADATA_CACHE_SECONDS))
      then Some (UNIFYFS_SUCCESS, attrs, cs)
      else if se_pending env then let (rc, attrs) = sm_get_fileattr rank gfid cs in Some (rc, attrs, cs)
      else remote_fileattr env rank gfid (rc = ENOENT) cs)"

definition unifyfs_invoke_filesize_rpc :: "svc_env \<Rightarrow> int \<Rightarrow> int \<Rightarrow> cluster \<Rightarrow> (unifyfs_rc \<times> u64 \<times> cluster) option" where
  "unifyfs_invoke_filesize_rpc env rank gfid cs =
     (let size = (\<lambda>attrs. case attrs of None \<Rightarrow> 0 | Some a \<Rightarrow> fa_size a);
          (rc, attrs) = sm_get_fileattr rank gfid cs in
      if owner_rank cs gfid = rank then Some (rc, size attrs, cs)
      else if rc = UNIFYFS_SUCCESS \<and> (case attrs of None \<Rightarrow> False | Some a \<Rightarrow> fa_is_laminated a \<noteq> 0)
      then Some (UNIFYFS_SUCCESS, size attrs, cs)
      else if se_pending env then let (rc, attrs) = sm_get_fileattr rank gfid cs in Some (rc, size attrs, cs)
      else do {
        (ret, attrs, cs) \<leftarrow> remote_fileattr env rank gfid (rc = ENOENT) cs;
        Some (ret, size attrs, cs)
      })"

definition unifyfs_invoke_metaset_rpc ::
  "svc_env \<Rightarrow> int \<Rightarrow> int \<Rightarrow> file_attr_op \<Rightarrow> file_attr \<Rightarrow> cluster \<Rightarrow> (unifyfs_rc \<times> cluster) option" where
  "unifyfs_invoke_metaset_rpc env rank gfid attr_op attrs cs = do {
     (ret, cs) \<leftarrow> sm_set_fileattr env rank gfid attr_op attrs cs;
     if ret \<noteq> UNIFYFS_SUCCESS then Some (ret, cs)
     else if owner_rank cs gfid = rank then Some (ret, cs)
     else p2p_call env (sm_set_fileattr env (owner_rank cs gfid) gfid attr_op attrs) cs
   }"

definition unifyfs_invoke_laminate_rpc :: "svc_env \<Rightarrow> int \<Rightarrow> int \<Rightarrow> cluster \<Rightarrow> (unifyfs_rc \<times> cluster) option" where
  "unifyfs_invoke_laminate_rpc env rank gfid cs =
     (if owner_rank cs gfid = rank then sm_laminate env rank gfid cs
      else p2p_call env (sm_laminate env (owner_rank cs gfid) gfid) cs)"

definition unifyfs_invoke_truncate_rpc :: "svc_env \<Rightarrow> int \<Rightarrow> int \<Rightarrow> u64 \<Rightarrow> cluster \<Rightarrow> (unifyfs_rc \<times> cluster) option" where
  "unifyfs_invoke_truncate_rpc env rank gfid filesize cs =
     (if owner_rank cs gfid = rank then sm_truncate env rank gfid filesize cs
      else p2p_call env (sm_truncate env (owner_rank cs gfid) gfid filesize) cs)"

section \<open>Operations that clients request\<close>

definition fops_rpc_metaget :: "svc_env \<Rightarrow> int \<Rightarrow> int \<Rightarrow> int \<Rightarrow> cluster \<Rightarrow> (unifyfs_rc \<times> file_attr option \<times> cluster) option" where
  "fops_rpc_metaget env rank app_id gfid cs =
     (if gfid = app_id then let (rc, attrs) = sm_get_fileattr rank gfid cs in Some (rc, attrs, cs)
      else unifyfs_invoke_metaget_rpc env rank gfid cs)"

text \<open>
  \<^verbatim>\<open>rpc_fsync\<close>; \<open>index\<close> is the index of the client in shared memory, \<open>req\<close> names the request
  that is to be answered when the synchronisation has been processed.
\<close>

definition extent_of_index :: "int \<Rightarrow> int \<Rightarrow> int \<Rightarrow> index_entry \<Rightarrow> extent_metadata" where
  "extent_of_index rank app_id client_id meta =
     \<lparr>ext_start = ix_file_pos meta, ext_end = ix_file_pos meta + ix_length meta - 1, ext_log_pos = ix_log_pos meta,
      ext_svr_rank = rank, ext_app_id = app_id, ext_cli_id = client_id\<rparr>"

definition fops_rpc_fsync ::
  "svc_env \<Rightarrow> int \<Rightarrow> int \<Rightarrow> int \<Rightarrow> int \<Rightarrow> nat \<Rightarrow> index_entry list \<Rightarrow> cluster \<Rightarrow> (unifyfs_rc \<times> cluster) option" where
  "fops_rpc_fsync env rank app_id client_id gfid req index cs =
     (if sv_clients (cs_servers cs rank) (app_id, client_id) = None then Some (EINVAL, cs)
      else if index = [] then Some (UNIFYFS_SUCCESS, cs)
      else if gfid \<noteq> ix_gfid (hd index) then None
      else if \<not> (se_alloc env 0 0 \<and> se_alloc env 0 1 \<and> se_alloc env 0 2) then Some (ENOMEM, cs)
      else do {
        (ret, cs) \<leftarrow> run_at rank (unifyfs_inode_add_pending_extents (se_alloc env 1) gfid req
          (map (extent_of_index rank app_id client_id) index)) cs;
        if ret \<noteq> UNIFYFS_SUCCESS then Some (ret, cs)
        else Some (UNIFYFS_SUCCESS, cs\<lparr>cs_syncs := cs_syncs cs @ [(rank, gfid)]\<rparr>)
      })"

definition respond :: "nat \<Rightarrow> unifyfs_rc \<Rightarrow> cluster \<Rightarrow> cluster" where
  "respond req ret cs = cs\<lparr>cs_responses := cs_responses cs @ [(req, ret)]\<rparr>"

definition process_fsync_rpc ::
  "svc_env \<Rightarrow> int \<Rightarrow> int \<Rightarrow> int \<Rightarrow> int \<Rightarrow> nat \<Rightarrow> index_entry list \<Rightarrow> cluster \<Rightarrow> (unifyfs_rc \<times> cluster) option" where
  "process_fsync_rpc env rank app_id client_id gfid req index cs = do {
     (ret, cs) \<leftarrow> fops_rpc_fsync env rank app_id client_id gfid req index cs;
     Some (ret, if ret \<noteq> UNIFYFS_SUCCESS then respond req ret cs else cs)
   }"

definition fops_rpc_unlink :: "svc_env \<Rightarrow> int \<Rightarrow> int \<Rightarrow> cluster \<Rightarrow> (unifyfs_rc \<times> cluster) option" where
  "fops_rpc_unlink env rank gfid cs = do {
     (ret, cs) \<leftarrow> run_at rank (unifyfs_inode_unlink (se_alloc env 1) gfid) cs;
     Some (unifyfs_invoke_broadcast_unlink env rank gfid cs)
   }"

section \<open>Processing synchronisations\<close>

text \<open>
  \<^verbatim>\<open>process_pending_sync\<close>: the extents of all pending requests of the file are added to the local inode and
  sent to the owner, and every request gets the result as its response. \<open>se_alloc env 0 0\<close> is the
  allocation of the combined array, which has as many elements as the 32-bit sum of the counts.
\<close>

definition pending_items :: "pending_extents_item arraylist \<Rightarrow> pending_extents_item list option" where
  "pending_items p = do {
     pend \<leftarrow> those (map (\<lambda>i. arraylist_get p (int i)) [0..<nat (al_size p)]);
     Some (concat (map (\<lambda>x. case x of None \<Rightarrow> [] | Some item \<Rightarrow> [item]) pend))
   }"

definition combined_extents :: "pending_extents_item list \<Rightarrow> extent_metadata list option" where
  "combined_extents pend =
     (let extents = concat (map (\<lambda>item. take (unat (pe_num_extents item)) (pe_extents item)) pend) in
      if length extents > unat (sum_list (map pe_num_extents pend)) then None else Some extents)"

fun respond_all :: "unifyfs_rc \<Rightarrow> pending_extents_item list \<Rightarrow> cluster \<Rightarrow> cluster" where
  "respond_all ret [] cs = cs"
| "respond_all ret (item # pend) cs = respond_all ret pend (respond (pe_client_req item) ret cs)"

definition process_pending_sync :: "svc_env \<Rightarrow> int \<Rightarrow> int \<Rightarrow> cluster \<Rightarrow> (unifyfs_rc \<times> cluster) option" where
  "process_pending_sync env rank gfid cs =
     (let (rc, pending, st) = unifyfs_inode_get_pending_extents gfid (cs_servers cs rank); cs = set_server cs rank st in
      case pending of
        None \<Rightarrow> Some (rc, cs)
      | Some p \<Rightarrow> do {
          pend \<leftarrow> pending_items p;
          (ret, cs) \<leftarrow>
            (if \<not> se_alloc env 0 0 then Some (ENOMEM, cs)
             else do {
               extents \<leftarrow> combined_extents pend;
               (ret, cs) \<leftarrow> sm_add_extents (\<lambda>i. se_alloc env (1 + i)) rank gfid extents cs;
               if ret = UNIFYFS_SUCCESS \<and> owner_rank cs gfid \<noteq> rank
               then unifyfs_invoke_add_extents_rpc env rank gfid extents cs
               else Some (ret, cs)
             });
          Some (ret, respond_all ret pend cs)
        })"

section \<open>Handlers of broadcasts\<close>

text \<open>
  What a server does when a broadcast reaches it; the result is the return code of its output.
\<close>

definition process_extents_bcast_rpc :: "svc_env \<Rightarrow> int \<Rightarrow> int \<Rightarrow> extent_metadata list \<Rightarrow> cluster \<Rightarrow> (unifyfs_rc \<times> cluster) option" where
  "process_extents_bcast_rpc env rank gfid extents cs = sm_add_extents (\<lambda>i. se_alloc env (2 + i)) rank gfid extents cs"

definition process_fileattr_bcast_rpc ::
  "svc_env \<Rightarrow> int \<Rightarrow> int \<Rightarrow> file_attr_op \<Rightarrow> file_attr \<Rightarrow> cluster \<Rightarrow> (unifyfs_rc \<times> cluster) option" where
  "process_fileattr_bcast_rpc env rank gfid attr_op attrs cs = do {
     (ret, cs) \<leftarrow> sm_set_fileattr env rank gfid attr_op attrs cs;
     Some (if attr_op = UNIFYFS_FILE_ATTR_OP_CREATE \<and> ret = EEXIST then UNIFYFS_SUCCESS else ret, cs)
   }"

definition process_laminate_bcast_rpc ::
  "svc_env \<Rightarrow> int \<Rightarrow> int \<Rightarrow> file_attr \<Rightarrow> extent_metadata list \<Rightarrow> cluster \<Rightarrow> (unifyfs_rc \<times> cluster) option" where
  "process_laminate_bcast_rpc env rank gfid fattr extents cs =
     (let (ret, existing) = unifyfs_inode_metaget (cs_servers cs rank) gfid in do {
        (fattr, cs) \<leftarrow>
          (if ret = ENOENT then do {
             (ret, cs) \<leftarrow> run_at rank (unifyfs_inode_create (se_alloc env 0) (se_now env) gfid (Some (fattr\<lparr>fa_is_laminated := 0\<rparr>))) cs;
             Some (fattr\<lparr>fa_is_laminated := 1\<rparr>, cs)
           } else Some (fattr, cs));
        (ret, cs) \<leftarrow> sm_add_extents (\<lambda>i. se_alloc env (2 + i)) rank gfid extents cs;
        let retval = ret;
        (ret, cs) \<leftarrow> sm_set_fileattr env rank gfid UNIFYFS_FILE_ATTR_OP_LAMINATE fattr cs;
        Some (if ret \<noteq> UNIFYFS_SUCCESS then ret else retval, cs)
      })"

definition process_truncate_bcast_rpc :: "svc_env \<Rightarrow> int \<Rightarrow> int \<Rightarrow> int \<Rightarrow> u64 \<Rightarrow> cluster \<Rightarrow> (unifyfs_rc \<times> cluster) option" where
  "process_truncate_bcast_rpc env root rank gfid fsize cs = do {
     (ret, cs) \<leftarrow> run_at rank (unifyfs_inode_truncate (se_dbg env) gfid fsize) cs;
     Some (if ret = ENOENT \<and> root \<noteq> rank then UNIFYFS_SUCCESS else ret, cs)
   }"

definition process_unlink_bcast_rpc :: "svc_env \<Rightarrow> int \<Rightarrow> int \<Rightarrow> int \<Rightarrow> cluster \<Rightarrow> (unifyfs_rc \<times> cluster) option" where
  "process_unlink_bcast_rpc env root rank gfid cs = do {
     (ret, cs) \<leftarrow> run_at rank (unifyfs_inode_unlink (se_alloc env 1) gfid) cs;
     Some (if ret = ENOENT \<and> root \<noteq> rank then UNIFYFS_SUCCESS else ret, cs)
   }"

text \<open>
  The part of the handlers \<^verbatim>\<open>extent_bcast_rpc\<close>, \<^verbatim>\<open>laminate_bcast_rpc\<close> and so on before the
  request is forwarded to the children: the data of a broadcast with extents are pulled.
\<close>

definition bcast_accept :: "svc_env \<Rightarrow> bcast_req \<Rightarrow> unifyfs_rc" where
  "bcast_accept env req =
     (let pull = (\<lambda>extents. case pull_margo_bulk_buffer (se_pull env) extents of
                    None \<Rightarrow> UNIFYFS_ERROR_MARGO | Some _ \<Rightarrow> UNIFYFS_SUCCESS) in
      case req of
        Bcast_Extents gfid extents \<Rightarrow> pull extents
      | Bcast_Laminate gfid fattr extents \<Rightarrow> pull extents
      | _ \<Rightarrow> UNIFYFS_SUCCESS)"

definition bcast_process :: "svc_env \<Rightarrow> int \<Rightarrow> int \<Rightarrow> bcast_req \<Rightarrow> cluster \<Rightarrow> (unifyfs_rc \<times> cluster) option" where
  "bcast_process env root rank req cs =
     (case req of
        Bcast_Extents gfid extents \<Rightarrow> process_extents_bcast_rpc env rank gfid extents cs
      | Bcast_Fileattr gfid attr_op fattr \<Rightarrow> process_fileattr_bcast_rpc env rank gfid attr_op fattr cs
      | Bcast_Laminate gfid fattr extents \<Rightarrow> process_laminate_bcast_rpc env rank gfid fattr extents cs
      | Bcast_Truncate gfid fsize \<Rightarrow> process_truncate_bcast_rpc env root rank gfid fsize cs
      | Bcast_Unlink gfid \<Rightarrow> process_unlink_bcast_rpc env root rank gfid cs)"

section \<open>Extents for clients on the node\<close>

text \<open>
  \<^verbatim>\<open>process_node_local_extents_get_rpc\<close> gathers the chunks of all requested extents in a linked list.
  \<open>cells\<close> are the values of the list up to the current node, \<^term>\<open>None\<close> is a value that has not
  been initialised; \<open>i\<close> is the index of the request and \<open>j\<close> of the chunk.
\<close>

record client_index =
  ci_file_pos :: u64
  ci_log_pos :: u64
  ci_length :: u64
  ci_gfid :: int
  ci_log_app_id :: int
  ci_log_client_id :: int

definition zero_index :: client_index where
  "zero_index = \<lparr>ci_file_pos = 0, ci_log_pos = 0, ci_length = 0, ci_gfid = 0, ci_log_app_id = 0, ci_log_client_id = 0\<rparr>"

fun node_chunks_loop ::
  "unifyfs_extent list \<Rightarrow> nat \<Rightarrow> u32 \<Rightarrow> nat \<Rightarrow> chunk_read_req list \<Rightarrow> client_index option list \<Rightarrow> client_index option list option" where
  "node_chunks_loop in_extents i n_chunks j [] cells = Some cells"
| "node_chunks_loop in_extents i n_chunks j (c # chunks) cells =
     (if \<not> j < length in_extents then None
      else
        let cells = butlast cells @ [Some \<lparr>ci_file_pos = crr_offset c, ci_log_pos = crr_log_offset c, ci_length = crr_nbytes c,
                      ci_gfid = xt_gfid (in_extents ! j), ci_log_app_id = crr_log_app_id c, ci_log_client_id = crr_log_client_id c\<rparr>];
            cells = (if of_nat i < n_chunks - 1 then cells @ [Some zero_index] else cells) in
        node_chunks_loop in_extents i n_chunks (j + 1) chunks cells)"

fun node_requests_loop ::
  "svc_env \<Rightarrow> int \<Rightarrow> cluster \<Rightarrow> unifyfs_extent list \<Rightarrow> nat \<Rightarrow> unifyfs_extent list \<Rightarrow> bool \<times> nat \<times> client_index option list
   \<Rightarrow> (bool \<times> nat \<times> client_index option list) option" where
  "node_requests_loop env rank cs in_extents i [] s = Some s"
| "node_requests_loop env rank cs in_extents i (x # xs) (add_node, tot, cells) = do {
     (rc, n_chunks, chunks) \<leftarrow> unifyfs_invoke_find_extents_rpc env rank (xt_gfid x) [x] cs;
     if rc \<noteq> UNIFYFS_SUCCESS then node_requests_loop env rank cs in_extents (i + 1) xs (add_node, tot, cells)
     else do {
       cells \<leftarrow> node_chunks_loop in_extents i n_chunks 0 (case chunks of None \<Rightarrow> [] | Some cs \<Rightarrow> cs)
         (if add_node then cells @ [Some zero_index] else cells);
       node_requests_loop env rank cs in_extents (i + 1) xs (True, tot + unat n_chunks, cells)
     }
   }"

definition process_node_local_extents_get_rpc ::
  "svc_env \<Rightarrow> int \<Rightarrow> unifyfs_extent list \<Rightarrow> cluster \<Rightarrow> client_index list option" where
  "process_node_local_extents_get_rpc env rank in_extents cs = do {
     (add_node, total_chunks, cells) \<leftarrow> node_requests_loop env rank cs in_extents 0 in_extents (False, 0, [None]);
     if length cells < total_chunks then None else those (take total_chunks cells)
   }"

section \<open>Pending synchronisations\<close>

definition cluster_inv :: "cluster \<Rightarrow> bool" where
  "cluster_inv cs \<longleftrightarrow> 0 < cs_size cs \<and> (\<forall>r. server_inv (cs_servers cs r))"

lemma cluster_invD: "cluster_inv cs \<Longrightarrow> server_inv (cs_servers cs r)"
  by (simp add: cluster_inv_def)

lemma set_server_simps [simp]:
  "cs_servers (set_server cs r st) r' = (if r' = r then st else cs_servers cs r')"
  "cs_size (set_server cs r st) = cs_size cs" "cs_bcasts (set_server cs r st) = cs_bcasts cs"
  "cs_local_extents (set_server cs r st) = cs_local_extents cs"
  "cs_syncs (set_server cs r st) = cs_syncs cs" "cs_responses (set_server cs r st) = cs_responses cs"
  "owner_rank (set_server cs r st) = owner_rank cs"
  by (simp_all add: set_server_def owner_rank_def fun_eq_iff)

lemma cluster_inv_set: "cluster_inv cs \<Longrightarrow> server_inv st \<Longrightarrow> cluster_inv (set_server cs r st)"
  by (simp add: cluster_inv_def)

lemma respond_simps [simp]:
  "cs_servers (respond req ret cs) = cs_servers cs" "cs_size (respond req ret cs) = cs_size cs"
  "cs_bcasts (respond req ret cs) = cs_bcasts cs" "cs_syncs (respond req ret cs) = cs_syncs cs"
  "cs_responses (respond req ret cs) = cs_responses cs @ [(req, ret)]" "cluster_inv (respond req ret cs) = cluster_inv cs"
  by (simp_all add: respond_def cluster_inv_def)

lemma respond_all_simps [simp]:
  "cs_servers (respond_all ret pend cs) = cs_servers cs" "cluster_inv (respond_all ret pend cs) = cluster_inv cs"
  "cs_responses (respond_all ret pend cs) = cs_responses cs @ map (\<lambda>item. (pe_client_req item, ret)) pend"
  by (induction pend arbitrary: cs) simp_all

text \<open>The requests that wait for a file, and what the callers guarantee about them.\<close>

definition waiting :: "server_state \<Rightarrow> int \<Rightarrow> pending_extents_item list" where
  "waiting st gfid = (case files st gfid of None \<Rightarrow> [] | Some ino \<Rightarrow> (case ino_pending ino of None \<Rightarrow> [] | Some p \<Rightarrow> items p))"

definition item_ok :: "pending_extents_item \<Rightarrow> bool" where
  "item_ok item \<longleftrightarrow> pe_num_extents item = of_nat (length (pe_extents item)) \<and> (\<forall>x \<in> set (pe_extents item). extent_ok x)"

definition waiting_extents :: "server_state \<Rightarrow> int \<Rightarrow> extent_metadata list" where
  "waiting_extents st gfid = concat (map pe_extents (waiting st gfid))"

lemma pending_items_all:
  assumes "arr_ok p"
  shows "pending_items p = Some (items p)"
proof -
  have len: "length (contents p) = nat (al_size p)" using length_contents [OF assms] .
  have "map (\<lambda>i. arraylist_get p (int i)) [0..<nat (al_size p)] = map Some (contents p)"
    using arraylist_get_contents [OF assms] len by (intro nth_equalityI) (simp, simp add: zless_nat_eq_int_zless)
  moreover have "those (map Some xs) = Some xs" for xs :: "pending_extents_item option list" by (induction xs) simp_all
  moreover have "concat (map (\<lambda>x. case x of None \<Rightarrow> [] | Some item \<Rightarrow> [item]) xs) = map the (filter (\<lambda>e. e \<noteq> None) xs)"
    for xs :: "pending_extents_item option list" by (induction xs) (auto split: option.splits)
  ultimately show ?thesis by (simp add: pending_items_def items_def)
qed

lemma combined_all:
  assumes "\<forall>item \<in> set pend. item_ok item" "length (concat (map pe_extents pend)) < 2 ^ 32"
  shows "combined_extents pend = Some (concat (map pe_extents pend))"
proof -
  let ?n = "length (concat (map pe_extents pend))"
  have "length (pe_extents item) < 2 ^ 32" if "item \<in> set pend" for item
  proof -
    have "length (pe_extents item) \<le> sum_list (map (length \<circ> pe_extents) pend)" using that by (intro member_le_sum_list) auto
    then show ?thesis using assms(2) by (simp add: length_concat)
  qed
  then have n: "unat (pe_num_extents item) = length (pe_extents item)" if "item \<in> set pend" for item
    using that assms(1) by (simp add: item_ok_def unat_of_nat)
  have "concat (map (\<lambda>item. take (unat (pe_num_extents item)) (pe_extents item)) pend) = concat (map pe_extents pend)"
    using n by (intro arg_cong [of _ _ concat] map_cong) auto
  moreover have "sum_list (map pe_num_extents pend) = of_nat ?n"
    using assms(1) by (induction pend) (auto simp: item_ok_def)
  then have "unat (sum_list (map pe_num_extents pend)) = ?n" using assms(2) by (simp add: unat_of_nat)
  ultimately show ?thesis by (simp only: combined_extents_def Let_def) simp
qed

text \<open>The effect of adding extents on the map of the file.\<close>

definition added :: "extent_metadata list \<Rightarrow> (u64 \<Rightarrow> (int \<times> int \<times> int \<times> u64) option) \<Rightarrow> u64 \<Rightarrow> (int \<times> int \<times> int \<times> u64) option" where
  "added xs m b = (case last_write ext_start ext_end ext_place xs b of Some v \<Rightarrow> Some v | None \<Rightarrow> m b)"

definition open_file :: "server_state \<Rightarrow> int \<Rightarrow> bool" where
  "open_file st gfid \<longleftrightarrow> (\<exists>ino. files st gfid = Some ino \<and> fa_is_laminated (ino_attr ino) = 0)"

lemma sm_add_spec:
  assumes inv: "cluster_inv cs" and f: "open_file (cs_servers cs rank) gfid" and xs: "\<forall>x \<in> set xs. extent_ok x"
    and al: "\<And>i j. al i j"
  shows "\<exists>st. sm_add_extents al rank gfid xs cs = Some (UNIFYFS_SUCCESS, set_server cs rank st) \<and> server_inv st \<and>
    file_map st gfid = added xs (file_map (cs_servers cs rank) gfid) \<and> open_file st gfid \<and>
    (\<forall>g. g \<noteq> gfid \<longrightarrow> files st g = files (cs_servers cs rank) g)"
proof -
  let ?s = "cs_servers cs rank"
  obtain ino0 where ino0: "files ?s gfid = Some ino0" "fa_is_laminated (ino_attr ino0) = 0" using f by (auto simp: open_file_def)
  obtain rc st' where run: "unifyfs_inode_add_extents al gfid xs ?s = Some (rc, st')"
    and spec: "(\<nexists>ino. files ?s gfid = Some ino \<and> fa_is_laminated (ino_attr ino) = 0) \<or>
     (\<exists>ino T ino' T'. files ?s gfid = Some ino \<and> fa_is_laminated (ino_attr ino) = 0 \<and> changed ?s st' gfid ino' \<and>
        ino_extents ino = Some T \<and> ino_extents ino' = Some T' \<and>
        fa_is_laminated (ino_attr ino') = fa_is_laminated (ino_attr ino) \<and>
        ((\<forall>i j. al i j) \<longrightarrow> rc = UNIFYFS_SUCCESS) \<and>
        (rc = UNIFYFS_SUCCESS \<longrightarrow> (\<forall>b. ext_map T' b =
          (case last_write ext_start ext_end ext_place xs b of Some v \<Rightarrow> Some v | None \<Rightarrow> ext_map T b))))"
    using add_extents_spec [OF cluster_invD [OF inv, of rank] xs, of al gfid] by blast
  then obtain T ino' T' where new: "changed ?s st' gfid ino'" "ino_extents ino0 = Some T" "ino_extents ino' = Some T'"
    "fa_is_laminated (ino_attr ino') = 0" "rc = UNIFYFS_SUCCESS" "\<forall>b. ext_map T' b = added xs (ext_map T) b"
    using ino0 al by (auto simp: added_def)
  have "file_map st' gfid = ext_map T'" "file_map ?s gfid = ext_map T"
    using new file_map_eq [of st' gfid ino' T'] file_map_eq [OF ino0(1) new(2)] by (simp_all add: changed_def)
  then show ?thesis using run new
    by (intro exI [of _ st']) (auto simp: sm_add_extents_def run_at_def changed_def open_file_def)
qed

text \<open>A request of a client waits until the service manager processes it.\<close>

lemma add_pending_waits:
  assumes inv: "server_inv st" and f: "open_file st gfid" and al: "\<And>i. al i"
    and small: "\<And>ino p. files st gfid = Some ino \<Longrightarrow> ino_pending ino = Some p \<Longrightarrow> al_size p < 2 ^ 30"
  shows "\<exists>st'. unifyfs_inode_add_pending_extents al gfid req xs st = Some (UNIFYFS_SUCCESS, st') \<and> server_inv st' \<and>
    waiting st' gfid = waiting st gfid @ [\<lparr>pe_client_req = req, pe_num_extents = of_nat (length xs), pe_extents = xs\<rparr>] \<and>
    file_map st' = file_map st \<and> open_file st' gfid \<and> (\<forall>g. g \<noteq> gfid \<longrightarrow> files st' g = files st g)"
proof -
  let ?item = "\<lparr>pe_client_req = req, pe_num_extents = of_nat (length xs), pe_extents = xs\<rparr>"
  obtain ino where ino: "files st gfid = Some ino" "fa_is_laminated (ino_attr ino) = 0" using f by (auto simp: open_file_def)
  then have ok: "inode_ok ino" "ino_gfid ino = gfid" using server_invD(3) [OF inv] by auto
  define pending where "pending = (case ino_pending ino of None \<Rightarrow> arraylist_create (al 0) (al 1) 0 | Some p \<Rightarrow> Some p)"
  obtain p where p: "pending = Some p" "arr_ok p" "al_size p < 2 ^ 30" "items p = waiting st gfid"
  proof (cases "ino_pending ino")
    case None
    obtain p :: "pending_extents_item arraylist" where p: "arraylist_create (al 0) (al 1) 0 = Some p" "al_size p = 0" using al
      by (auto simp: arraylist_create_def Let_def ARRAYLIST_CAPACITY_def)
    note c = arraylist_create_ok [OF p(1)]
    show thesis using that [of p] None p c ino(1) by (simp add: pending_def waiting_def items_def)
  next
    case (Some p)
    then show thesis using that [of p] ok(1) small ino(1) by (simp add: pending_def waiting_def inode_ok_def)
  qed
  obtain freed p' where add: "arraylist_add True p ?item = Some (al_size p, freed, p')" "arr_ok p'" "contents p' = contents p @ [Some ?item]"
    using arraylist_add_spec [OF p(2,3)] by blast
  let ?ino = "ino\<lparr>ino_pending := Some p'\<rparr>"
  have run: "unifyfs_inode_add_pending_extents al gfid req xs st = Some (UNIFYFS_SUCCESS, set_inode st ino ?ino)"
    using ino server_invD(2) [OF inv] p(1) al add(1)
    by (simp add: unifyfs_inode_add_pending_extents_def pending_def [symmetric])
  have "inode_ok ?ino" using ok(1) add(2) by (simp add: inode_ok_def)
  then have ch: "server_inv (set_inode st ino ?ino)" "files (set_inode st ino ?ino) = (files st)(gfid \<mapsto> ?ino)"
    using server_inv_set [OF inv ino(1)] ok(2) by simp_all
  have "file_map (set_inode st ino ?ino) = file_map st"
    using ch(2) ino(1) by (simp add: file_map_def file_extents_def fun_eq_iff)
  moreover have "waiting (set_inode st ino ?ino) gfid = waiting st gfid @ [?item]"
    using ch(2) items_add [OF add(3)] p(4) by (simp add: waiting_def)
  ultimately show ?thesis using run ch ino by (auto simp: open_file_def)
qed

text \<open>Taking the requests of a file from the inode.\<close>

lemma get_pending_takes:
  assumes inv: "server_inv st" and f: "open_file st gfid"
  shows "\<exists>p st'. unifyfs_inode_get_pending_extents gfid st = (UNIFYFS_SUCCESS, p, st') \<and> server_inv st' \<and>
    (case p of None \<Rightarrow> waiting st gfid = [] | Some q \<Rightarrow> pending_items q = Some (waiting st gfid)) \<and>
    waiting st' gfid = [] \<and> file_map st' = file_map st \<and> open_file st' gfid \<and> (\<forall>g. g \<noteq> gfid \<longrightarrow> files st' g = files st g)"
proof -
  obtain ino where ino: "files st gfid = Some ino" "fa_is_laminated (ino_attr ino) = 0" using f by (auto simp: open_file_def)
  then have ok: "inode_ok ino" "ino_gfid ino = gfid" using server_invD(3) [OF inv] by auto
  let ?ino = "ino\<lparr>ino_pending := None\<rparr>"
  show ?thesis
  proof (cases "ino_pending ino")
    case None
    then show ?thesis using ino inv server_invD(2) [OF inv] f
      by (simp add: unifyfs_inode_get_pending_extents_def waiting_def)
  next
    case (Some q)
    have "inode_ok ?ino" using ok(1) by (simp add: inode_ok_def)
    then have ch: "server_inv (set_inode st ino ?ino)" "files (set_inode st ino ?ino) = (files st)(gfid \<mapsto> ?ino)"
      using server_inv_set [OF inv ino(1)] ok(2) by simp_all
    have "file_map (set_inode st ino ?ino) = file_map st"
      using ch(2) ino(1) by (simp add: file_map_def file_extents_def fun_eq_iff)
    then show ?thesis using Some ino server_invD(2) [OF inv] ch ok(1) pending_items_all [of q]
      by (auto simp: unifyfs_inode_get_pending_extents_def waiting_def inode_ok_def open_file_def)
  qed
qed

text \<open>
  Processing the synchronisations of a file: the extents of all waiting requests, in the order of the
  requests, are added at the server and at the owner, and every request is answered.
\<close>

lemma pending_sync_spec:
  assumes inv: "cluster_inv cs" and f: "open_file (cs_servers cs rank) gfid" "open_file (cs_servers cs (owner_rank cs gfid)) gfid"
    and its: "\<forall>item \<in> set (waiting (cs_servers cs rank) gfid). item_ok item" "waiting (cs_servers cs rank) gfid \<noteq> []"
    and few: "length (waiting_extents (cs_servers cs rank) gfid) < 2 ^ 32" "waiting_extents (cs_servers cs rank) gfid \<noteq> []"
    and env: "\<And>i j. se_alloc env i j" "se_rpc env = Rpc_Answered" "se_pull env"
  shows "\<exists>cs'. process_pending_sync env rank gfid cs = Some (UNIFYFS_SUCCESS, cs') \<and> cluster_inv cs' \<and>
    (\<forall>r \<in> {rank, owner_rank cs gfid}. file_map (cs_servers cs' r) gfid =
       added (waiting_extents (cs_servers cs rank) gfid) (file_map (cs_servers cs r) gfid)) \<and>
    (\<forall>r. r \<notin> {rank, owner_rank cs gfid} \<longrightarrow> cs_servers cs' r = cs_servers cs r) \<and>
    (\<forall>r g. g \<noteq> gfid \<longrightarrow> files (cs_servers cs' r) g = files (cs_servers cs r) g) \<and>
    cs_responses cs' = cs_responses cs @ map (\<lambda>item. (pe_client_req item, UNIFYFS_SUCCESS)) (waiting (cs_servers cs rank) gfid)"
proof -
  let ?pend = "waiting (cs_servers cs rank) gfid" and ?xs = "waiting_extents (cs_servers cs rank) gfid"
  have xs: "\<forall>x \<in> set ?xs. extent_ok x" using its(1) by (auto simp: waiting_extents_def item_ok_def)
  obtain q st1 where get: "unifyfs_inode_get_pending_extents gfid (cs_servers cs rank) = (UNIFYFS_SUCCESS, Some q, st1)"
    and st1: "server_inv st1" "pending_items q = Some ?pend" "file_map st1 = file_map (cs_servers cs rank)" "open_file st1 gfid"
      "\<forall>g. g \<noteq> gfid \<longrightarrow> files st1 g = files (cs_servers cs rank) g"
  proof -
    obtain p0 st1 where "unifyfs_inode_get_pending_extents gfid (cs_servers cs rank) = (UNIFYFS_SUCCESS, p0, st1)" "server_inv st1"
      "case p0 of None \<Rightarrow> ?pend = [] | Some q \<Rightarrow> pending_items q = Some ?pend" "file_map st1 = file_map (cs_servers cs rank)"
      "open_file st1 gfid" "\<forall>g. g \<noteq> gfid \<longrightarrow> files st1 g = files (cs_servers cs rank) g"
      using get_pending_takes [OF cluster_invD [OF inv] f(1)] by blast
    then show thesis using that its(2) by (cases p0) simp_all
  qed
  have comb: "combined_extents ?pend = Some ?xs" using combined_all [OF its(1)] few(1) by (simp add: waiting_extents_def)
  let ?c1 = "set_server cs rank st1"
  have inv1: "cluster_inv ?c1" using cluster_inv_set [OF inv st1(1)] .
  obtain st2 where add: "sm_add_extents (\<lambda>i. se_alloc env (1 + i)) rank gfid ?xs ?c1 = Some (UNIFYFS_SUCCESS, set_server ?c1 rank st2)"
    and st2: "server_inv st2" "file_map st2 gfid = added ?xs (file_map (cs_servers cs rank) gfid)"
      "\<forall>g. g \<noteq> gfid \<longrightarrow> files st2 g = files st1 g"
    using sm_add_spec [OF inv1, of rank gfid ?xs "\<lambda>i. se_alloc env (1 + i)"] xs env(1) st1(3,4) by auto
  let ?c2 = "set_server ?c1 rank st2"
  have inv2: "cluster_inv ?c2" using cluster_inv_set [OF inv1 st2(1)] .
  show ?thesis
  proof (cases "owner_rank cs gfid = rank")
    case True
    then show ?thesis using get st1 st2 comb add env(1) inv2
      by (intro exI [of _ "respond_all UNIFYFS_SUCCESS ?pend ?c2"]) (simp add: process_pending_sync_def)
  next
    case False
    let ?o = "owner_rank cs gfid"
    obtain st3 where rem: "sm_add_extents (\<lambda>i. se_alloc env (2 + i)) ?o gfid ?xs ?c2 = Some (UNIFYFS_SUCCESS, set_server ?c2 ?o st3)"
      and st3: "server_inv st3" "file_map st3 gfid = added ?xs (file_map (cs_servers cs ?o) gfid)"
        "\<forall>g. g \<noteq> gfid \<longrightarrow> files st3 g = files (cs_servers cs ?o) g"
      using sm_add_spec [OF inv2, of ?o gfid ?xs "\<lambda>i. se_alloc env (2 + i)"] xs env(1) f(2) False by auto
    have "unifyfs_invoke_add_extents_rpc env rank gfid ?xs ?c2 = Some (UNIFYFS_SUCCESS, set_server ?c2 ?o st3)"
      using False rem env(2,3) few(2)
      by (simp add: unifyfs_invoke_add_extents_rpc_def p2p_call_def add_extents_rpc_def pull_margo_bulk_buffer_def)
    then have "process_pending_sync env rank gfid cs =
        Some (UNIFYFS_SUCCESS, respond_all UNIFYFS_SUCCESS ?pend (set_server ?c2 ?o st3))"
      using get st1 comb add env(1) False by (simp add: process_pending_sync_def)
    then show ?thesis using False st1 st2 st3 cluster_inv_set [OF inv2 st3(1)]
      by (intro exI [of _ "respond_all UNIFYFS_SUCCESS ?pend (set_server ?c2 ?o st3)"]) simp
  qed
qed

lemma fsync_waits:
  assumes inv: "cluster_inv cs" and f: "open_file (cs_servers cs rank) gfid" and al: "\<And>i j. se_alloc env i j"
    and client: "sv_clients (cs_servers cs rank) (app_id, client_id) \<noteq> None" and ix: "index \<noteq> []" "ix_gfid (hd index) = gfid"
    and small: "\<And>ino p. files (cs_servers cs rank) gfid = Some ino \<Longrightarrow> ino_pending ino = Some p \<Longrightarrow> al_size p < 2 ^ 30"
  shows "\<exists>st. process_fsync_rpc env rank app_id client_id gfid req index cs =
       Some (UNIFYFS_SUCCESS, (set_server cs rank st)\<lparr>cs_syncs := cs_syncs cs @ [(rank, gfid)]\<rparr>) \<and> server_inv st \<and>
    waiting st gfid = waiting (cs_servers cs rank) gfid @ [\<lparr>pe_client_req = req, pe_num_extents = of_nat (length index),
      pe_extents = map (extent_of_index rank app_id client_id) index\<rparr>] \<and>
    file_map st = file_map (cs_servers cs rank) \<and> open_file st gfid \<and> (\<forall>g. g \<noteq> gfid \<longrightarrow> files st g = files (cs_servers cs rank) g)"
proof -
  obtain st where add: "unifyfs_inode_add_pending_extents (se_alloc env 1) gfid req (map (extent_of_index rank app_id client_id) index)
      (cs_servers cs rank) = Some (UNIFYFS_SUCCESS, st)"
    and st: "server_inv st" "waiting st gfid = waiting (cs_servers cs rank) gfid @ [\<lparr>pe_client_req = req, pe_num_extents = of_nat (length index),
      pe_extents = map (extent_of_index rank app_id client_id) index\<rparr>]"
    "file_map st = file_map (cs_servers cs rank)" "open_file st gfid" "\<forall>g. g \<noteq> gfid \<longrightarrow> files st g = files (cs_servers cs rank) g"
    using add_pending_waits [OF cluster_invD [OF inv] f, of "se_alloc env 1" req "map (extent_of_index rank app_id client_id) index"] al small
    by auto
  then show ?thesis using client ix al
    by (intro exI [of _ st]) (simp add: process_fsync_rpc_def fops_rpc_fsync_def run_at_def)
qed

section \<open>Lamination and the other servers\<close>

lemma create_new:
  assumes inv: "server_inv st" and f: "files st gfid = None" and al: "\<And>i. al i" and a: "fa_gfid a = gfid" "gfid \<noteq> INVALID_GFID"
  shows "\<exists>st' ino. unifyfs_inode_create al now gfid (Some a) st = Some (UNIFYFS_SUCCESS, st') \<and> server_inv st' \<and>
    files st' = (files st)(gfid \<mapsto> ino) \<and> ino_extents ino = Some extent_tree_init \<and>
    ino_attr ino = snd (unifyfs_file_attr_update now True UNIFYFS_FILE_ATTR_OP_CREATE unifyfs_file_attr_set_invalid a)"
proof -
  obtain ino where ino: "unifyfs_inode_alloc al now gfid a = Some ino" "ino_gfid ino = gfid" "ino_extents ino = Some extent_tree_init"
    "ino_attr ino = snd (unifyfs_file_attr_update now True UNIFYFS_FILE_ATTR_OP_CREATE unifyfs_file_attr_set_invalid a)"
    using al by (simp add: unifyfs_inode_alloc_def)
  have "fa_gfid (ino_attr ino) = gfid" using a by (simp add: ino(4) attr_update_gfid)
  moreover have "RB_FIND uit_compare_func (sv_inodes st) ino = None"
    using f ino(2) inode_find [OF server_invD(1) [OF inv], of ino] by (simp add: files_def)
  moreover have "inode_map (sv_inodes st) (ino_gfid ino) = None" using f ino(2) by (simp add: files_def)
  then obtain t where "RB_INSERT uit_compare_func (sv_inodes st) ino = Some (t, None)"
    by (rule inode_insert [OF server_invD(1) [OF inv]])
  ultimately obtain st' where run: "unifyfs_inode_create al now gfid (Some a) st = Some (UNIFYFS_SUCCESS, st')"
    using ino(1,2) by (auto simp: unifyfs_inode_create_def unifyfs_inode_tree_insert_def)
  then show ?thesis using create_spec [OF inv run] ino by auto
qed

text \<open>
  A server that has an inode of a laminated shared file, but none of its extents: the broadcast of the
  lamination fails there, and reads find no data.
\<close>

definition laminated_hollow :: "server_state \<Rightarrow> int \<Rightarrow> bool" where
  "laminated_hollow st gfid \<longleftrightarrow> server_inv st \<and> (\<exists>ino. files st gfid = Some ino \<and> fa_is_laminated (ino_attr ino) \<noteq> 0 \<and>
     fa_is_shared (ino_attr ino) \<noteq> 0 \<and> ino_extents ino = Some extent_tree_init)"

lemma metaget_hollow:
  assumes inv: "cluster_inv cs" and r: "owner_rank cs gfid \<noteq> r" "files (cs_servers cs r) gfid = None"
    and owner: "sm_get_fileattr (owner_rank cs gfid) gfid cs = (UNIFYFS_SUCCESS, Some a)" and a: "fa_gfid a = gfid" "gfid \<noteq> INVALID_GFID"
    "fa_is_laminated a \<notin> {0, - 1}" "fa_is_shared a \<notin> {0, - 1}"
    and env: "\<And>i j. se_alloc env i j" "se_rpc env = Rpc_Answered" "\<not> se_pending env"
  shows "\<exists>st. unifyfs_invoke_metaget_rpc env r gfid cs = Some (UNIFYFS_SUCCESS, Some a, set_server cs r st) \<and> laminated_hollow st gfid"
proof -
  obtain st ino where st: "unifyfs_inode_create (se_alloc env 1) (se_now env) gfid (Some a) (cs_servers cs r) = Some (UNIFYFS_SUCCESS, st)"
    "server_inv st" "files st = (files (cs_servers cs r))(gfid \<mapsto> ino)" "ino_extents ino = Some extent_tree_init"
    "ino_attr ino = snd (unifyfs_file_attr_update (se_now env) True UNIFYFS_FILE_ATTR_OP_CREATE unifyfs_file_attr_set_invalid a)"
    using create_new [OF cluster_invD [OF inv, of r] r(2), of "se_alloc env 1" a "se_now env"] env(1) a by auto
  have "sm_get_fileattr r gfid cs = (ENOENT, None)"
    using r(2) server_invD(2) [OF cluster_invD [OF inv]] by (simp add: sm_get_fileattr_def unifyfs_inode_metaget_def)
  then have "unifyfs_invoke_metaget_rpc env r gfid cs = Some (UNIFYFS_SUCCESS, Some a, set_server cs r st)"
    using r(1) env owner st(1)
    by (simp add: unifyfs_invoke_metaget_rpc_def remote_fileattr_def sm_set_fileattr_def run_at_def unifyfs_inode_metaset_def)
  moreover have "fa_is_laminated (ino_attr ino) = fa_is_laminated a" "fa_is_shared (ino_attr ino) = fa_is_shared a"
    using a by (auto simp: st(5) unifyfs_file_attr_update_def Let_def set_if_def)
  ultimately show ?thesis using st a by (auto simp: laminated_hollow_def)
qed

lemma hollow_laminate:
  assumes h: "laminated_hollow (cs_servers cs r) gfid" and r: "owner_rank cs gfid \<noteq> r" and a: "fa_is_laminated a \<noteq> 0"
  shows "\<exists>st. bcast_process env root r (Bcast_Laminate gfid a xs) cs = Some (EINVAL, set_server cs r st) \<and> laminated_hollow st gfid"
proof -
  let ?s = "cs_servers cs r"
  obtain ino where inv: "server_inv ?s" and ino: "files ?s gfid = Some ino" "fa_is_laminated (ino_attr ino) \<noteq> 0"
    "fa_is_shared (ino_attr ino) \<noteq> 0" "ino_extents ino = Some extent_tree_init" using h by (auto simp: laminated_hollow_def)
  have look: "unifyfs_inode_lookup ?s gfid = Some ino" using server_invD(2) [OF inv] ino(1) by simp
  have same: "set_server cs r ?s = cs" by (simp add: set_server_def)
  obtain rc st where up: "unifyfs_inode_update_attr (se_now env) (se_alloc env 1 0) gfid UNIFYFS_FILE_ATTR_OP_LAMINATE (Some a) ?s = (rc, st)"
    by fastforce
  have rc: "rc = UNIFYFS_SUCCESS" using up look by (simp add: unifyfs_inode_update_attr_def)
  obtain ino' where ch: "changed ?s st gfid ino'"
    "ino' = ino\<lparr>ino_attr := snd (unifyfs_file_attr_update (se_now env) (se_alloc env 1 0) UNIFYFS_FILE_ATTR_OP_LAMINATE (ino_attr ino) a)\<rparr>"
    using update_attr_spec [OF inv _ up] rc ino(1) by auto
  have "laminated_hollow st gfid"
    using ch ino a by (auto simp: laminated_hollow_def changed_def unifyfs_file_attr_update_def Let_def set_if_def)
  moreover have "bcast_process env root r (Bcast_Laminate gfid a xs) cs = Some (EINVAL, set_server cs r st)"
    using look ino(2) up rc r same
    by (simp add: bcast_process_def process_laminate_bcast_rpc_def unifyfs_inode_metaget_def sm_add_extents_def run_at_def
        unifyfs_inode_add_extents_def sm_set_fileattr_def unifyfs_inode_metaset_def)
  ultimately show ?thesis by blast
qed

lemma hollow_read:
  assumes h: "laminated_hollow (cs_servers cs r) gfid" and x: "xt_gfid x = gfid" "xt_offset x \<le> xt_offset x + xt_length x - 1"
    and al: "\<And>i j. se_alloc env i j"
  shows "unifyfs_invoke_find_extents_rpc env r gfid [x] cs = Some (UNIFYFS_SUCCESS, 0, None)"
proof -
  let ?s = "cs_servers cs r"
  obtain ino where inv: "server_inv ?s" and ino: "files ?s gfid = Some ino" "fa_is_laminated (ino_attr ino) \<noteq> 0"
    "fa_is_shared (ino_attr ino) \<noteq> 0" "ino_extents ino = Some extent_tree_init" using h by (auto simp: laminated_hollow_def)
  have look: "unifyfs_inode_lookup ?s gfid = Some ino" using server_invD(2) [OF inv] ino(1) by simp
  have n: "num_extents ?s gfid = 0" using ino by (simp add: num_extents_def file_extents_def extent_tree_init_def)
  obtain css covered where r: "resolve_loop (se_alloc env) 0 ?s [x] = Some (UNIFYFS_SUCCESS, css, covered)" "concat css = []"
    using resolve_loop_spec [OF inv, of "[x]" "se_alloc env" 0] ino x n al by (fastforce simp: resolvable_def)
  then have "unifyfs_inode_resolve_extent_chunks (se_qsort env) (se_alloc env) ?s [x] = Some (UNIFYFS_SUCCESS, 0, None, covered)"
    using al by (simp add: unifyfs_inode_resolve_extent_chunks_def Let_def del: concat_eq_Nil_conv resolve_loop.simps)
  then show ?thesis using look ino
    by (simp add: unifyfs_invoke_find_extents_rpc_def sm_get_fileattr_def unifyfs_inode_metaget_def sm_find_extents_def)
qed

section \<open>Two errors in the answer to node-local lookups\<close>

text \<open>
  The loop over the chunks of a request takes the file id from the request with the index of the
  chunk. One request whose data are in several chunks reads behind the array of requests, and of two
  requests with one chunk each the second is answered with the file id of the first.
\<close>

lemma node_local_several_chunks:
  assumes "unifyfs_invoke_find_extents_rpc env rank (xt_gfid x) [x] cs = Some (UNIFYFS_SUCCESS, n, Some (c1 # c2 # chunks))"
  shows "process_node_local_extents_get_rpc env rank [x] cs = None"
  using assms by (simp add: process_node_local_extents_get_rpc_def Let_def)

lemma node_local_wrong_file:
  assumes "unifyfs_invoke_find_extents_rpc env rank (xt_gfid x) [x] cs = Some (UNIFYFS_SUCCESS, 1, Some [c])"
    and "unifyfs_invoke_find_extents_rpc env rank (xt_gfid y) [y] cs = Some (UNIFYFS_SUCCESS, 1, Some [d])"
  shows "map_option (map ci_gfid) (process_node_local_extents_get_rpc env rank [x, y] cs) = Some [xt_gfid x, xt_gfid x]"
  using assms by (simp add: process_node_local_extents_get_rpc_def Let_def)

section \<open>Properties\<close>

text \<open>
  Servers with one file and with none, the outcomes of calls that succeed, and two examples with two
  servers. In the first, file 5 is open on both, and a request with one extent waits on server 0; in the second,
  only its owner, server 1, has the file, and it is laminated.
\<close>

definition one_file :: "inode \<Rightarrow> server_state" where
  "one_file ino = \<lparr>sv_inodes = Node RB_BLACK Null ino Null, sv_clients = (\<lambda>_. None), sv_callbacks = [], sv_rank = 0\<rparr>"

definition no_file :: server_state where
  "no_file = \<lparr>sv_inodes = Null, sv_clients = (\<lambda>_. None), sv_callbacks = [], sv_rank = 0\<rparr>"

definition good_env :: svc_env where
  "good_env = \<lparr>se_alloc = (\<lambda>_ _. True), se_now = 0, se_dbg = False, se_qsort = (\<lambda>cs. cs), se_rpc = Rpc_Answered,
     se_pull = True, se_bcast = (UNIFYFS_SUCCESS, True), se_pending = False\<rparr>"

definition item_example :: pending_extents_item where
  "item_example = \<lparr>pe_client_req = 9, pe_num_extents = 1, pe_extents = [extent_example]\<rparr>"

definition sync_cluster :: cluster where
  "sync_cluster = \<lparr>cs_servers = (\<lambda>r. one_file (if r = 0 then (inode_example 0)\<lparr>ino_pending :=
       Some \<lparr>al_cap = 1, al_size = 1, al_elems = [Some item_example]\<rparr>\<rparr> else inode_example 0)),
     cs_size = 2, cs_local_extents = False, cs_bcasts = [], cs_syncs = [], cs_responses = []\<rparr>"

definition lam_attr :: file_attr where
  "lam_attr = (ino_attr (inode_example 1))\<lparr>fa_is_shared := 1\<rparr>"

definition lam_cluster :: cluster where
  "lam_cluster = \<lparr>cs_servers = (\<lambda>r. if r = 1 then one_file ((inode_example 1)\<lparr>ino_attr := lam_attr\<rparr>) else no_file),
     cs_size = 2, cs_local_extents = False, cs_bcasts = [], cs_syncs = [], cs_responses = []\<rparr>"

lemma one_file_ok:
  shows "files (one_file ino) = [ino_gfid ino \<mapsto> ino]" "inode_ok ino \<Longrightarrow> server_inv (one_file ino)"
    "files no_file = Map.empty" "server_inv no_file"
proof -
  show f: "files (one_file ino) = [ino_gfid ino \<mapsto> ino]" "files no_file = Map.empty"
    by (auto simp: files_def one_file_def no_file_def inode_map_def fun_eq_iff)
  show "inode_ok ino \<Longrightarrow> server_inv (one_file ino)" using f(1)
    by (auto simp: server_inv_def inodes_ok_def rb_ok_def one_file_def split: if_splits)
  show "server_inv no_file" using f(2) by (simp add: server_inv_def inodes_ok_def rb_ok_def no_file_def)
qed

lemma example_clusters_ok: "cluster_inv sync_cluster" "cluster_inv lam_cluster"
proof -
  have "et_max ext_example < - 1" by (simp add: ext_example_def)
  then have ok: "inode_ok (inode_example l)" "inode_ok ((inode_example l)\<lparr>ino_pending := Some \<lparr>al_cap = 1, al_size = 1, al_elems = [Some item_example]\<rparr>\<rparr>)"
    "inode_ok ((inode_example 1)\<lparr>ino_attr := lam_attr\<rparr>)" for l
    using ext_example_ok by (simp_all add: inode_ok_def inode_example_def arr_ok_def lam_attr_def)
  then show "cluster_inv sync_cluster" "cluster_inv lam_cluster"
    using one_file_ok(2,4) by (auto simp: cluster_inv_def sync_cluster_def lam_cluster_def)
qed

text \<open>
  (C6) The service manager loses no synchronisation: when it processes the pending synchronisations of
  a file, the extents of all requests that wait, in the order of the requests, are added to the
  file at its own server and at the owner of the file, so that each byte is where the last request
  put it; no other file and no other server changes, and every waiting client gets its response.
\<close>

theorem pending_syncs_processed:
  assumes "cluster_inv cs" and "open_file (cs_servers cs rank) gfid" and "open_file (cs_servers cs (owner_rank cs gfid)) gfid"
    and "\<forall>item \<in> set (waiting (cs_servers cs rank) gfid). item_ok item" and "waiting (cs_servers cs rank) gfid \<noteq> []"
    and "length (waiting_extents (cs_servers cs rank) gfid) < 2 ^ 32" and "waiting_extents (cs_servers cs rank) gfid \<noteq> []"
    and "\<forall>i j. se_alloc env i j" and "se_rpc env = Rpc_Answered" and "se_pull env"
  shows "\<exists>cs'. process_pending_sync env rank gfid cs = Some (UNIFYFS_SUCCESS, cs') \<and> cluster_inv cs' \<and>
    (\<forall>r \<in> {rank, owner_rank cs gfid}. file_map (cs_servers cs' r) gfid =
       added (waiting_extents (cs_servers cs rank) gfid) (file_map (cs_servers cs r) gfid)) \<and>
    (\<forall>r. r \<notin> {rank, owner_rank cs gfid} \<longrightarrow> cs_servers cs' r = cs_servers cs r) \<and>
    (\<forall>r g. g \<noteq> gfid \<longrightarrow> files (cs_servers cs' r) g = files (cs_servers cs r) g) \<and>
    cs_responses cs' = cs_responses cs @ map (\<lambda>item. (pe_client_req item, UNIFYFS_SUCCESS)) (waiting (cs_servers cs rank) gfid)"
  by (rule pending_sync_spec) (use assms in simp_all)

theorem pending_syncs_processed_witness:
  "\<exists>cs'. process_pending_sync good_env 0 5 sync_cluster = Some (UNIFYFS_SUCCESS, cs') \<and>
     cs_responses cs' = [(9, UNIFYFS_SUCCESS)] \<and> file_map (cs_servers cs' 1) 5 12 = Some (0, 7, 3, 7)"
proof -
  have o: "owner_rank sync_cluster 5 = 1" by (simp add: owner_rank_def hash_gfid_to_server_def sync_cluster_def)
  have gfid: "ino_gfid (inode_example l) = 5" for l by (simp add: inode_example_def)
  have w: "waiting (cs_servers sync_cluster 0) 5 = [item_example]" "cs_responses sync_cluster = []"
    by (simp_all add: waiting_def sync_cluster_def one_file_ok(1) gfid items_def contents_def)
  then have we: "waiting_extents (cs_servers sync_cluster 0) 5 = [extent_example]"
    by (simp add: waiting_extents_def item_example_def)
  have op: "open_file (cs_servers sync_cluster 0) 5" "open_file (cs_servers sync_cluster 1) 5"
    by (simp_all add: open_file_def sync_cluster_def one_file_ok(1) gfid) (simp_all add: inode_example_def zero_attr_def)
  have "item_ok item_example" by (simp add: item_ok_def item_example_def extent_ok_def extent_example_def)
  then obtain cs' where cs': "process_pending_sync good_env 0 5 sync_cluster = Some (UNIFYFS_SUCCESS, cs')"
    "file_map (cs_servers cs' 1) 5 = added [extent_example] (file_map (cs_servers sync_cluster 1) 5)"
    "cs_responses cs' = [(pe_client_req item_example, UNIFYFS_SUCCESS)]"
    using pending_syncs_processed [OF example_clusters_ok(1), of 0 5 good_env] o w we op by (auto simp: good_env_def)
  then show ?thesis
    by (simp add: added_def item_example_def) (simp add: extent_example_def ext_place_def overwrite_def)
qed

text \<open>
  (C36) A server that asks the owner for the attributes of a laminated file before the broadcast of the
  lamination reaches it never gets the data of the file. It stores an inode that is laminated and has
  no extents, so the extents of the broadcast are refused, and every later read at this
  server finds no data, whatever data the owner has.
\<close>

theorem late_lamination_lost:
  assumes "cluster_inv cs" and "owner_rank cs gfid \<noteq> r" and "files (cs_servers cs r) gfid = None"
    and "sm_get_fileattr (owner_rank cs gfid) gfid cs = (UNIFYFS_SUCCESS, Some a)" and "fa_gfid a = gfid" and "gfid \<noteq> INVALID_GFID"
    and "fa_is_laminated a \<notin> {0, - 1}" and "fa_is_shared a \<notin> {0, - 1}"
    and "\<forall>i j. se_alloc env i j" and "se_rpc env = Rpc_Answered" and "\<not> se_pending env"
    and "xt_gfid x = gfid" and "xt_offset x \<le> xt_offset x + xt_length x - 1"
  shows "\<exists>cs1 cs2. unifyfs_invoke_metaget_rpc env r gfid cs = Some (UNIFYFS_SUCCESS, Some a, cs1) \<and>
    bcast_process env (owner_rank cs gfid) r (Bcast_Laminate gfid a xs) cs1 = Some (EINVAL, cs2) \<and>
    unifyfs_invoke_find_extents_rpc env r gfid [x] cs2 = Some (UNIFYFS_SUCCESS, 0, None)"
proof -
  obtain st1 where 1: "unifyfs_invoke_metaget_rpc env r gfid cs = Some (UNIFYFS_SUCCESS, Some a, set_server cs r st1)" "laminated_hollow st1 gfid"
    using metaget_hollow [OF assms(1-4)] assms(5-11) by blast
  obtain st2 where 2: "bcast_process env (owner_rank cs gfid) r (Bcast_Laminate gfid a xs) (set_server cs r st1) =
      Some (EINVAL, set_server (set_server cs r st1) r st2)" "laminated_hollow st2 gfid"
    using hollow_laminate [of "set_server cs r st1" r gfid a env "owner_rank cs gfid" xs] 1(2) assms(2,7) by auto
  then show ?thesis using 1(1) hollow_read [of "set_server (set_server cs r st1) r st2" r gfid x env] assms(9,12,13) by auto
qed

theorem late_lamination_lost_witness:
  "\<exists>cs1 cs2. unifyfs_invoke_metaget_rpc good_env 0 5 lam_cluster = Some (UNIFYFS_SUCCESS, Some lam_attr, cs1) \<and>
    bcast_process good_env 1 0 (Bcast_Laminate 5 lam_attr [extent_example]) cs1 = Some (EINVAL, cs2) \<and>
    unifyfs_invoke_find_extents_rpc good_env 0 5 [\<lparr>xt_offset = 6, xt_length = 4, xt_gfid = 5\<rparr>] cs2 = Some (UNIFYFS_SUCCESS, 0, None)"
proof -
  have o: "owner_rank lam_cluster 5 = 1" by (simp add: owner_rank_def hash_gfid_to_server_def lam_cluster_def)
  have f: "files (cs_servers lam_cluster 0) 5 = None" "files (cs_servers lam_cluster 1) 5 = Some ((inode_example 1)\<lparr>ino_attr := lam_attr\<rparr>)"
    by (simp_all add: lam_cluster_def one_file_ok(1,3)) (simp add: inode_example_def)
  then have "sm_get_fileattr 1 5 lam_cluster = (UNIFYFS_SUCCESS, Some lam_attr)"
    using server_invD(2) [OF cluster_invD [OF example_clusters_ok(2)]] by (simp add: sm_get_fileattr_def unifyfs_inode_metaget_def)
  then show ?thesis
    using late_lamination_lost [OF example_clusters_ok(2), of 5 0 lam_attr good_env "\<lparr>xt_offset = 6, xt_length = 4, xt_gfid = 5\<rparr>"
        "[extent_example]"] o f(1)
    by (simp add: good_env_def lam_attr_def inode_example_def INVALID_GFID_def)
qed

end
