(* ===== verification/Broadcast.thy ===== *)
theory Broadcast
  imports Cluster Kary_Tree
begin

text \<open>
  The collectives of \<^verbatim>\<open>server/src/unifyfs_group_rpc.c\<close>: a broadcast goes down a tree of the servers, every
  server forwards the request to its children, executes it, waits for the responses of its children
  and responds to its parent. The servers run concurrently, so this is a step relation: one
  step is one handler or one iteration of a loop at one server. Calls arrive and are answered; when they are
  is open.
\<close>

section \<open>State and steps\<close>

text \<open>
  What a server has done with the request: nothing, the parent has sent it, it has been forwarded
  and waits for the service manager, it has been executed and the responses of the children are
  awaited, the response has been sent, the parent has got the response. The root goes from
  \<open>Waiting\<close> to \<open>Responded\<close>, which for it means that the collective is finished.
\<close>

datatype coll_phase = Idle | Requested | Queued | Waiting | Responded | Collected

text \<open>
  The state: what the requests change, the phases and the outputs by rank. \<open>co_log\<close> records the ranks that
  have executed the request.
\<close>

record 'w collective =
  co_world :: 'w
  co_phase :: "int \<Rightarrow> coll_phase"
  co_output :: "int \<Rightarrow> unifyfs_rc"
  co_log :: "int list"

definition UNIFYFS_BCAST_K_ARY :: int where
  "UNIFYFS_BCAST_K_ARY = 2"

text \<open>
  \<^verbatim>\<open>collective_create\<close>: the tree of the collective at a rank. \<open>ok\<close> is the outcome of its allocations;
  without memory there is no collective.
\<close>

definition collective_create :: "bool \<Rightarrow> int \<Rightarrow> int \<Rightarrow> int \<Rightarrow> int list option" where
  "collective_create ok n root rank =
     (case unifyfs_tree_init ok rank n root UNIFYFS_BCAST_K_ARY of
        Some (UNIFYFS_SUCCESS, t) \<Rightarrow>
          (case t_child_ranks t of
             Some ranks \<Rightarrow> Some (take (nat (t_child_count t)) ranks)
           | None \<Rightarrow> if t_child_count t = 0 then Some [] else None)
      | _ \<Rightarrow> None)"

text \<open>\<^verbatim>\<open>collective_forward\<close>: the request goes to all children.\<close>

definition collective_forward :: "int list \<Rightarrow> (int \<Rightarrow> coll_phase) \<Rightarrow> int \<Rightarrow> coll_phase" where
  "collective_forward children phase = (\<lambda>r. if r \<in> set children then Requested else phase r)"

definition coll_start :: "int \<Rightarrow> int list \<Rightarrow> 'w \<Rightarrow> 'w collective" where
  "coll_start root children w =
     \<lparr>co_world = w, co_phase = (collective_forward children (\<lambda>_. Idle))(root := Waiting),
      co_output = (\<lambda>_. UNIFYFS_SUCCESS), co_log = []\<rparr>"

text \<open>
  The steps. \<open>accept r\<close> is the result of taking the input of the call at \<open>r\<close>, \<open>mem r\<close> the outcome of the
  allocations there, and \<open>exec r\<close> the execution of the request. A call that is not accepted is
  answered with the error, and goes no further. The response of a child replaces the output
  when it is an error; the root has no output.
\<close>

inductive coll_step ::
  "(int \<Rightarrow> unifyfs_rc) \<Rightarrow> (int \<Rightarrow> bool) \<Rightarrow> (int \<Rightarrow> 'w \<Rightarrow> (unifyfs_rc \<times> 'w) option) \<Rightarrow> int \<Rightarrow> int \<Rightarrow> 'w collective \<Rightarrow> 'w collective \<Rightarrow> bool"
  for accept mem exec n root where
  receive: "co_phase s r = Requested \<Longrightarrow> accept r = UNIFYFS_SUCCESS \<Longrightarrow> collective_create (mem r) n root r = Some children \<Longrightarrow>
    coll_step accept mem exec n root s
      (s\<lparr>co_phase := (collective_forward children (co_phase s))(r := Queued)\<rparr>)"
| refuse: "co_phase s r = Requested \<Longrightarrow> accept r \<noteq> UNIFYFS_SUCCESS \<Longrightarrow>
    coll_step accept mem exec n root s
      (s\<lparr>co_phase := (co_phase s)(r := Responded), co_output := (co_output s)(r := accept r)\<rparr>)"
| no_memory: "co_phase s r = Requested \<Longrightarrow> accept r = UNIFYFS_SUCCESS \<Longrightarrow> collective_create (mem r) n root r = None \<Longrightarrow>
    coll_step accept mem exec n root s
      (s\<lparr>co_phase := (co_phase s)(r := Responded), co_output := (co_output s)(r := ENOMEM)\<rparr>)"
| process: "co_phase s r = Queued \<Longrightarrow> exec r (co_world s) = Some (rc, w) \<Longrightarrow>
    coll_step accept mem exec n root s
      (s\<lparr>co_world := w, co_phase := (co_phase s)(r := Waiting), co_output := (co_output s)(r := rc), co_log := co_log s @ [r]\<rparr>)"
| child_response: "co_phase s r = Waiting \<Longrightarrow> collective_create (mem r) n root r = Some children \<Longrightarrow> c \<in> set children \<Longrightarrow>
    co_phase s c = Responded \<Longrightarrow>
    coll_step accept mem exec n root s
      (s\<lparr>co_phase := (co_phase s)(c := Collected),
         co_output := (if r \<noteq> root \<and> co_output s c \<noteq> UNIFYFS_SUCCESS then (co_output s)(r := co_output s c) else co_output s)\<rparr>)"
| finish: "co_phase s r = Waiting \<Longrightarrow> collective_create (mem r) n root r = Some children \<Longrightarrow>
    (\<forall>c \<in> set children. co_phase s c = Collected) \<Longrightarrow>
    coll_step accept mem exec n root s (s\<lparr>co_phase := (co_phase s)(r := Responded)\<rparr>)"

section \<open>The invariant of a broadcast\<close>

text \<open>How the phases of a server and of its child fit together.\<close>

definition phases_fit :: "coll_phase \<Rightarrow> coll_phase \<Rightarrow> bool" where
  "phases_fit p c \<longleftrightarrow> (p \<in> {Idle, Requested} \<longrightarrow> c = Idle) \<and> (p \<in> {Queued, Waiting} \<longrightarrow> c \<noteq> Idle) \<and>
     (p \<in> {Responded, Collected} \<longrightarrow> c = Collected)"

definition edges_fit :: "int set \<Rightarrow> (int \<Rightarrow> int list) \<Rightarrow> (int \<Rightarrow> coll_phase) \<Rightarrow> bool" where
  "edges_fit ranks children ph \<longleftrightarrow> (\<forall>p \<in> ranks. \<forall>c \<in> set (children p). phases_fit (ph p) (ph c))"

definition coll_inv :: "int set \<Rightarrow> int \<Rightarrow> (int \<Rightarrow> int list) \<Rightarrow> 'w collective \<Rightarrow> bool" where
  "coll_inv ranks root children s \<longleftrightarrow> (\<forall>r. r \<notin> ranks \<longrightarrow> co_phase s r = Idle) \<and> co_phase s root \<in> {Waiting, Responded} \<and>
     edges_fit ranks children (co_phase s) \<and> distinct (co_log s) \<and>
     set (co_log s) = {r \<in> ranks. r \<noteq> root \<and> co_phase s r \<in> {Waiting, Responded, Collected}}"

text \<open>The steps that are left.\<close>

fun phase_rank :: "coll_phase \<Rightarrow> nat" where
  "phase_rank Idle = 5"
| "phase_rank Requested = 4"
| "phase_rank Queued = 3"
| "phase_rank Waiting = 2"
| "phase_rank Responded = 1"
| "phase_rank Collected = 0"

definition steps_left :: "int set \<Rightarrow> 'w collective \<Rightarrow> nat" where
  "steps_left ranks s = (\<Sum>r\<in>ranks. phase_rank (co_phase s r))"

lemma phases_fit_mono:
  "phases_fit a Queued \<Longrightarrow> phases_fit a Waiting" "phases_fit a Waiting \<Longrightarrow> phases_fit a Responded"
  "phases_fit a Responded \<Longrightarrow> phases_fit a Collected" "phases_fit a Requested \<Longrightarrow> phases_fit a Queued"
  "phases_fit Queued b \<Longrightarrow> phases_fit Waiting b" "phases_fit Responded b \<Longrightarrow> phases_fit Collected b"
  by (auto simp: phases_fit_def)

text \<open>What the protocol needs of the trees: they are one tree of all ranks.\<close>

locale broadcast_tree =
  fixes ranks :: "int set" and root :: int and children :: "int \<Rightarrow> int list" and depth :: "int \<Rightarrow> nat"
  assumes finite_ranks: "finite ranks" and root_in: "root \<in> ranks"
    and child: "p \<in> ranks \<Longrightarrow> c \<in> set (children p) \<Longrightarrow> c \<in> ranks \<and> c \<noteq> root \<and> depth p < depth c"
    and one_parent: "p \<in> ranks \<Longrightarrow> q \<in> ranks \<Longrightarrow> c \<in> set (children p) \<Longrightarrow> c \<in> set (children q) \<Longrightarrow> p = q"
    and parent: "c \<in> ranks \<Longrightarrow> c \<noteq> root \<Longrightarrow> \<exists>p \<in> ranks. c \<in> set (children p)"
begin

lemma edges_update:
  assumes "edges_fit ranks children ph" "r \<in> ranks" "\<forall>c \<in> set (children r). phases_fit x (ph c)"
    "\<forall>p \<in> ranks. r \<in> set (children p) \<longrightarrow> phases_fit (ph p) x"
  shows "edges_fit ranks children (ph(r := x))"
  unfolding edges_fit_def
proof (intro ballI)
  fix p c assume pc: "p \<in> ranks" "c \<in> set (children p)"
  then have "p \<noteq> c" using child by blast
  then show "phases_fit ((ph(r := x)) p) ((ph(r := x)) c)"
    using pc assms by (cases "p = r"; cases "c = r") (auto simp: edges_fit_def)
qed

lemma start_inv: "coll_inv ranks root children (coll_start root (children root) w)"
proof -
  have "phases_fit (if p = root then Waiting else if p \<in> set (children root) then Requested else Idle)
      (if c = root then Waiting else if c \<in> set (children root) then Requested else Idle)"
    if "p \<in> ranks" "c \<in> set (children p)" for p c
    using that child [of p c] one_parent [OF that(1) root_in that(2)] by (auto simp: phases_fit_def)
  then show ?thesis using child root_in
    by (auto simp: coll_inv_def coll_start_def collective_forward_def edges_fit_def)
qed

lemma receive_inv:
  assumes inv: "coll_inv ranks root children s" and r: "co_phase s r = Requested"
  shows "coll_inv ranks root children (s\<lparr>co_phase := (collective_forward (children r) (co_phase s))(r := Queued)\<rparr>)"
proof -
  let ?f = "co_phase s" and ?g = "(collective_forward (children r) (co_phase s))(r := Queued)"
  have rr: "r \<in> ranks" "r \<noteq> root" using inv r by (auto simp: coll_inv_def)
  have fit: "phases_fit (?f p) (?f c)" if "p \<in> ranks" "c \<in> set (children p)" for p c
    using inv that by (simp add: coll_inv_def edges_fit_def)
  have idle: "?f c = Idle" if "c \<in> set (children r)" for c using fit [OF rr(1) that] r by (simp add: phases_fit_def)
  have "phases_fit (?g p) (?g c)" if pc: "p \<in> ranks" "c \<in> set (children p)" for p c
  proof -
    note cp = child [OF pc]
    consider (r) "p = r" | (up) "c = r" | (down) "p \<in> set (children r)" "c \<noteq> r" | (other) "p \<noteq> r" "c \<noteq> r" "p \<notin> set (children r)" by blast
    then show ?thesis
    proof cases
      case r
      then have "c \<noteq> r" using cp by auto
      then show ?thesis using r pc(2) by (simp add: collective_forward_def phases_fit_def)
    next
      case up
      then have "p \<notin> set (children r)" "p \<noteq> r" using cp child [OF rr(1), of p] by auto
      moreover have "phases_fit (?f p) Requested" using fit [OF pc] up r by simp
      ultimately show ?thesis using up phases_fit_mono(4) by (simp add: collective_forward_def)
    next
      case down
      then have "p \<noteq> r" "?f p = Idle" using idle child [OF rr(1), of p] by auto
      moreover have "c \<notin> set (children r)" using one_parent [OF pc(1) rr(1) pc(2)] \<open>p \<noteq> r\<close> by blast
      ultimately show ?thesis using down fit [OF pc] by (simp add: collective_forward_def phases_fit_def)
    next
      case other
      then have "c \<notin> set (children r)" using one_parent [OF pc(1) rr(1) pc(2)] by blast
      then show ?thesis using other fit [OF pc] by (simp add: collective_forward_def)
    qed
  qed
  moreover have "r \<notin> set (children r)" "root \<notin> set (children r)" using child [OF rr(1)] by auto
  moreover have "{x \<in> ranks. x \<noteq> root \<and> ?g x \<in> {Waiting, Responded, Collected}} = {x \<in> ranks. x \<noteq> root \<and> ?f x \<in> {Waiting, Responded, Collected}}"
    using idle r by (auto simp: collective_forward_def)
  ultimately show ?thesis using inv rr child [OF rr(1)] by (auto simp: coll_inv_def edges_fit_def collective_forward_def)
qed

lemma phase_inv:
  assumes inv: "coll_inv ranks root children s" and r: "r \<in> ranks" "r = root \<Longrightarrow> x \<in> {Waiting, Responded}"
    and x: "co_phase s r \<in> {Waiting, Responded, Collected} \<longleftrightarrow> x \<in> {Waiting, Responded, Collected}"
    and down: "\<forall>c \<in> set (children r). phases_fit x (co_phase s c)"
    and up: "\<And>a. phases_fit a (co_phase s r) \<Longrightarrow> phases_fit a x"
  shows "coll_inv ranks root children (s\<lparr>co_phase := (co_phase s)(r := x)\<rparr>)"
proof -
  have fit: "edges_fit ranks children (co_phase s)" using inv by (simp add: coll_inv_def)
  then have "edges_fit ranks children ((co_phase s)(r := x))"
    using edges_update [OF fit r(1) down] up by (simp add: edges_fit_def)
  moreover have "{y \<in> ranks. y \<noteq> root \<and> ((co_phase s)(r := x)) y \<in> {Waiting, Responded, Collected}} =
      {y \<in> ranks. y \<noteq> root \<and> co_phase s y \<in> {Waiting, Responded, Collected}}"
    using x by auto
  ultimately show ?thesis using inv r by (simp add: coll_inv_def)
qed

lemma process_inv:
  assumes inv: "coll_inv ranks root children s" and r: "co_phase s r = Queued"
  shows "coll_inv ranks root children (s\<lparr>co_world := w, co_phase := (co_phase s)(r := Waiting),
    co_output := out, co_log := co_log s @ [r]\<rparr>)"
proof -
  have rr: "r \<in> ranks" "r \<noteq> root" "r \<notin> set (co_log s)" using inv r by (auto simp: coll_inv_def)
  have fit: "edges_fit ranks children (co_phase s)" using inv by (simp add: coll_inv_def)
  have "edges_fit ranks children ((co_phase s)(r := Waiting))"
    using edges_update [OF fit rr(1), of Waiting] fit rr(1) r phases_fit_mono(1,5) by (fastforce simp: edges_fit_def)
  moreover have "{y \<in> ranks. y \<noteq> root \<and> ((co_phase s)(r := Waiting)) y \<in> {Waiting, Responded, Collected}} =
      insert r {y \<in> ranks. y \<noteq> root \<and> co_phase s y \<in> {Waiting, Responded, Collected}}"
    using rr by auto
  ultimately show ?thesis using inv rr by (simp add: coll_inv_def)
qed

lemma inv_output: "coll_inv ranks root children s \<Longrightarrow> coll_inv ranks root children (s\<lparr>co_output := out\<rparr>)"
  by (simp add: coll_inv_def)

end

section \<open>Progress and completion\<close>

text \<open>All calls are accepted, and the trees of the servers are the tree.\<close>

definition reaches_all :: "(int \<Rightarrow> unifyfs_rc) \<Rightarrow> (int \<Rightarrow> bool) \<Rightarrow> int \<Rightarrow> int \<Rightarrow> int set \<Rightarrow> (int \<Rightarrow> int list) \<Rightarrow> bool" where
  "reaches_all accept mem n root ranks children \<longleftrightarrow>
     (\<forall>r \<in> ranks. accept r = UNIFYFS_SUCCESS \<and> collective_create (mem r) n root r = Some (children r))"

context broadcast_tree
begin

lemma left_less:
  assumes "r \<in> ranks" "phase_rank (ph' r) < phase_rank (co_phase s r)" "\<forall>x \<in> ranks. phase_rank (ph' x) \<le> phase_rank (co_phase s x)"
  shows "steps_left ranks (s'\<lparr>co_phase := ph'\<rparr>) < steps_left ranks s"
  using assms finite_ranks by (auto simp: steps_left_def intro!: sum_strict_mono_ex1)

lemma active_in: "coll_inv ranks root children s \<Longrightarrow> co_phase s r \<noteq> Idle \<Longrightarrow> r \<in> ranks"
  by (auto simp: coll_inv_def)

lemma step_inv:
  assumes inv: "coll_inv ranks root children s" and acc: "reaches_all accept mem n root ranks children"
    and step: "coll_step accept mem exec n root s s'"
  shows "coll_inv ranks root children s' \<and> steps_left ranks s' < steps_left ranks s"
  using step
proof cases
  case (receive r cs)
  then have r: "r \<in> ranks" using active_in [OF inv, of r] by simp
  then have cs: "cs = children r" using acc receive by (simp add: reaches_all_def)
  have "co_phase s c = Idle" if "c \<in> set (children r)" for c
    using inv r that receive(2) by (auto simp: coll_inv_def edges_fit_def phases_fit_def)
  then have "steps_left ranks s' < steps_left ranks s"
    unfolding receive(1) cs using receive(2) r by (intro left_less [of r]) (auto simp: collective_forward_def)
  then show ?thesis using receive_inv [OF inv receive(2)] receive(1) cs by simp
next
  case (refuse r)
  then have "r \<in> ranks" using active_in [OF inv, of r] by simp
  then show ?thesis using acc refuse by (simp add: reaches_all_def)
next
  case (no_memory r)
  then have "r \<in> ranks" using active_in [OF inv, of r] by simp
  then show ?thesis using acc no_memory by (simp add: reaches_all_def)
next
  case (process r rc w)
  then have "r \<in> ranks" using active_in [OF inv, of r] by simp
  then have "steps_left ranks (s\<lparr>co_phase := (co_phase s)(r := Waiting)\<rparr>) < steps_left ranks s"
    using process(2) by (intro left_less [of r]) auto
  then have "steps_left ranks s' < steps_left ranks s" unfolding process(1) by (simp add: steps_left_def)
  then show ?thesis using process_inv [OF inv process(2)] process(1) by simp
next
  case (child_response r cs c)
  then have r: "r \<in> ranks" using active_in [OF inv, of r] by simp
  then have cs: "cs = children r" using acc child_response by (simp add: reaches_all_def)
  then have c: "c \<in> ranks" "c \<noteq> root" using child [OF r] child_response by auto
  have "edges_fit ranks children (co_phase s)" using inv by (simp add: coll_inv_def)
  then have "\<forall>d \<in> set (children c). phases_fit Collected (co_phase s d)"
    using c child_response phases_fit_mono(6) by (fastforce simp: edges_fit_def)
  then have "coll_inv ranks root children (s\<lparr>co_phase := (co_phase s)(c := Collected)\<rparr>)"
    using phase_inv [OF inv c(1), of Collected] c(2) child_response phases_fit_mono(3) by simp
  moreover have "steps_left ranks (s\<lparr>co_phase := (co_phase s)(c := Collected)\<rparr>) < steps_left ranks s"
    using child_response c by (intro left_less [of c]) auto
  ultimately show ?thesis unfolding child_response(1) by (auto intro: inv_output [where s = "s\<lparr>co_phase := (co_phase s)(c := Collected)\<rparr>", simplified] simp: steps_left_def)
next
  case (finish r cs)
  then have r: "r \<in> ranks" using active_in [OF inv, of r] by simp
  then have cs: "cs = children r" using acc finish by (simp add: reaches_all_def)
  have "coll_inv ranks root children s'"
    unfolding finish(1) using finish cs phases_fit_mono(2) by (intro phase_inv [OF inv r]) (auto simp: phases_fit_def)
  moreover have "steps_left ranks s' < steps_left ranks s" unfolding finish(1) using finish r by (intro left_less [of r]) auto
  ultimately show ?thesis by blast
qed

text \<open>When the root has finished, every other server has executed the request once.\<close>

lemma completed:
  assumes inv: "coll_inv ranks root children s" and fin: "co_phase s root = Responded"
  shows "set (co_log s) = ranks - {root}" "distinct (co_log s)"
proof -
  have fit: "phases_fit (co_phase s p) (co_phase s c)" if "p \<in> ranks" "c \<in> set (children p)" for p c
    using inv that by (simp add: coll_inv_def edges_fit_def)
  have "co_phase s c = Collected" if "c \<in> ranks" "c \<noteq> root" for c
    using that
  proof (induction "depth c" arbitrary: c rule: less_induct)
    case less
    obtain p where p: "p \<in> ranks" "c \<in> set (children p)" using parent [OF less.prems] by blast
    then have "co_phase s p \<in> {Responded, Collected}" using less.hyps [of p] child [OF p] fin by (cases "p = root") auto
    then show ?case using fit [OF p] by (simp add: phases_fit_def)
  qed
  then show "set (co_log s) = ranks - {root}" "distinct (co_log s)" using inv by (auto simp: coll_inv_def)
qed

text \<open>As long as a server is busy, some server can do a step.\<close>

lemma busy_step:
  assumes inv: "coll_inv ranks root children s" and acc: "reaches_all accept mem n root ranks children"
    and ex: "\<forall>r \<in> ranks. exec r (co_world s) \<noteq> None"
    and r: "r \<in> ranks" "co_phase s r \<in> {Requested, Queued, Waiting}"
  shows "\<exists>s'. coll_step accept mem exec n root s s'"
  using r
proof (induction "card {x \<in> ranks. depth r < depth x}" arbitrary: r rule: less_induct)
  case less
  have cr: "collective_create (mem r) n root r = Some (children r)" "accept r = UNIFYFS_SUCCESS"
    using acc less.prems(1) by (simp_all add: reaches_all_def)
  consider (req) "co_phase s r = Requested" | (queued) "co_phase s r = Queued" |
    (idle) "co_phase s r = Waiting" "\<forall>c \<in> set (children r). co_phase s c = Collected" |
    (kid) c where "co_phase s r = Waiting" "c \<in> set (children r)" "co_phase s c \<noteq> Collected" using less.prems(2) by auto
  then show ?case
  proof cases
    case (kid c)
    note c = child [OF less.prems(1) kid(2)]
    have "co_phase s c \<noteq> Idle" using inv less.prems(1) kid by (auto simp: coll_inv_def edges_fit_def phases_fit_def)
    show ?thesis
    proof (cases "co_phase s c = Responded")
      case True
      then show ?thesis using coll_step.child_response [where s = s and r = r and c = c and mem = mem and n = n and root = root, OF kid(1) cr(1) kid(2)] by blast
    next
      case False
      have "{x \<in> ranks. depth c < depth x} \<subset> {x \<in> ranks. depth r < depth x}" using c by auto
      then have "card {x \<in> ranks. depth c < depth x} < card {x \<in> ranks. depth r < depth x}"
        using finite_ranks by (intro psubset_card_mono) auto
      then show ?thesis using less.hyps c False \<open>co_phase s c \<noteq> Idle\<close> kid(3) by (cases "co_phase s c") auto
    qed
  next
    case req
    then show ?thesis using coll_step.receive [where s = s and r = r and accept = accept and mem = mem and n = n and root = root, OF req cr(2,1)] by blast
  next
    case queued
    then obtain rc w where "exec r (co_world s) = Some (rc, w)" using ex less.prems(1) by fastforce
    then show ?thesis using coll_step.process [OF queued, where exec = exec] by blast
  next
    case idle
    then show ?thesis using coll_step.finish [where s = s and r = r and mem = mem and n = n and root = root, OF idle(1) cr(1)] by blast
  qed
qed

lemma finishes:
  assumes "coll_inv ranks root children s" and acc: "reaches_all accept mem n root ranks children"
    and ex: "\<And>r w. r \<in> ranks \<Longrightarrow> P w \<Longrightarrow> \<exists>rc w'. exec r w = Some (rc, w') \<and> P w'" and "P (co_world s)"
  shows "\<exists>s'. (coll_step accept mem exec n root)\<^sup>*\<^sup>* s s' \<and> co_phase s' root = Responded"
  using assms(1,4)
proof (induction "steps_left ranks s" arbitrary: s rule: less_induct)
  case less
  show ?case
  proof (cases "co_phase s root = Responded")
    case False
    then have "co_phase s root = Waiting" using less.prems(1) by (auto simp: coll_inv_def)
    moreover have "\<forall>r \<in> ranks. exec r (co_world s) \<noteq> None" using ex [OF _ less.prems(2)] by fastforce
    ultimately obtain s1 where s1: "coll_step accept mem exec n root s s1"
      using busy_step [OF less.prems(1) acc _ root_in] by blast
    have inv1: "coll_inv ranks root children s1" "steps_left ranks s1 < steps_left ranks s"
      using step_inv [OF less.prems(1) acc s1] by simp_all
    have "P (co_world s1)"
      using s1
    proof cases
      case (process r rc w)
      then have "r \<in> ranks" using less.prems(1) by (auto simp: coll_inv_def)
      then show ?thesis using ex [OF _ less.prems(2), of r] process by auto
    qed (use less.prems(2) in simp_all)
    then obtain s' where "(coll_step accept mem exec n root)\<^sup>*\<^sup>* s1 s'" "co_phase s' root = Responded"
      using less.hyps [OF inv1(2,1)] by blast
    then show ?thesis using s1 converse_rtranclp_into_rtranclp by metis
  qed blast
qed

lemma run_inv:
  assumes "coll_inv ranks root children s" and "reaches_all accept mem n root ranks children"
    and "(coll_step accept mem exec n root ^^ k) s s'"
  shows "coll_inv ranks root children s' \<and> steps_left ranks s' + k \<le> steps_left ranks s"
  using assms(3)
proof (induction k arbitrary: s')
  case (Suc k)
  then obtain s1 where s1: "(coll_step accept mem exec n root ^^ k) s s1" "coll_step accept mem exec n root s1 s'" by auto
  then show ?case using Suc.IH [OF s1(1)] step_inv [OF _ assms(2) s1(2)] by fastforce
qed (use assms(1) in auto)

end

section \<open>The tree of the servers\<close>

text \<open>Parameters for which there is no tree give a tree of the root alone.\<close>

definition bcast_ranks :: "int \<Rightarrow> int \<Rightarrow> int set" where
  "bcast_ranks n root = (if valid_tree n root UNIFYFS_BCAST_K_ARY then {0..<n} else {root})"

definition bcast_children :: "int \<Rightarrow> int \<Rightarrow> int \<Rightarrow> int list" where
  "bcast_children n root r = (if valid_tree n root UNIFYFS_BCAST_K_ARY then tree_children n root UNIFYFS_BCAST_K_ARY r else [])"

lemma tree_child:
  assumes v: "valid_tree n root k" and p: "0 \<le> p" "p < n" and c: "c \<in> set (tree_children n root k p)"
  shows "0 \<le> c" "c < n" "c \<noteq> root" "dist n root p < dist n root c"
proof -
  have n: "0 \<le> root" "root < n" "1 \<le> k" using v by (auto simp: valid_tree_def)
  obtain d where d: "c = unrotate n root d" "dist n root p * k + 1 \<le> d" "d < n"
    using c by (auto simp: tree_children_def Let_def)
  have p0: "0 \<le> dist n root p" using dist_bounds(2) [OF n(1,2) p] .
  moreover have "dist n root p \<le> dist n root p * k" using mult_left_mono [OF n(3) p0] by simp
  ultimately have d0: "0 \<le> d" "dist n root p < d" using d(2) by linarith+
  show range: "0 \<le> c" "c < n" using d(1) n by (simp_all add: unrotate_def)
  have e: "dist n root c = d" using unrotate_dist(2) [OF n(1,2) d0(1) d(3)] d(1) by simp
  then show "dist n root p < dist n root c" using d0 by simp
  then show "c \<noteq> root" using p0 dist_bounds(4) [OF n(1,2) range] by auto
qed

interpretation bc: broadcast_tree "bcast_ranks n root" root "bcast_children n root" "\<lambda>r. nat (dist n root r)" for n root
proof
  let ?k = UNIFYFS_BCAST_K_ARY
  show "finite (bcast_ranks n root)" by (simp add: bcast_ranks_def)
  show "root \<in> bcast_ranks n root" by (simp add: bcast_ranks_def valid_tree_def)
  show "c \<in> bcast_ranks n root \<and> c \<noteq> root \<and> nat (dist n root p) < nat (dist n root c)"
    if "p \<in> bcast_ranks n root" "c \<in> set (bcast_children n root p)" for p c
  proof -
    have v: "valid_tree n root ?k" and c: "c \<in> set (tree_children n root ?k p)" and p: "0 \<le> p" "p < n"
      using that by (auto simp: bcast_ranks_def bcast_children_def split: if_splits)
    have "0 \<le> dist n root p" using dist_bounds(2) [of root n p] v p by (auto simp: valid_tree_def)
    then show ?thesis using tree_child [OF v p c] v by (simp add: bcast_ranks_def)
  qed
  show "p = q" if "p \<in> bcast_ranks n root" "q \<in> bcast_ranks n root" "c \<in> set (bcast_children n root p)" "c \<in> set (bcast_children n root q)" for p q c
  proof -
    have v: "valid_tree n root ?k" and c: "c \<in> set (tree_children n root ?k p)" "c \<in> set (tree_children n root ?k q)"
      and p: "0 \<le> p" "p < n" "0 \<le> q" "q < n"
      using that by (auto simp: bcast_ranks_def bcast_children_def split: if_splits)
    note r = tree_child(1,2) [OF v p(1,2) c(1)]
    show ?thesis using child_iff_parent [OF v p(1,2) r] child_iff_parent [OF v p(3,4) r] c by simp
  qed
  show "\<exists>p \<in> bcast_ranks n root. c \<in> set (bcast_children n root p)" if "c \<in> bcast_ranks n root" "c \<noteq> root" for c
  proof -
    have v: "valid_tree n root ?k" and c: "0 \<le> c" "c < n" using that by (auto simp: bcast_ranks_def split: if_splits)
    let ?p = "tree_parent n root ?k c"
    have "0 < n" using c by simp
    then have p: "0 \<le> ?p" "?p < n" using that(2) by (simp_all add: tree_parent_def unrotate_def)
    then show ?thesis using child_iff_parent [OF v p c] v by (auto simp: bcast_ranks_def bcast_children_def)
  qed
qed

lemma create_children:
  assumes v: "valid_tree n root UNIFYFS_BCAST_K_ARY" and r: "0 \<le> r" "r < n"
  shows "collective_create True n root r = Some (bcast_children n root r)"
  using tree_init_spec [OF v r] v by (auto simp: collective_create_def bcast_children_def)

lemma reaches_tree:
  assumes v: "valid_tree n root UNIFYFS_BCAST_K_ARY" and a: "\<forall>r \<in> {0..<n}. accept r = UNIFYFS_SUCCESS \<and> mem r"
  shows "reaches_all accept mem n root (bcast_ranks n root) (bcast_children n root)"
  using create_children [OF v] a v by (auto simp: reaches_all_def bcast_ranks_def)

section \<open>What a run executes\<close>

fun exec_log :: "(int \<Rightarrow> 'w \<Rightarrow> (unifyfs_rc \<times> 'w) option) \<Rightarrow> int list \<Rightarrow> 'w \<Rightarrow> 'w option" where
  "exec_log exec [] w = Some w"
| "exec_log exec (r # rs) w = do { (rc, w) \<leftarrow> exec r w; exec_log exec rs w }"

lemma exec_log_append: "exec_log exec (rs @ [r]) w = do { w \<leftarrow> exec_log exec rs w; (rc, w) \<leftarrow> exec r w; Some w }"
  by (induction rs arbitrary: w) (auto simp: bind_eq_Some_conv split: Option.bind_split option.split)

lemma run_exec:
  assumes "(coll_step accept mem exec n root)\<^sup>*\<^sup>* s s'"
  shows "\<exists>rs. co_log s' = co_log s @ rs \<and> exec_log exec rs (co_world s) = Some (co_world s')"
  using assms
proof (induction rule: rtranclp_induct)
  case (step s1 s2)
  then obtain rs where rs: "co_log s1 = co_log s @ rs" "exec_log exec rs (co_world s) = Some (co_world s1)" by blast
  from step.hyps(2) show ?case
  proof cases
    case (process r rc w)
    then show ?thesis using rs by (intro exI [of _ "rs @ [r]"]) (simp add: exec_log_append)
  qed (use rs in simp_all)
qed simp

lemma steps_bound:
  assumes v: "valid_tree n root UNIFYFS_BCAST_K_ARY"
  shows "steps_left (bcast_ranks n root) s \<le> 5 * nat n"
proof -
  have "phase_rank x \<le> 5" for x by (cases x) simp_all
  then have "steps_left (bcast_ranks n root) s \<le> (\<Sum>r\<in>bcast_ranks n root. 5)" unfolding steps_left_def by (intro sum_mono) simp
  then show ?thesis using v by (simp add: bcast_ranks_def mult.commute)
qed

section \<open>Laminating a file at all servers\<close>

text \<open>The steps of the broadcast of a request of the file system.\<close>

abbreviation bcast_step :: "(int \<Rightarrow> svc_env) \<Rightarrow> int \<Rightarrow> int \<Rightarrow> bcast_req \<Rightarrow> cluster collective \<Rightarrow> cluster collective \<Rightarrow> bool" where
  "bcast_step env n root req \<equiv> coll_step (\<lambda>r. bcast_accept (env r) req) (\<lambda>r. se_alloc (env r) 3 0)
     (\<lambda>r. bcast_process (env r) root r req) n root"


lemma get_extents_all:
  assumes inv: "server_inv st" and ino: "files st gfid = Some ino" "ino_extents ino = Some T" and few: "length (rb_inorder (et_head T)) < 2 ^ 64"
  shows "unifyfs_inode_get_extents True st gfid = Some (UNIFYFS_SUCCESS, et_count T, rb_inorder (et_head T))"
proof -
  have T: "ext_inv T" using server_invD(3) [OF inv ino(1)] ino(2) by (auto simp: inode_ok_def)
  have "et_count T = of_nat (length (rb_inorder (et_head T)))" using ext_invD(1) [OF T] by (simp add: itree_ok_def)
  then have "unat (et_count T) = length (rb_inorder (et_head T))" using few by (simp add: u64_of_nat)
  moreover have "extent_tree_iter_loop (et_head T) None = Some (rb_inorder (et_head T))"
    using ext_iter.collect_all [OF ext_invD(2) [OF T]] by simp
  ultimately show ?thesis using ino server_invD(2) [OF inv] by (simp add: unifyfs_inode_get_extents_def)
qed








lemma laminate_starts:
  assumes inv: "cluster_inv cs" and ino: "files (cs_servers cs root) gfid = Some ino" "fa_is_shared (ino_attr ino) \<noteq> 0" "ino_extents ino = Some T"
    and owner: "owner_rank cs gfid = root" and few: "length (rb_inorder (et_head T)) < 2 ^ 64"
    and env: "\<And>i j. se_alloc env i j" "se_bcast env = (UNIFYFS_SUCCESS, True)"
  defines "a \<equiv> (ino_attr ino)\<lparr>fa_is_laminated := 1\<rparr>"
  shows "\<exists>st. sm_laminate env root gfid cs = Some (UNIFYFS_SUCCESS, (set_server cs root st)\<lparr>cs_bcasts := cs_bcasts cs @
      [(root, Bcast_Laminate gfid a (rb_inorder (et_head T)))]\<rparr>) \<and> server_inv st \<and>
    files st gfid = Some (ino\<lparr>ino_attr := a\<rparr>) \<and> file_map st gfid = file_map (cs_servers cs root) gfid"
proof -
  let ?s = "cs_servers cs root" and ?ino = "ino\<lparr>ino_attr := a\<rparr>"
  have sv: "server_inv ?s" using cluster_invD [OF inv] .
  let ?st = "set_inode ?s ino ?ino"
  have lam: "unifyfs_inode_laminate gfid ?s = (UNIFYFS_SUCCESS, ?st)"
    using ino(1) server_invD(2) [OF sv] by (simp add: unifyfs_inode_laminate_def a_def)
  have ok: "inode_ok ?ino" "ino_gfid ?ino = gfid" using server_invD(3) [OF sv ino(1)] by (simp_all add: inode_ok_def a_def)
  note new = server_inv_set [OF sv ino(1) ok]
  have "file_map ?st gfid = file_map ?s gfid" using new(2) ino(1) by (simp add: file_map_def file_extents_def fun_eq_iff)
  moreover have "unifyfs_inode_metaget ?st gfid = (UNIFYFS_SUCCESS, Some a)"
    using new server_invD(2) [OF new(1)] by (simp add: unifyfs_inode_metaget_def)
  moreover have "unifyfs_inode_get_extents True ?st gfid = Some (UNIFYFS_SUCCESS, et_count T, rb_inorder (et_head T))"
    using get_extents_all [OF new(1) _ _ few, of gfid ?ino] new(2) ino(3) by simp
  ultimately show ?thesis using lam owner ino(2) env new
    by (intro exI [of _ ?st]) (simp add: sm_laminate_def unifyfs_invoke_broadcast_laminate_def start_bcast_def set_server_def a_def)
qed

section \<open>An empty file\<close>

text \<open>The broadcast of a lamination without extents is refused by every server it reaches.\<close>

lemma empty_lamination_stuck:
  assumes "(bcast_step env n root (Bcast_Laminate gfid a []))\<^sup>*\<^sup>* (coll_start root children cs) s"
  shows "co_world s = cs \<and> co_log s = [] \<and> (\<forall>r. co_phase s r \<noteq> Queued)"
  using assms
proof (induction rule: rtranclp_induct)
  case base
  then show ?case by (simp add: coll_start_def collective_forward_def)
next
  case (step s1 s2)
  from step.hyps(2) show ?case
    by cases (use step.IH in \<open>auto simp: bcast_accept_def pull_margo_bulk_buffer_def\<close>)
qed

section \<open>Runs\<close>


text \<open>The servers of the second example before the lamination: the owner, server 1, has the open file 5, server 0 does not know it.\<close>

definition open_inode :: inode where
  "open_inode = (inode_example 0)\<lparr>ino_attr := (ino_attr (inode_example 0))\<lparr>fa_is_shared := 1\<rparr>\<rparr>"

definition open_cluster :: cluster where
  "open_cluster = \<lparr>cs_servers = (\<lambda>r. if r = 1 then one_file open_inode else no_file),
     cs_size = 2, cs_local_extents = False, cs_bcasts = [], cs_syncs = [], cs_responses = []\<rparr>"




section \<open>Properties\<close>



text \<open>
  (C9) A broadcast always finishes: when the request can be executed in every state that satisfies
  some condition, and keeps the condition, every partial run can be continued until the root
  has finished, and no run has more than five steps per server.
\<close>

theorem broadcast_finishes:
  assumes "valid_tree n root UNIFYFS_BCAST_K_ARY" and "\<forall>r \<in> {0..<n}. accept r = UNIFYFS_SUCCESS \<and> mem r"
    and "collective_create True n root root = Some children"
    and "\<forall>r w. P w \<longrightarrow> (\<exists>rc w'. exec r w = Some (rc, w') \<and> P w')" and "P w"
    and "(coll_step accept mem exec n root ^^ k) (coll_start root children w) s"
  shows "k \<le> 5 * nat n \<and> (\<exists>s'. (coll_step accept mem exec n root)\<^sup>*\<^sup>* s s' \<and> co_phase s' root = Responded)"
proof -
  have c: "children = bcast_children n root root"
    using create_children [OF assms(1), of root] assms(1,3) by (simp add: valid_tree_def)
  note reach = reaches_tree [OF assms(1,2)]
  have inv: "coll_inv (bcast_ranks n root) root (bcast_children n root) s \<and>
      steps_left (bcast_ranks n root) s + k \<le> steps_left (bcast_ranks n root) (coll_start root children w)"
    using bc.run_inv [OF bc.start_inv reach assms(6) [unfolded c]] c by simp
  have P: "P w' \<Longrightarrow> exec_log exec rs w' = Some w'' \<Longrightarrow> P w''" for rs w' w''
  proof (induction rs arbitrary: w')
    case (Cons r rs)
    obtain rc w1 where "exec r w' = Some (rc, w1)" "P w1" using assms(4) Cons.prems(1) by blast
    then show ?case using Cons.IH [of w1] Cons.prems(2) by simp
  qed simp
  have "P (co_world s)"
    using run_exec [OF relpowp_imp_rtranclp [OF assms(6)]] P assms(5) by (auto simp: coll_start_def)
  then have "\<exists>s'. (coll_step accept mem exec n root)\<^sup>*\<^sup>* s s' \<and> co_phase s' root = Responded"
    using bc.finishes [OF conjunct1 [OF inv] reach, of P] assms(4) by blast
  then show ?thesis using inv steps_bound [OF assms(1)] le_trans by fastforce
qed

theorem broadcast_finishes_witness:
  "\<exists>s. (coll_step (\<lambda>_. UNIFYFS_SUCCESS) (\<lambda>_. True) (\<lambda>r w. Some (UNIFYFS_SUCCESS, r # w)) 3 0)\<^sup>*\<^sup>* (coll_start 0 [1, 2] []) s \<and>
     co_phase s 0 = Responded"
proof -
  have v: "valid_tree 3 0 UNIFYFS_BCAST_K_ARY" by (simp add: valid_tree_def UNIFYFS_BCAST_K_ARY_def)
  have c: "collective_create True 3 0 0 = Some [1, 2]" by code_simp
  show ?thesis
    using broadcast_finishes [OF v _ c, of "\<lambda>_. UNIFYFS_SUCCESS" "\<lambda>_. True" "\<lambda>_. True" "\<lambda>r w. Some (UNIFYFS_SUCCESS, r # w)" "[]" 0
        "coll_start 0 [1, 2] []"] by auto
qed



text \<open>
  (C37) The lamination of a file without data does not reach any other server: the servers that
  the owner calls refuse the broadcast, because there are no extents to pull, and do not pass
  it on. In every run, no server executes the request, and nothing changes anywhere, although the
  operation reports success at the owner.
\<close>

theorem empty_lamination_lost:
  assumes "cluster_inv cs" and "owner_rank cs gfid = root" and "files (cs_servers cs root) gfid = Some ino"
    and "fa_is_shared (ino_attr ino) \<noteq> 0" and "ino_extents ino = Some extent_tree_init"
    and "\<forall>i j. se_alloc (env root) i j" and "se_bcast (env root) = (UNIFYFS_SUCCESS, True)"
  shows "\<exists>cs1 req. sm_laminate (env root) root gfid cs = Some (UNIFYFS_SUCCESS, cs1) \<and> last (cs_bcasts cs1) = (root, req) \<and>
    (\<forall>n children s. (bcast_step env n root req)\<^sup>*\<^sup>* (coll_start root children cs1) s \<longrightarrow>
       co_log s = [] \<and> (\<forall>r. r \<noteq> root \<longrightarrow> cs_servers (co_world s) r = cs_servers cs r))"
proof -
  let ?req = "Bcast_Laminate gfid ((ino_attr ino)\<lparr>fa_is_laminated := 1\<rparr>) []"
  have T: "length (rb_inorder (et_head extent_tree_init)) < 2 ^ 64" "rb_inorder (et_head extent_tree_init) = []"
    by (simp_all add: extent_tree_init_def)
  obtain st where "sm_laminate (env root) root gfid cs = Some (UNIFYFS_SUCCESS, (set_server cs root st)\<lparr>cs_bcasts := cs_bcasts cs @ [(root, ?req)]\<rparr>)"
    using laminate_starts [OF assms(1,3,4,5,2) T(1), of "env root"] assms(6,7) T(2) by auto
  then show ?thesis
    by (intro exI [of _ "(set_server cs root st)\<lparr>cs_bcasts := cs_bcasts cs @ [(root, ?req)]\<rparr>"] exI [of _ ?req])
      (auto dest: empty_lamination_stuck)
qed

text \<open>The file of the example without its data.\<close>

definition empty_cluster :: cluster where
  "empty_cluster = open_cluster\<lparr>cs_servers := (\<lambda>r. if r = 1 then one_file (open_inode\<lparr>ino_extents := Some extent_tree_init\<rparr>) else no_file)\<rparr>"

theorem empty_lamination_lost_witness:
  "\<exists>cs1 req. sm_laminate good_env 1 5 empty_cluster = Some (UNIFYFS_SUCCESS, cs1) \<and> last (cs_bcasts cs1) = (1, req) \<and>
     co_log (coll_start 1 [0] cs1) = [] \<and>
     (\<forall>s. (bcast_step (\<lambda>_. good_env) 2 1 req)\<^sup>*\<^sup>* (coll_start 1 [0] cs1) s \<longrightarrow> files (cs_servers (co_world s) 0) 5 = None)"
proof -
  let ?ino = "open_inode\<lparr>ino_extents := Some extent_tree_init\<rparr>"
  have "inode_ok ?ino" by (simp add: inode_ok_def open_inode_def inode_example_def) (simp add: extent_tree_init_def word_gt_0)
  then have inv: "cluster_inv empty_cluster" using one_file_ok(2,4) by (simp add: cluster_inv_def empty_cluster_def open_cluster_def)
  have o: "owner_rank empty_cluster 5 = 1" by (simp add: owner_rank_def hash_gfid_to_server_def empty_cluster_def open_cluster_def)
  have gfid: "ino_gfid ?ino = 5" by (simp add: open_inode_def inode_example_def)
  have f: "files (cs_servers empty_cluster 1) 5 = Some ?ino" "files (cs_servers empty_cluster 0) 5 = None"
    using gfid by (simp_all add: empty_cluster_def one_file_ok(1,3))
  have "fa_is_shared (ino_attr ?ino) \<noteq> 0" by (simp add: open_inode_def)
  then show ?thesis
    using empty_lamination_lost [where env = "\<lambda>_. good_env", OF inv o f(1)] f(2) by (fastforce simp: good_env_def coll_start_def)
qed

end
