(* ===== verification/Read_Service.thy ===== *)
theory Read_Service
  imports Cluster Free_Stack
begin

text \<open>
  The read path of the server: read requests in the slots of a request manager and the exchange of
  chunks between servers (\<^verbatim>\<open>server/src/unifyfs_request_manager.c\<close>), the grouping of chunks by
  server (\<^verbatim>\<open>create_remote_read_requests\<close> of \<^verbatim>\<open>server/src/unifyfs_fops_rpc.c\<close>), and the reads from the write
  logs (\<^verbatim>\<open>sm_issue_chunk_reads\<close> of \<^verbatim>\<open>server/src/unifyfs_service_manager.c\<close>).
\<close>

section \<open>Requests\<close>

datatype readreq_status = READREQ_NULL | READREQ_READY | READREQ_STARTED | READREQ_COMPLETE

text \<open>The number of bytes read, or an error.\<close>

record chunk_read_resp =
  rsp_gfid :: int
  rsp_offset :: u64
  rsp_nbytes :: u64
  rsp_read_rc :: "unifyfs_rc + nat"

text \<open>The responses come with the buffer of their data.\<close>

record server_chunk_reads =
  scr_rank :: int
  scr_rdreq_id :: int
  scr_status :: readreq_status
  scr_num_chunks :: nat
  scr_total_sz :: u64
  scr_reqs :: "chunk_read_req list"
  scr_resp :: "(chunk_read_resp list \<times> u8 list) option"

record server_read_req =
  rr_status :: readreq_status
  rr_in_use :: bool
  rr_req_ndx :: int
  rr_app_id :: int
  rr_client_id :: int
  rr_client_mread :: int
  rr_client_read_ndx :: int
  rr_chunks :: "chunk_read_req list option"
  rr_remote_reads :: "server_chunk_reads list option"
  rr_extent :: unifyfs_extent

definition zero_read_req :: server_read_req where
  "zero_read_req = \<lparr>rr_status = READREQ_NULL, rr_in_use = False, rr_req_ndx = 0, rr_app_id = 0, rr_client_id = 0, rr_client_mread = 0,
     rr_client_read_ndx = 0, rr_chunks = None, rr_remote_reads = None, rr_extent = \<lparr>xt_offset = 0, xt_length = 0, xt_gfid = 0\<rparr>\<rparr>"

section \<open>The slots of a request manager\<close>

definition UNIFYFS_SERVER_MAX_READS :: int where
  "UNIFYFS_SERVER_MAX_READS = 2048"

record reqmgr =
  rm_num_read_reqs :: int
  rm_next_rdreq_ndx :: int
  rm_read_reqs :: "server_read_req list"

definition unused :: "server_read_req \<Rightarrow> bool" where
  "unused r \<longleftrightarrow> rr_req_ndx r = 0 \<and> \<not> rr_in_use r"

text \<open>The search for an unused slot; when there is none it ends at the last slot.\<close>

fun find_slot :: "nat \<Rightarrow> server_read_req list \<Rightarrow> nat" where
  "find_slot i [] = i - 1"
| "find_slot i (r # rs) = (if unused r then i else find_slot (i + 1) rs)"

text \<open>The result is the index of the slot; a failed assertion is \<^term>\<open>None\<close>.\<close>

definition rm_reserve_read_req :: "reqmgr \<Rightarrow> (nat option \<times> reqmgr) option" where
  "rm_reserve_read_req rm =
     (if rm_num_read_reqs rm < UNIFYFS_SERVER_MAX_READS then do {
        (i, rm) \<leftarrow>
          (if rm_next_rdreq_ndx rm < UNIFYFS_SERVER_MAX_READS - 1 then
             let i = nat (rm_next_rdreq_ndx rm) in
             if \<not> i < length (rm_read_reqs rm) \<or> \<not> unused (rm_read_reqs rm ! i) then None
             else Some (i, rm\<lparr>rm_read_reqs := (rm_read_reqs rm)[i := (rm_read_reqs rm ! i)\<lparr>rr_req_ndx := int i\<rparr>],
                             rm_next_rdreq_ndx := rm_next_rdreq_ndx rm + 1\<rparr>)
           else
             let i = find_slot 0 (rm_read_reqs rm) in
             Some (i, if unused (rm_read_reqs rm ! i)
                      then rm\<lparr>rm_read_reqs := (rm_read_reqs rm)[i := (rm_read_reqs rm ! i)\<lparr>rr_req_ndx := int i\<rparr>]\<rparr> else rm));
        Some (Some i, rm\<lparr>rm_num_read_reqs := rm_num_read_reqs rm + 1,
                         rm_read_reqs := (rm_read_reqs rm)[i := (rm_read_reqs rm ! i)\<lparr>rr_in_use := True\<rparr>]\<rparr>)
      } else Some (None, rm))"

definition release_read_req :: "reqmgr \<Rightarrow> nat \<Rightarrow> reqmgr" where
  "release_read_req rm i =
     (let rm = (if rr_req_ndx (rm_read_reqs rm ! i) = rm_next_rdreq_ndx rm - 1
                then rm\<lparr>rm_next_rdreq_ndx := rm_next_rdreq_ndx rm - 1\<rparr> else rm);
          rm = rm\<lparr>rm_read_reqs := (rm_read_reqs rm)[i := zero_read_req], rm_num_read_reqs := rm_num_read_reqs rm - 1\<rparr> in
      if rm_num_read_reqs rm = 0 then rm\<lparr>rm_next_rdreq_ndx := 0\<rparr> else rm)"

text \<open>\<open>client\<close> says whether the client of the request is known.\<close>

definition rm_submit_read_request :: "bool \<Rightarrow> server_read_req \<Rightarrow> reqmgr \<Rightarrow> (unifyfs_rc \<times> reqmgr) option" where
  "rm_submit_read_request client req rm =
     (case (rr_chunks req, rr_remote_reads req) of
        (Some chunks, Some remote) \<Rightarrow>
          if \<not> client then Some (UNIFYFS_FAILURE, rm)
          else do {
            (slot, rm) \<leftarrow> rm_reserve_read_req rm;
            case slot of
              None \<Rightarrow> Some (UNIFYFS_FAILURE, rm)
            | Some i \<Rightarrow>
                let ndx = rr_req_ndx (rm_read_reqs rm ! i);
                    rdreq = (rm_read_reqs rm ! i)\<lparr>rr_app_id := rr_app_id req, rr_client_id := rr_client_id req,
                      rr_client_mread := rr_client_mread req, rr_client_read_ndx := rr_client_read_ndx req, rr_chunks := Some chunks,
                      rr_remote_reads := Some (map (\<lambda>s. s\<lparr>scr_rdreq_id := ndx\<rparr>) remote), rr_extent := rr_extent req,
                      rr_status := READREQ_READY\<rparr> in
                Some (UNIFYFS_SUCCESS, rm\<lparr>rm_read_reqs := (rm_read_reqs rm)[i := rdreq]\<rparr>)
          }
      | _ \<Rightarrow> Some (EINVAL, rm))"

section \<open>Grouping chunks by server\<close>

fun count_servers :: "int \<Rightarrow> chunk_read_req list \<Rightarrow> nat" where
  "count_servers prev_rank [] = 0"
| "count_servers prev_rank (c # cs) = (if crr_rank c \<noteq> prev_rank then 1 else 0) + count_servers (crr_rank c) cs"

text \<open>One server per round: the chunks up to the next one of another server; without chunks there is nothing to read.\<close>

fun server_groups :: "nat \<Rightarrow> chunk_read_req list \<Rightarrow> server_chunk_reads list option" where
  "server_groups 0 cs = Some []"
| "server_groups (Suc n) [] = None"
| "server_groups (Suc n) (c # cs) =
     (let same = takeWhile (\<lambda>x. crr_rank x = crr_rank c) (c # cs) in do {
        rest \<leftarrow> server_groups n (dropWhile (\<lambda>x. crr_rank x = crr_rank c) (c # cs));
        Some (\<lparr>scr_rank = crr_rank c, scr_rdreq_id = 0, scr_status = READREQ_NULL, scr_num_chunks = length same,
               scr_total_sz = sum_list (map crr_nbytes same), scr_reqs = same, scr_resp = None\<rparr> # rest)
      })"

definition create_remote_read_requests :: "bool \<Rightarrow> chunk_read_req list \<Rightarrow> (unifyfs_rc \<times> server_chunk_reads list) option" where
  "create_remote_read_requests ok chunks =
     (if \<not> ok then Some (ENOMEM, [])
      else do { reads \<leftarrow> server_groups (count_servers (- 1) chunks) chunks; Some (UNIFYFS_SUCCESS, reads) })"

section \<open>Reading chunks from the logs\<close>

text \<open>
  The loop of \<^verbatim>\<open>sm_issue_chunk_reads\<close>; \<open>io i\<close> is the outcome of the \<^verbatim>\<open>pread\<close> of the \<open>i\<close>-th chunk.
  Storing bytes behind the end of the buffer is \<^term>\<open>None\<close>.
\<close>

definition read_chunk :: "io_outcome \<Rightarrow> app_clients \<Rightarrow> chunk_read_req \<Rightarrow> ((unifyfs_rc + nat) \<times> u8 list) option" where
  "read_chunk io clients rreq =
     (case clients (crr_log_app_id rreq, crr_log_client_id rreq) of
        Some (Some logio_ctx) \<Rightarrow> do {
          (rc, bytes) \<leftarrow> unifyfs_logio_read io logio_ctx (crr_log_offset rreq) (crr_nbytes rreq);
          Some (if rc = UNIFYFS_SUCCESS then Inr (length bytes) else Inl rc, bytes)
        }
      | _ \<Rightarrow> Some (Inl EINVAL, []))"

fun chunk_reads_loop ::
  "(nat \<Rightarrow> io_outcome) \<Rightarrow> app_clients \<Rightarrow> nat \<Rightarrow> chunk_read_req list \<Rightarrow> nat \<Rightarrow> u8 list \<Rightarrow> (chunk_read_resp list \<times> u8 list) option" where
  "chunk_reads_loop io clients i [] cursor databuf = Some ([], databuf)"
| "chunk_reads_loop io clients i (rreq # reqs) cursor databuf = do {
     (read_rc, bytes) \<leftarrow> read_chunk (io i) clients rreq;
     if bytes \<noteq> [] \<and> length databuf < cursor + length bytes then None
     else do {
       (resps, databuf) \<leftarrow> chunk_reads_loop io clients (i + 1) reqs (cursor + unat (crr_nbytes rreq))
         (take cursor databuf @ bytes @ drop (cursor + length bytes) databuf);
       Some (\<lparr>rsp_gfid = crr_gfid rreq, rsp_offset = crr_offset rreq, rsp_nbytes = crr_nbytes rreq, rsp_read_rc = read_rc\<rparr> # resps, databuf)
     }
   }"

section \<open>Sending data to the client\<close>

text \<open>
  The calls at the client: the data of a piece of a read request, and its completion. \<open>rpc\<close> gives
  their results.
\<close>

datatype client_msg = Mread_Data int int nat "u8 list" | Mread_Complete int int unifyfs_rc

definition UNIFYFS_SERVER_MAX_DATA_TX_SIZE :: nat where
  "UNIFYFS_SERVER_MAX_DATA_TX_SIZE = 4194304"

function send_pieces :: "(client_msg \<Rightarrow> unifyfs_rc) \<Rightarrow> int \<Rightarrow> int \<Rightarrow> nat \<Rightarrow> u8 list \<Rightarrow> unifyfs_rc \<times> client_msg list" where
  "send_pieces rpc mread ndx offset buf =
     (if buf = [] then (UNIFYFS_SUCCESS, [])
      else
        let send_sz = min (length buf) UNIFYFS_SERVER_MAX_DATA_TX_SIZE;
            msg = Mread_Data mread ndx offset (take send_sz buf);
            (ret, msgs) = send_pieces rpc mread ndx (offset + send_sz) (drop send_sz buf) in
        (if ret \<noteq> UNIFYFS_SUCCESS then ret else rpc msg, msg # msgs))"
  by pat_completeness auto
termination by (relation "measure (\<lambda>(rpc, mread, ndx, offset, buf). length buf)") (auto simp: UNIFYFS_SERVER_MAX_DATA_TX_SIZE_def)

declare send_pieces.simps [simp del]

text \<open>The result of \<^verbatim>\<open>send_data_to_client\<close> is the return code, the calls, and the number of bytes processed.\<close>

definition send_data_to_client ::
  "(client_msg \<Rightarrow> unifyfs_rc) \<Rightarrow> server_read_req \<Rightarrow> chunk_read_resp \<Rightarrow> u8 list \<Rightarrow> (unifyfs_rc \<times> client_msg list \<times> nat) option" where
  "send_data_to_client rpc rdreq resp data =
     (let mread = rr_client_mread rdreq; ndx = rr_client_read_ndx rdreq in
      case rsp_read_rc resp of
        Inl errcode \<Rightarrow> let msg = Mread_Complete mread ndx errcode in Some (rpc msg, [msg], 0)
      | Inr data_size \<Rightarrow>
          if rsp_offset resp < xt_offset (rr_extent rdreq) then None
          else if length data < data_size then None
          else
            let (ret, msgs) = send_pieces rpc mread ndx (unat (rsp_offset resp - xt_offset (rr_extent rdreq))) (take data_size data) in
            Some (ret, msgs, data_size))"

fun responses_loop ::
  "(client_msg \<Rightarrow> unifyfs_rc) \<Rightarrow> server_read_req \<Rightarrow> chunk_read_resp list \<Rightarrow> u8 list \<Rightarrow> unifyfs_rc \<Rightarrow> (unifyfs_rc \<times> client_msg list) option" where
  "responses_loop rpc rdreq [] data_buf ret = Some (ret, [])"
| "responses_loop rpc rdreq (resp # resps) data_buf ret = do {
     (rc, msgs, processed) \<leftarrow> send_data_to_client rpc rdreq resp data_buf;
     (ret, rest) \<leftarrow> responses_loop rpc rdreq resps (drop processed data_buf) (if rc \<noteq> UNIFYFS_SUCCESS then rc else ret);
     Some (ret, msgs @ rest)
   }"

section \<open>Exchanging chunks between servers\<close>


record read_env =
  re_client :: bool
  re_alloc :: "int \<Rightarrow> bool"
  re_io :: "int \<Rightarrow> nat \<Rightarrow> io_outcome"
  re_rpc :: "int \<Rightarrow> rpc_outcome"
  re_resp :: "int \<Rightarrow> rpc_outcome"
  re_msg :: "client_msg \<Rightarrow> unifyfs_rc"


text \<open>The size of a response header (\<^verbatim>\<open>sizeof(chunk_read_resp_t)\<close>) is 32 bytes.\<close>

definition resp_buf_sz :: "chunk_read_resp list \<times> u8 list \<Rightarrow> u64" where
  "resp_buf_sz buf = of_nat (32 * length (fst buf) + length (snd buf))"











section \<open>Handling responses\<close>

text \<open>
  \<^verbatim>\<open>rm_handle_chunk_read_responses\<close> for the \<open>j\<close>-th server of a request; the result is the return code, the
  calls at the client, and the request.
\<close>

definition rm_handle_chunk_read_responses ::
  "(client_msg \<Rightarrow> unifyfs_rc) \<Rightarrow> server_read_req \<Rightarrow> nat \<Rightarrow> (unifyfs_rc \<times> client_msg list \<times> server_read_req) option" where
  "rm_handle_chunk_read_responses rpc rdreq j =
     (case rr_remote_reads rdreq of
        None \<Rightarrow> None
      | Some reads \<Rightarrow> (case scr_resp (reads ! j) of
          None \<Rightarrow> None
        | Some (responses, data_buf) \<Rightarrow>
            if scr_status (reads ! j) \<noteq> READREQ_STARTED then Some (EINVAL, [], rdreq)
            else if scr_total_sz (reads ! j) = 0 then Some (EINVAL, [], rdreq)
            else do {
              (ret, msgs) \<leftarrow> responses_loop rpc rdreq responses data_buf UNIFYFS_SUCCESS;
              let reads = reads[j := (reads ! j)\<lparr>scr_resp := None, scr_status := READREQ_COMPLETE\<rparr>];
              let rdreq = rdreq\<lparr>rr_remote_reads := Some reads\<rparr>;
              if list_all (\<lambda>s. scr_status s = READREQ_COMPLETE) reads then
                let msg = Mread_Complete (rr_client_mread rdreq) (rr_client_read_ndx rdreq) ret; rc = rpc msg in
                Some (if rc \<noteq> UNIFYFS_SUCCESS then rc else ret, msgs @ [msg], rdreq\<lparr>rr_status := READREQ_COMPLETE\<rparr>)
              else Some (ret, msgs, rdreq)
            }))"




section \<open>Submitting the reads of a client\<close>

text \<open>
  \<^verbatim>\<open>submit_read_request\<close> of a client of \<open>me\<close>: the chunks of each extent are looked up and submitted; an extent
  without data is reported to the client. \<open>ok\<close> is the allocation of the requests by server.
\<close>

fun submit_extents ::
  "svc_env \<Rightarrow> read_env \<Rightarrow> (nat \<Rightarrow> bool) \<Rightarrow> cluster \<Rightarrow> int \<Rightarrow> int \<Rightarrow> int \<Rightarrow> int \<Rightarrow> nat \<Rightarrow> unifyfs_extent list \<Rightarrow>
   unifyfs_rc \<times> client_msg list \<times> reqmgr \<Rightarrow> (unifyfs_rc \<times> client_msg list \<times> reqmgr) option" where
  "submit_extents env renv ok cs me app_id client_id mread extent_ndx [] s = Some s"
| "submit_extents env renv ok cs me app_id client_id mread extent_ndx (ext # exts) (ret, msgs, rm) = do {
     (rc, n_chunks, chunks) \<leftarrow> unifyfs_invoke_find_extents_rpc env me (xt_gfid ext) [ext] cs;
     if rc \<noteq> UNIFYFS_SUCCESS then Some (rc, msgs, rm)
     else if n_chunks > 0 then (case chunks of
         None \<Rightarrow> None
       | Some chunks \<Rightarrow> do {
           (rc, remote_reads) \<leftarrow> create_remote_read_requests (ok extent_ndx) chunks;
           if rc \<noteq> UNIFYFS_SUCCESS then Some (rc, msgs, rm)
           else do {
             (ret, rm) \<leftarrow> rm_submit_read_request (re_client renv) (zero_read_req\<lparr>rr_app_id := app_id, rr_client_id := client_id,
               rr_client_mread := mread, rr_client_read_ndx := int extent_ndx, rr_chunks := Some chunks, rr_remote_reads := Some remote_reads,
               rr_extent := ext\<rparr>) rm;
             submit_extents env renv ok cs me app_id client_id mread (extent_ndx + 1) exts (ret, msgs, rm)
           }
         })
     else submit_extents env renv ok cs me app_id client_id mread (extent_ndx + 1) exts
       (ret, msgs @ [Mread_Complete mread (int extent_ndx) ENODATA], rm)
   }"

definition submit_read_request ::
  "svc_env \<Rightarrow> read_env \<Rightarrow> (nat \<Rightarrow> bool) \<Rightarrow> cluster \<Rightarrow> int \<Rightarrow> int \<Rightarrow> int \<Rightarrow> int \<Rightarrow> unifyfs_extent list \<Rightarrow> reqmgr \<Rightarrow>
   (unifyfs_rc \<times> client_msg list \<times> reqmgr) option" where
  "submit_read_request env renv ok cs me app_id client_id mread extents rm =
     (if extents = [] then Some (EINVAL, [], rm)
      else if \<not> re_client renv then Some (UNIFYFS_FAILURE, [], rm)
      else submit_extents env renv ok cs me app_id client_id mread 0 extents (UNIFYFS_SUCCESS, [], rm))"

section \<open>The slots are a pool of indices\<close>

definition busy_slots :: "reqmgr \<Rightarrow> nat set" where
  "busy_slots rm = {i. i < length (rm_read_reqs rm) \<and> rr_in_use (rm_read_reqs rm ! i)}"

text \<open>
  The slots in use know their index and are below the next index, or the last slot, which only the search hands out.
\<close>

definition slots_ok :: "reqmgr \<Rightarrow> bool" where
  "slots_ok rm \<longleftrightarrow> length (rm_read_reqs rm) = nat UNIFYFS_SERVER_MAX_READS \<and> rm_num_read_reqs rm = int (card (busy_slots rm)) \<and>
     0 \<le> rm_next_rdreq_ndx rm \<and> rm_next_rdreq_ndx rm \<le> UNIFYFS_SERVER_MAX_READS - 1 \<and>
     (\<forall>i < length (rm_read_reqs rm). let r = rm_read_reqs rm ! i in
        if rr_in_use r then rr_req_ndx r = int i \<and> (int i < rm_next_rdreq_ndx rm \<or> int i = UNIFYFS_SERVER_MAX_READS - 1)
        else rr_req_ndx r = 0)"

lemma slots_okD:
  assumes "slots_ok rm"
  shows "length (rm_read_reqs rm) = nat UNIFYFS_SERVER_MAX_READS" "rm_num_read_reqs rm = int (card (busy_slots rm))"
    "0 \<le> rm_next_rdreq_ndx rm" "rm_next_rdreq_ndx rm \<le> UNIFYFS_SERVER_MAX_READS - 1"
    "i \<in> busy_slots rm \<Longrightarrow> rr_req_ndx (rm_read_reqs rm ! i) = int i \<and> (int i < rm_next_rdreq_ndx rm \<or> int i = UNIFYFS_SERVER_MAX_READS - 1)"
    "i < length (rm_read_reqs rm) \<Longrightarrow> i \<notin> busy_slots rm \<Longrightarrow> unused (rm_read_reqs rm ! i)"
  using assms by (auto simp: slots_ok_def Let_def busy_slots_def unused_def)

lemma busy_slots_finite [simp]: "finite (busy_slots rm)"
  by (simp add: busy_slots_def)

lemma busy_slots_update [simp]:
  "busy_slots (rm\<lparr>rm_num_read_reqs := n\<rparr>) = busy_slots rm" "busy_slots (rm\<lparr>rm_next_rdreq_ndx := k\<rparr>) = busy_slots rm"
  "i < length (rm_read_reqs rm) \<Longrightarrow> busy_slots (rm\<lparr>rm_read_reqs := (rm_read_reqs rm)[i := r]\<rparr>) =
     (if rr_in_use r then insert i (busy_slots rm) else busy_slots rm - {i})"
  by (auto simp: busy_slots_def nth_list_update)

lemma find_slot_unused:
  assumes "\<exists>r \<in> set rs. unused r"
  shows "\<exists>i < length rs. find_slot k rs = k + i \<and> unused (rs ! i)"
  using assms
proof (induction rs arbitrary: k)
  case (Cons r rs)
  show ?case
  proof (cases "unused r")
    case True
    then show ?thesis by (intro exI [of _ 0]) simp
  next
    case False
    then have "\<exists>r \<in> set rs. unused r" using Cons.prems by auto
    from Cons.IH [OF this, of "k + 1"] obtain i where "i < length rs" "find_slot (k + 1) rs = k + 1 + i" "unused (rs ! i)" by blast
    then show ?thesis using False by (intro exI [of _ "Suc i"]) simp
  qed
qed simp

lemma free_slot_exists:
  assumes "slots_ok rm" "rm_num_read_reqs rm < UNIFYFS_SERVER_MAX_READS"
  shows "\<exists>r \<in> set (rm_read_reqs rm). unused r"
proof -
  have "card (busy_slots rm) < card {0..<length (rm_read_reqs rm)}" using slots_okD(1,2) [OF assms(1)] assms(2) by simp
  moreover have "busy_slots rm \<subseteq> {0..<length (rm_read_reqs rm)}" by (auto simp: busy_slots_def)
  ultimately obtain i where "i < length (rm_read_reqs rm)" "i \<notin> busy_slots rm"
    by (metis atLeastLessThan_iff finite_atLeastLessThan less_irrefl subset_antisym subsetI zero_le)
  then show ?thesis using slots_okD(6) [OF assms(1)] nth_mem by blast
qed

lemma slots_ok_take:
  assumes "slots_ok rm" "i < length (rm_read_reqs rm)" "i \<notin> busy_slots rm" "rm_next_rdreq_ndx rm \<le> rm_next_rdreq_ndx rm'"
    "rm_next_rdreq_ndx rm' \<le> UNIFYFS_SERVER_MAX_READS - 1" "int i < rm_next_rdreq_ndx rm' \<or> int i = UNIFYFS_SERVER_MAX_READS - 1"
    "rm_num_read_reqs rm' = rm_num_read_reqs rm + 1"
    "rm_read_reqs rm' = (rm_read_reqs rm)[i := (rm_read_reqs rm ! i)\<lparr>rr_req_ndx := int i, rr_in_use := True\<rparr>]"
  shows "slots_ok rm'"
proof -
  have "busy_slots rm' = insert i (busy_slots rm)"
    using assms(2,8) by (auto simp: busy_slots_def nth_list_update)
  then show ?thesis
    using assms by (auto simp: slots_ok_def Let_def nth_list_update)
qed

lemma reserve_spec:
  assumes ok: "slots_ok rm" and n: "rm_num_read_reqs rm < UNIFYFS_SERVER_MAX_READS"
  shows "\<exists>i rm'. rm_reserve_read_req rm = Some (Some i, rm') \<and> i < length (rm_read_reqs rm) \<and> i \<notin> busy_slots rm \<and> slots_ok rm' \<and>
    rm_read_reqs rm' = (rm_read_reqs rm)[i := (rm_read_reqs rm ! i)\<lparr>rr_req_ndx := int i, rr_in_use := True\<rparr>] \<and>
    (rm_next_rdreq_ndx rm < UNIFYFS_SERVER_MAX_READS - 1 \<longrightarrow> i = nat (rm_next_rdreq_ndx rm))"
proof (cases "rm_next_rdreq_ndx rm < UNIFYFS_SERVER_MAX_READS - 1")
  case True
  let ?i = "nat (rm_next_rdreq_ndx rm)"
  have i: "?i < length (rm_read_reqs rm)" using slots_okD(1,3) [OF ok] True by simp
  moreover have nu: "?i \<notin> busy_slots rm" using slots_okD(5) [OF ok, of ?i] slots_okD(3) [OF ok] True by auto
  ultimately have u: "unused (rm_read_reqs rm ! ?i)" using slots_okD(6) [OF ok] by blast
  show ?thesis
    using u i nu True n slots_okD(3) [OF ok] by (auto simp: rm_reserve_read_req_def Let_def intro: slots_ok_take [OF ok i nu])
next
  case False
  obtain i where i: "i < length (rm_read_reqs rm)" "find_slot 0 (rm_read_reqs rm) = i" "unused (rm_read_reqs rm ! i)"
    using find_slot_unused [OF free_slot_exists [OF assms], of 0] by auto
  then have nu: "i \<notin> busy_slots rm" by (simp add: busy_slots_def unused_def)
  have "int i < rm_next_rdreq_ndx rm \<or> int i = UNIFYFS_SERVER_MAX_READS - 1" using i(1) False slots_okD(1) [OF ok] by auto
  then show ?thesis
    using i nu False n slots_okD(4) [OF ok] by (auto simp: rm_reserve_read_req_def Let_def intro: slots_ok_take [OF ok i(1) nu])
qed

lemma release_read_spec:
  assumes ok: "slots_ok rm" and i: "i \<in> busy_slots rm"
  shows "slots_ok (release_read_req rm i)" "busy_slots (release_read_req rm i) = busy_slots rm - {i}"
    "rm_read_reqs (release_read_req rm i) = (rm_read_reqs rm)[i := zero_read_req]"
proof -
  have l: "i < length (rm_read_reqs rm)" using i by (simp add: busy_slots_def)
  show u: "busy_slots (release_read_req rm i) = busy_slots rm - {i}"
    "rm_read_reqs (release_read_req rm i) = (rm_read_reqs rm)[i := zero_read_req]"
    using l by (auto simp: release_read_req_def Let_def busy_slots_def nth_list_update zero_read_req_def split: if_splits)
  have c: "int (card (busy_slots rm - {i})) = rm_num_read_reqs rm - 1"
    using i slots_okD(2) [OF ok] card_gt_0_iff [of "busy_slots rm"] by (auto simp: card_Diff_singleton)
  then have e: "rm_num_read_reqs rm = 1 \<Longrightarrow> busy_slots rm = {i}" using i
    by (metis Diff_insert_absorb Diff_eq_empty_iff busy_slots_finite card_eq_0_iff diff_self finite_Diff insert_Diff of_nat_eq_0_iff)
  have b: "int i < rm_next_rdreq_ndx rm \<or> int i = UNIFYFS_SERVER_MAX_READS - 1" "rr_req_ndx (rm_read_reqs rm ! i) = int i"
    using slots_okD(5) [OF ok i] by auto
  have r: "rr_in_use (rm_read_reqs rm ! j) \<Longrightarrow> j < length (rm_read_reqs rm) \<Longrightarrow> rr_req_ndx (rm_read_reqs rm ! j) = int j"
      "rr_in_use (rm_read_reqs rm ! j) \<Longrightarrow> j < length (rm_read_reqs rm) \<Longrightarrow> int j < rm_next_rdreq_ndx rm \<or> j = 2047"
      "\<not> rr_in_use (rm_read_reqs rm ! j) \<Longrightarrow> j < length (rm_read_reqs rm) \<Longrightarrow> rr_req_ndx (rm_read_reqs rm ! j) = 0" for j
    using ok by (auto simp: slots_ok_def Let_def UNIFYFS_SERVER_MAX_READS_def split: if_splits)
  have z: "rm_num_read_reqs rm = 1 \<Longrightarrow> j < length (rm_read_reqs rm) \<Longrightarrow> j \<noteq> i \<Longrightarrow> \<not> rr_in_use (rm_read_reqs rm ! j)" for j
    using e by (auto simp: busy_slots_def)
  show "slots_ok (release_read_req rm i)"
    unfolding slots_ok_def u c using slots_okD(1,3,4) [OF ok] b z l
    by (auto simp: release_read_req_def Let_def nth_list_update zero_read_req_def UNIFYFS_SERVER_MAX_READS_def r(1,3) dest: r(2))
qed

text \<open>The indices that are not in use, and the operations on indices; a full request manager gives \<open>- 1\<close>.\<close>

definition free_slots :: "reqmgr \<Rightarrow> int set" where
  "free_slots rm = {0..<UNIFYFS_SERVER_MAX_READS} - int ` busy_slots rm"

definition reserve_index :: "reqmgr \<Rightarrow> (int \<times> reqmgr) option" where
  "reserve_index rm = map_option (map_prod (\<lambda>slot. case slot of None \<Rightarrow> - 1 | Some i \<Rightarrow> int i) id) (rm_reserve_read_req rm)"

definition release_index :: "reqmgr \<Rightarrow> int \<Rightarrow> reqmgr option" where
  "release_index rm i = Some (release_read_req rm (nat i))"

lemma busy_range: "slots_ok rm \<Longrightarrow> int ` busy_slots rm \<subseteq> {0..<UNIFYFS_SERVER_MAX_READS}"
  by (auto simp: busy_slots_def slots_ok_def UNIFYFS_SERVER_MAX_READS_def)

lemma free_slots_empty:
  assumes "slots_ok rm"
  shows "free_slots rm = {} \<longleftrightarrow> \<not> rm_num_read_reqs rm < UNIFYFS_SERVER_MAX_READS"
proof -
  have c: "rm_num_read_reqs rm = int (card (int ` busy_slots rm))" using slots_okD(2) [OF assms] by (simp add: card_image)
  have "card (int ` busy_slots rm) \<le> 2048"
    using card_mono [OF _ busy_range [OF assms]] by (simp add: UNIFYFS_SERVER_MAX_READS_def)
  moreover have "free_slots rm = {} \<longleftrightarrow> int ` busy_slots rm = {0..<2048}"
    using busy_range [OF assms] by (auto simp: free_slots_def UNIFYFS_SERVER_MAX_READS_def)
  moreover have "int ` busy_slots rm = {0..<2048} \<longleftrightarrow> card (int ` busy_slots rm) = 2048"
    using card_subset_eq [OF _ busy_range [OF assms]] by (auto simp: UNIFYFS_SERVER_MAX_READS_def)
  ultimately show ?thesis unfolding c by (auto simp: UNIFYFS_SERVER_MAX_READS_def)
qed

interpretation read_slots: id_pool slots_ok "\<lambda>rm. {0..<UNIFYFS_SERVER_MAX_READS}" free_slots reserve_index release_index
proof
  fix rm :: reqmgr and i :: int
  assume ok: "slots_ok rm"
  show "reserve_index rm = Some (- 1, rm)" if "free_slots rm = {}"
    using that free_slots_empty [OF ok] by (simp add: reserve_index_def rm_reserve_read_req_def)
  show "\<exists>i rm'. reserve_index rm = Some (i, rm') \<and> i \<in> free_slots rm \<and> slots_ok rm' \<and>
      {0..<UNIFYFS_SERVER_MAX_READS} = {0..<UNIFYFS_SERVER_MAX_READS} \<and> free_slots rm' = free_slots rm - {i}" if ne: "free_slots rm \<noteq> {}"
  proof -
    obtain i rm' where r: "rm_reserve_read_req rm = Some (Some i, rm')" "i < length (rm_read_reqs rm)" "i \<notin> busy_slots rm" "slots_ok rm'"
      "rm_read_reqs rm' = (rm_read_reqs rm)[i := (rm_read_reqs rm ! i)\<lparr>rr_req_ndx := int i, rr_in_use := True\<rparr>]"
      using reserve_spec [OF ok] ne free_slots_empty [OF ok] by blast
    have "busy_slots rm' = insert i (busy_slots rm)" using r(2,5) by (auto simp: busy_slots_def nth_list_update)
    then have "free_slots rm' = free_slots rm - {int i}" by (auto simp: free_slots_def)
    moreover have "int i \<in> free_slots rm" using r(2,3) slots_okD(1) [OF ok] by (auto simp: free_slots_def UNIFYFS_SERVER_MAX_READS_def)
    ultimately show ?thesis using r(1,4) by (auto simp: reserve_index_def)
  qed
  show "\<exists>rm'. release_index rm i = Some rm' \<and> slots_ok rm' \<and>
      {0..<UNIFYFS_SERVER_MAX_READS} = {0..<UNIFYFS_SERVER_MAX_READS} \<and> free_slots rm' = insert i (free_slots rm)"
    if i: "i \<in> {0..<UNIFYFS_SERVER_MAX_READS}" "i \<notin> free_slots rm"
  proof -
    have b: "nat i \<in> busy_slots rm" "int (nat i) = i" using i by (auto simp: free_slots_def)
    have "free_slots (release_read_req rm (nat i)) = insert i (free_slots rm)"
    proof -
      have "int ` (busy_slots rm - {nat i}) = int ` busy_slots rm - {i}" using b(2) by (auto simp: image_iff)
      then show ?thesis unfolding free_slots_def release_read_spec(2) [OF ok b(1)] using i(1) by auto
    qed
    then show ?thesis using release_read_spec(1) [OF ok b(1)] by (simp add: release_index_def)
  qed
qed (auto simp: free_slots_def)

text \<open>A new request manager.\<close>

definition reqmgr_init :: reqmgr where
  "reqmgr_init = \<lparr>rm_num_read_reqs = 0, rm_next_rdreq_ndx = 0, rm_read_reqs = replicate (nat UNIFYFS_SERVER_MAX_READS) zero_read_req\<rparr>"

lemma reqmgr_init_ok: "slots_ok reqmgr_init" "busy_slots reqmgr_init = {}" "free_slots reqmgr_init = {0..<UNIFYFS_SERVER_MAX_READS}"
proof -
  show b: "busy_slots reqmgr_init = {}" by (auto simp: busy_slots_def reqmgr_init_def zero_read_req_def)
  then show "slots_ok reqmgr_init" unfolding slots_ok_def b
    by (auto simp: reqmgr_init_def zero_read_req_def UNIFYFS_SERVER_MAX_READS_def)
  show "free_slots reqmgr_init = {0..<UNIFYFS_SERVER_MAX_READS}" using b by (simp add: free_slots_def)
qed

section \<open>Reading full chunks\<close>

text \<open>The log of a chunk is known at its server and has all bytes of the chunk.\<close>

definition readable :: "cluster \<Rightarrow> chunk_read_req \<Rightarrow> bool" where
  "readable cs c \<longleftrightarrow> (\<exists>ctx. sv_clients (cs_servers cs (crr_rank c)) (crr_log_app_id c, crr_log_client_id c) = Some (Some ctx) \<and>
     data_ok ctx \<and> unat (crr_log_offset c) + unat (crr_nbytes c) \<le> log_size ctx)"

definition chunk_bytes :: "cluster \<Rightarrow> chunk_read_req \<Rightarrow> u8 list" where
  "chunk_bytes cs c = (case sv_clients (cs_servers cs (crr_rank c)) (crr_log_app_id c, crr_log_client_id c) of
     Some (Some ctx) \<Rightarrow> map (log_byte ctx) [unat (crr_log_offset c)..<unat (crr_log_offset c) + unat (crr_nbytes c)] | _ \<Rightarrow> [])"

definition full_resp :: "chunk_read_req \<Rightarrow> chunk_read_resp" where
  "full_resp c = \<lparr>rsp_gfid = crr_gfid c, rsp_offset = crr_offset c, rsp_nbytes = crr_nbytes c, rsp_read_rc = Inr (unat (crr_nbytes c))\<rparr>"

text \<open>The reads at a server transfer as many bytes as requested.\<close>

definition full_io :: "(nat \<Rightarrow> io_outcome) \<Rightarrow> bool" where
  "full_io io \<longleftrightarrow> (\<forall>k. \<exists>m. io k = Inr m \<and> 2 ^ 64 \<le> m)"


lemma chunk_bytes_length: "readable cs c \<Longrightarrow> length (chunk_bytes cs c) = unat (crr_nbytes c)"
  by (auto simp: readable_def chunk_bytes_def)


lemma read_chunk_full:
  assumes "readable cs c" "full_io io"
  shows "read_chunk (io k) (sv_clients (cs_servers cs (crr_rank c))) c = Some (Inr (unat (crr_nbytes c)), chunk_bytes cs c)"
proof -
  obtain ctx where ctx: "sv_clients (cs_servers cs (crr_rank c)) (crr_log_app_id c, crr_log_client_id c) = Some (Some ctx)"
     "data_ok ctx" "unat (crr_log_offset c) + unat (crr_nbytes c) \<le> log_size ctx"
    using assms(1) by (auto simp: readable_def)
  obtain m where m: "io k = Inr m" "2 ^ 64 \<le> m" using assms(2) by (auto simp: full_io_def)
  have "unat (crr_nbytes c) < 2 ^ 64" by (rule order_less_le_trans [OF unsigned_less]) simp
  then have "unat (crr_nbytes c) \<le> m" using m(2) by simp
  from logio_read_spec [OF ctx(2,3) this] show ?thesis using ctx(1) m(1) by (simp add: read_chunk_def chunk_bytes_def)
qed



section \<open>Messages with the bytes of chunks\<close>




section \<open>Chunks by server\<close>






section \<open>Exchanging full chunks\<close>

definition resp_of :: "cluster \<Rightarrow> server_chunk_reads \<Rightarrow> chunk_read_resp list \<times> u8 list" where
  "resp_of cs g = (map full_resp (scr_reqs g), concat (map (chunk_bytes cs) (scr_reqs g)))"

definition started :: "server_chunk_reads \<Rightarrow> server_chunk_reads" where
  "started g = g\<lparr>scr_status := READREQ_STARTED\<rparr>"

definition posted :: "cluster \<Rightarrow> server_chunk_reads \<Rightarrow> server_chunk_reads" where
  "posted cs g = (started g)\<lparr>scr_resp := Some (resp_of cs g), scr_num_chunks := length (scr_reqs g), scr_total_sz := resp_buf_sz (resp_of cs g)\<rparr>"

definition completed :: "cluster \<Rightarrow> server_chunk_reads \<Rightarrow> server_chunk_reads" where
  "completed cs g = (posted cs g)\<lparr>scr_resp := None, scr_status := READREQ_COMPLETE\<rparr>"

lemma group_state_simps [simp]:
  "scr_rank (started g) = scr_rank g" "scr_reqs (started g) = scr_reqs g" "scr_total_sz (started g) = scr_total_sz g"
  "scr_rank (posted cs g) = scr_rank g" "scr_status (posted cs g) = READREQ_STARTED" "scr_resp (posted cs g) = Some (resp_of cs g)"
  "scr_total_sz (posted cs g) = resp_buf_sz (resp_of cs g)" "scr_status (completed cs g) = READREQ_COMPLETE"
  "scr_resp (completed cs g) = None"
  by (simp_all add: started_def posted_def completed_def)

text \<open>Replacing the requests by server of the request in slot \<open>i\<close>.\<close>

definition set_reads :: "nat \<Rightarrow> server_chunk_reads list \<Rightarrow> reqmgr \<Rightarrow> reqmgr" where
  "set_reads i reads rm = rm\<lparr>rm_read_reqs := (rm_read_reqs rm)[i := (rm_read_reqs rm ! i)\<lparr>rr_remote_reads := Some reads\<rparr>]\<rparr>"

lemma set_reads_simps [simp]:
  "length (rm_read_reqs (set_reads i reads rm)) = length (rm_read_reqs rm)"
  "i < length (rm_read_reqs rm) \<Longrightarrow> rm_read_reqs (set_reads i reads rm) ! i = (rm_read_reqs rm ! i)\<lparr>rr_remote_reads := Some reads\<rparr>"
  "j \<noteq> i \<Longrightarrow> rm_read_reqs (set_reads i reads rm) ! j = rm_read_reqs rm ! j"
  "i < length (rm_read_reqs rm) \<Longrightarrow> set_reads i reads' (set_reads i reads rm) = set_reads i reads' rm"
  by (simp_all add: set_reads_def)





text \<open>
  The outcomes of an exchange without failures. The chunks of a request by server are readable, and their size is
  far from the limit of 64-bit sizes.
\<close>

definition good_reads :: "read_env \<Rightarrow> bool" where
  "good_reads env \<longleftrightarrow> re_client env \<and> (\<forall>r. re_alloc env r \<and> full_io (re_io env r) \<and> re_rpc env r = Rpc_Answered \<and> re_resp env r = Rpc_Answered) \<and>
     (\<forall>m. re_msg env m = UNIFYFS_SUCCESS)"














section \<open>Handling full responses\<close>



section \<open>One request in the slots\<close>










section \<open>The bytes that the client receives\<close>









section \<open>Properties\<close>





text \<open>
  (C26) However read requests are reserved and released, the slots in use are pairwise different, none of them is also
  free, and together with the free ones they are all slots of the request manager; the assertion that the next
  slot is unused never fails, and only a full request manager refuses a request.
\<close>

theorem read_slots_unique:
  assumes "id_reach reserve_index release_index reqmgr_init rm held"
  shows "slots_ok rm \<and> distinct held \<and> set held \<inter> free_slots rm = {} \<and> set held \<union> free_slots rm = {0..<UNIFYFS_SERVER_MAX_READS} \<and>
    (\<exists>slot rm'. rm_reserve_read_req rm = Some (slot, rm') \<and> (slot = None \<longleftrightarrow> length held = nat UNIFYFS_SERVER_MAX_READS))"
proof -
  have h: "slots_ok rm" "distinct held" "set held \<inter> free_slots rm = {}" "set held \<union> free_slots rm = {0..<UNIFYFS_SERVER_MAX_READS}"
    using read_slots.held_distinct [OF assms reqmgr_init_ok(1,3)] by auto
  then have "set held = int ` busy_slots rm" using busy_range [OF h(1)] by (auto simp: free_slots_def)
  then have "int (length held) = rm_num_read_reqs rm"
    using distinct_card [OF h(2)] slots_okD(2) [OF h(1)] by (simp add: card_image)
  moreover have "rm_num_read_reqs rm \<le> UNIFYFS_SERVER_MAX_READS"
    using free_slots_empty [OF h(1)] h(2-4) calculation distinct_card [OF h(2)] card_mono [of "{0..<UNIFYFS_SERVER_MAX_READS}" "set held"]
    by (auto simp: UNIFYFS_SERVER_MAX_READS_def)
  ultimately have "\<exists>slot rm'. rm_reserve_read_req rm = Some (slot, rm') \<and> (slot = None \<longleftrightarrow> length held = nat UNIFYFS_SERVER_MAX_READS)"
    using reserve_spec [OF h(1)] by (cases "rm_num_read_reqs rm < UNIFYFS_SERVER_MAX_READS") (auto simp: rm_reserve_read_req_def)
  then show ?thesis using h by blast
qed

theorem read_slots_unique_witness:
  "\<exists>rm. id_reach reserve_index release_index reqmgr_init rm [0] \<and> distinct [0 :: int] \<and> {0} \<union> free_slots rm = {0..<UNIFYFS_SERVER_MAX_READS}"
proof -
  have n: "rm_num_read_reqs reqmgr_init < UNIFYFS_SERVER_MAX_READS" "rm_next_rdreq_ndx reqmgr_init = 0" "(0::int) < UNIFYFS_SERVER_MAX_READS - 1"
    by (simp_all add: reqmgr_init_def UNIFYFS_SERVER_MAX_READS_def)
  obtain rm where "rm_reserve_read_req reqmgr_init = Some (Some 0, rm)"
    using reserve_spec [OF reqmgr_init_ok(1) n(1)] n(2,3) by auto
  then have r: "id_reach reserve_index release_index reqmgr_init rm [0]"
    by (intro id_reach.pop [OF id_reach.start]) (simp_all add: reserve_index_def)
  from read_slots_unique [OF r] r show ?thesis by auto
qed


text \<open>Two servers with the same log, and a chunk at each.\<close>

definition read_cluster :: cluster where
  "read_cluster = \<lparr>cs_servers = (\<lambda>r. no_file\<lparr>sv_clients := (\<lambda>_. Some (Some (example_ctx 8 16)))\<rparr>), cs_size = 2, cs_local_extents = False,
     cs_bcasts = [], cs_syncs = [], cs_responses = []\<rparr>"

definition read_env_example :: read_env where
  "read_env_example = \<lparr>re_client = True, re_alloc = (\<lambda>_. True), re_io = (\<lambda>_ _. Inr (2 ^ 64)), re_rpc = (\<lambda>_. Rpc_Answered),
     re_resp = (\<lambda>_. Rpc_Answered), re_msg = (\<lambda>_. UNIFYFS_SUCCESS)\<rparr>"

definition chunk_example :: "int \<Rightarrow> u64 \<Rightarrow> chunk_read_req" where
  "chunk_example rank off = \<lparr>crr_gfid = 5, crr_nbytes = 2, crr_offset = off, crr_log_offset = 0, crr_log_app_id = 7, crr_log_client_id = 3, crr_rank = rank\<rparr>"

lemma read_examples: "good_reads read_env_example" "readable read_cluster (chunk_example r off)"
proof -
  show "good_reads read_env_example" by (simp add: good_reads_def read_env_example_def full_io_def)
  have "log_size (example_ctx 8 16) = 24"
    by (simp add: log_size_def mem_data_sz_def spill_data_sz_def example_ctx_def example_region_def)
  then show "readable read_cluster (chunk_example r off)"
    using example_ctx_ok(2) by (simp add: readable_def read_cluster_def chunk_example_def)
qed


lemma send_pieces_one:
  "buf \<noteq> [] \<Longrightarrow> length buf \<le> UNIFYFS_SERVER_MAX_DATA_TX_SIZE \<Longrightarrow>
     send_pieces rpc mread ndx off buf = (rpc (Mread_Data mread ndx off buf), [Mread_Data mread ndx off buf])"
  by (subst send_pieces.simps, subst send_pieces.simps) (simp add: Let_def)

text \<open>
  (C35) When the log of a chunk is not known at its server, the next chunk is corrupted. The server lays out the data of the chunks
  by their requested sizes, but the request manager advances only by the bytes that were read, so the client gets the zeros
  reserved for the failed chunk instead of the data of the next one. The client is also told twice that the
  request is complete, first with the error and then without.
\<close>

theorem failed_chunk_corrupts_next:
  assumes "sv_clients (cs_servers cs r) (crr_log_app_id c, crr_log_client_id c) = None" and "readable cs d" and "crr_rank d = r"
    and "crr_nbytes d \<noteq> 0" and "crr_nbytes d \<le> crr_nbytes c" and "unat (crr_nbytes c) + unat (crr_nbytes d) < 2 ^ 64"
    and "unat (crr_nbytes d) \<le> UNIFYFS_SERVER_MAX_DATA_TX_SIZE"
    and "full_io io" and "\<forall>m. rpc m = UNIFYFS_SUCCESS" and "xt_offset (rr_extent rdreq) \<le> crr_offset d"
    and "scr_status g = READREQ_STARTED" and "scr_total_sz g \<noteq> 0"
  shows "\<exists>resp rdreq'.
    chunk_reads_loop io (sv_clients (cs_servers cs r)) 0 [c, d] 0 (replicate (unat (crr_nbytes c + crr_nbytes d)) 0) = Some resp \<and>
    rm_handle_chunk_read_responses rpc (rdreq\<lparr>rr_remote_reads := Some [g\<lparr>scr_resp := Some resp\<rparr>]\<rparr>) 0 = Some (UNIFYFS_SUCCESS,
      [Mread_Complete (rr_client_mread rdreq) (rr_client_read_ndx rdreq) EINVAL,
       Mread_Data (rr_client_mread rdreq) (rr_client_read_ndx rdreq) (unat (crr_offset d - xt_offset (rr_extent rdreq)))
         (replicate (unat (crr_nbytes d)) 0),
       Mread_Complete (rr_client_mread rdreq) (rr_client_read_ndx rdreq) UNIFYFS_SUCCESS], rdreq')"
proof -
  let ?m = "unat (crr_nbytes c)" and ?n = "unat (crr_nbytes d)"
  let ?resp = "([\<lparr>rsp_gfid = crr_gfid c, rsp_offset = crr_offset c, rsp_nbytes = crr_nbytes c, rsp_read_rc = Inl EINVAL\<rparr>, full_resp d],
     replicate ?m 0 @ chunk_bytes cs d)"
  have sz: "unat (crr_nbytes c + crr_nbytes d) = ?m + ?n" using assms(6) by (simp add: unat_add_lem [THEN iffD1])
  have n: "?n \<le> ?m" "0 < ?n" using assms(4,5) by (simp_all add: word_le_nat_alt unat_gt_0)
  have l: "length (chunk_bytes cs d) = ?n" by (rule chunk_bytes_length [OF assms(2)])
  have "chunk_reads_loop io (sv_clients (cs_servers cs r)) 0 [c, d] 0 (replicate (?m + ?n) 0) = Some ?resp"
    using read_chunk_full [OF assms(2,8), of 1] assms(1,3) l by (simp add: read_chunk_def [of _ _ c] full_resp_def)
  moreover have "take ?n (replicate ?m 0 @ chunk_bytes cs d) = replicate ?n 0" "replicate ?n (0::u8) \<noteq> []"
    "length (replicate ?n (0::u8)) \<le> UNIFYFS_SERVER_MAX_DATA_TX_SIZE"
    using n assms(7) by (simp_all add: min_absorb1)
  ultimately show ?thesis
    using assms(9-12) n l sz
    by (simp add: rm_handle_chunk_read_responses_def send_data_to_client_def full_resp_def send_pieces_one Let_def)
qed

theorem failed_chunk_corrupts_next_witness:
  "\<exists>resp rdreq'.
    chunk_reads_loop (\<lambda>_. Inr (2 ^ 64)) (\<lambda>k. if k = (7, 3) then Some (Some (example_ctx 8 16)) else None) 0
      [(chunk_example 0 4)\<lparr>crr_log_app_id := 9\<rparr>, chunk_example 0 6] 0 (replicate 4 0) = Some resp \<and>
    rm_handle_chunk_read_responses (\<lambda>_. UNIFYFS_SUCCESS) (zero_read_req\<lparr>rr_remote_reads := Some [\<lparr>scr_rank = 0, scr_rdreq_id = 0,
        scr_status = READREQ_STARTED, scr_num_chunks = 2, scr_total_sz = 68, scr_reqs = [], scr_resp = Some resp\<rparr>]\<rparr>) 0 =
      Some (UNIFYFS_SUCCESS, [Mread_Complete 0 0 EINVAL, Mread_Data 0 0 6 [0, 0], Mread_Complete 0 0 UNIFYFS_SUCCESS], rdreq')"
proof -
  let ?cs = "read_cluster\<lparr>cs_servers := (\<lambda>r. no_file\<lparr>sv_clients := (\<lambda>k. if k = (7, 3) then Some (Some (example_ctx 8 16)) else None)\<rparr>)\<rparr>"
  let ?c = "(chunk_example 0 4)\<lparr>crr_log_app_id := 9\<rparr>" and ?d = "chunk_example 0 6"
  let ?g = "\<lparr>scr_rank = 0, scr_rdreq_id = 0, scr_status = READREQ_STARTED, scr_num_chunks = 2, scr_total_sz = 68, scr_reqs = [], scr_resp = None\<rparr>"
  have c: "sv_clients (cs_servers ?cs 0) (crr_log_app_id ?c, crr_log_client_id ?c) = None" "crr_rank ?d = 0" "crr_nbytes ?d \<noteq> 0"
    "crr_nbytes ?d \<le> crr_nbytes ?c" "unat (crr_nbytes ?c) + unat (crr_nbytes ?d) < 2 ^ 64" "unat (crr_nbytes ?d) \<le> UNIFYFS_SERVER_MAX_DATA_TX_SIZE"
    by (simp_all add: chunk_example_def UNIFYFS_SERVER_MAX_DATA_TX_SIZE_def)
  have "readable ?cs ?d" using read_examples(2) [of 0 6] by (simp add: readable_def chunk_example_def read_cluster_def)
  moreover have "full_io (\<lambda>_. Inr (2 ^ 64))" by (simp add: full_io_def)
  moreover have "xt_offset (rr_extent zero_read_req) \<le> crr_offset ?d" "scr_status ?g = READREQ_STARTED" "scr_total_sz ?g \<noteq> 0"
    by (simp_all add: zero_read_req_def)
  ultimately have "\<exists>resp rdreq'.
    chunk_reads_loop (\<lambda>_. Inr (2 ^ 64)) (sv_clients (cs_servers ?cs 0)) 0 [?c, ?d] 0 (replicate (unat (crr_nbytes ?c + crr_nbytes ?d)) 0) = Some resp \<and>
    rm_handle_chunk_read_responses (\<lambda>_. UNIFYFS_SUCCESS) (zero_read_req\<lparr>rr_remote_reads := Some [?g\<lparr>scr_resp := Some resp\<rparr>]\<rparr>) 0 = Some (UNIFYFS_SUCCESS,
      [Mread_Complete (rr_client_mread zero_read_req) (rr_client_read_ndx zero_read_req) EINVAL,
       Mread_Data (rr_client_mread zero_read_req) (rr_client_read_ndx zero_read_req) (unat (crr_offset ?d - xt_offset (rr_extent zero_read_req)))
         (replicate (unat (crr_nbytes ?d)) 0),
       Mread_Complete (rr_client_mread zero_read_req) (rr_client_read_ndx zero_read_req) UNIFYFS_SUCCESS], rdreq')"
    using failed_chunk_corrupts_next [OF c(1) _ c(2-6), where io = "\<lambda>_. Inr (2 ^ 64)" and rpc = "\<lambda>_. UNIFYFS_SUCCESS"
        and rdreq = zero_read_req and g = ?g] by blast
  moreover have "sv_clients (cs_servers ?cs 0) = (\<lambda>k. if k = (7, 3) then Some (Some (example_ctx 8 16)) else None)"
    "rr_client_mread zero_read_req = 0" "rr_client_read_ndx zero_read_req = 0" "unat (crr_nbytes ?c + crr_nbytes ?d) = 4"
    "unat (crr_offset ?d - xt_offset (rr_extent zero_read_req)) = 6" "replicate (unat (crr_nbytes ?d)) (0 :: u8) = [0, 0]"
    "?g\<lparr>scr_resp := Some resp\<rparr> = \<lparr>scr_rank = 0, scr_rdreq_id = 0, scr_status = READREQ_STARTED, scr_num_chunks = 2, scr_total_sz = 68,
       scr_reqs = [], scr_resp = Some resp\<rparr>" for resp
    by (simp_all add: zero_read_req_def chunk_example_def) (simp add: numeral_2_eq_2)
  ultimately show ?thesis by (simp only:)
qed

end
