(* ===== verification/Spec2Isabelle.thy ===== *)
theory Spec2Isabelle
  imports Seg_Tree Extent_Tree Slotmap Free_Stack Kary_Tree Logio Arraylist File_Attr Inode Client_Api Client_Data Cluster Broadcast Read_Service
begin

text \<open>
  A verification development for UnifyFS, a user-level burst buffer file system.
\<close>

end
